(* ===== verification/Prelude.thy ===== *)
theory Prelude
  imports Main "HOL-Library.Word"
begin

text \<open>
  Shared vocabulary of the development: pointers with the null pointer 0, the error
  numbers of \<open>include/errno.h\<close>, bytes, \<open>memcpy\<close> and \<open>memset\<close> on arrays, and chains of
  nodes linked by a field (\<open>lseg\<close>), on which the queue, watchdog, heap and scheduler
  theories rest. The collections \<open>chain_simps\<close> and \<open>blit_simps\<close> hold the facts the
  component proofs hand to the simplifier.
\<close>

named_theorems chain_simps \<open>facts about chains of linked nodes\<close>
named_theorems blit_simps \<open>facts about block copies\<close>

section \<open>Pointers, bytes and error numbers\<close>

type_synonym ptr = nat

abbreviation NULL :: ptr where
  "NULL \<equiv> 0"

type_synonym byte = "8 word"

definition OK :: int where "OK = 0"

definition EAGAIN :: int where "EAGAIN = 11"

definition ENOMEM :: int where "ENOMEM = 12"

definition EINVAL :: int where "EINVAL = 22"

definition ENOSPC :: int where "ENOSPC = 28"

definition ESPIPE :: int where "ESPIPE = 29"

definition EOVERFLOW :: int where "EOVERFLOW = 139"

definition ECANCELED :: int where "ECANCELED = 140"

definition SEM_VALUE_MAX :: int where "SEM_VALUE_MAX = 0x7fff"

text \<open>Assignment to a 16 bit signed integer.\<close>

definition to_int16 :: "int \<Rightarrow> int" where
  "to_int16 n = (n + 32768) mod 65536 - 32768"

lemma to_int16_id: "- 32768 \<le> n \<Longrightarrow> n \<le> SEM_VALUE_MAX \<Longrightarrow> to_int16 n = n"
  by (simp add: to_int16_def SEM_VALUE_MAX_def)

lemmas errno_defs = OK_def ENOMEM_def EINVAL_def ENOSPC_def ESPIPE_def ECANCELED_def

section \<open>Arithmetic\<close>

lemma mod_wrap_once: "a < 2 * n \<Longrightarrow> a mod n = (if a < n then a else a - n)" for a n :: nat
  by (auto simp: le_mod_geq not_less)

section \<open>Block copies\<close>

text \<open>
  \<open>blit dst off src\<close> is the array \<open>dst\<close> after \<open>memcpy(dst + off, src, length src)\<close>.
  The callers keep \<open>off + length src\<close> within the array.
\<close>

definition blit :: "'a list \<Rightarrow> nat \<Rightarrow> 'a list \<Rightarrow> 'a list" where
  "blit dst off src = take off dst @ src @ drop (off + length src) dst"

lemma length_blit [simp, blit_simps]:
  "off + length src \<le> length dst \<Longrightarrow> length (blit dst off src) = length dst"
  by (simp add: blit_def)

lemma blit_Nil [simp, blit_simps]: "blit dst off [] = dst"
  by (simp add: blit_def)

lemma nth_blit [blit_simps]:
  assumes "off + length src \<le> length dst" "i < length dst"
  shows "blit dst off src ! i =
    (if off \<le> i \<and> i < off + length src then src ! (i - off) else dst ! i)"
  using assms by (auto simp: blit_def nth_append min_def)

section \<open>Chains of linked nodes\<close>

text \<open>
  \<open>lseg f p xs q\<close>: following the link field \<open>f\<close> from \<open>p\<close> visits the nodes \<open>xs\<close> and
  arrives at \<open>q\<close>. A list in memory is a chain that arrives at \<open>NULL\<close>.
\<close>

primrec lseg :: "(ptr \<Rightarrow> ptr) \<Rightarrow> ptr \<Rightarrow> ptr list \<Rightarrow> ptr \<Rightarrow> bool" where
  "lseg f p [] q \<longleftrightarrow> p = q"
| "lseg f p (x # xs) q \<longleftrightarrow> p = x \<and> x \<noteq> NULL \<and> lseg f (f x) xs q"

definition hd0 :: "ptr list \<Rightarrow> ptr" where
  "hd0 xs = (case xs of [] \<Rightarrow> NULL | x # _ \<Rightarrow> x)"

lemma hd0_simps [simp, chain_simps]:
  "hd0 [] = NULL" "hd0 (x # xs) = x"
  by (auto simp: hd0_def)

lemma hd0_append [chain_simps]: "hd0 (xs @ ys) = (if xs = [] then hd0 ys else hd0 xs)"
  by (cases xs) auto

lemma hd0_eq_hd: "xs \<noteq> [] \<Longrightarrow> hd0 xs = hd xs"
  by (cases xs) auto

lemma hd0_rev_snoc [simp, chain_simps]: "hd0 (rev (xs @ [x])) = x"
  by simp

lemma hd0_in_set: "xs \<noteq> [] \<Longrightarrow> hd0 xs \<in> set xs"
  by (cases xs) auto

lemma lseg_append [chain_simps]:
  "lseg f p (xs @ ys) q \<longleftrightarrow> (\<exists>m. lseg f p xs m \<and> lseg f m ys q)"
  by (induction xs arbitrary: p) auto

lemma lseg_upd [simp, chain_simps]:
  "u \<notin> set xs \<Longrightarrow> lseg (f(u := v)) p xs q = lseg f p xs q"
  by (induction xs arbitrary: p) auto

lemma lseg_cong_on:
  "(\<And>x. x \<in> set xs \<Longrightarrow> f x = g x) \<Longrightarrow> lseg f p xs q = lseg g p xs q"
  by (induction xs arbitrary: p) auto

lemma lseg_no_null: "lseg f p xs q \<Longrightarrow> NULL \<notin> set xs"
  by (induction xs arbitrary: p) auto

lemma lseg_head: "lseg f p xs NULL \<Longrightarrow> p = hd0 xs"
  by (cases xs) auto

lemma lseg_null_iff: "lseg f p xs NULL \<Longrightarrow> p = NULL \<longleftrightarrow> xs = []"
  by (cases xs) auto

lemma lseg_unique: "lseg f p xs NULL \<Longrightarrow> lseg f p ys NULL \<Longrightarrow> xs = ys"
proof (induction xs arbitrary: p ys)
  case Nil
  then show ?case by (cases ys) auto
next
  case (Cons x xs)
  then show ?case by (cases ys) auto
qed

lemma lseg_distinct: "lseg f p xs NULL \<Longrightarrow> distinct xs"
proof (induction xs arbitrary: p)
  case Nil
  then show ?case by simp
next
  case (Cons x xs)
  have "x \<notin> set xs"
  proof
    assume "x \<in> set xs"
    then obtain ys zs where xs: "xs = ys @ x # zs"
      by (auto dest: split_list)
    with Cons.prems have "lseg f (f x) zs NULL" "lseg f (f x) xs NULL"
      by (auto simp: lseg_append)
    then have "zs = xs" by (rule lseg_unique)
    with xs show False by (auto dest: arg_cong [where f = length])
  qed
  with Cons show ?case by auto
qed

lemma lseg_mid:
  assumes "lseg f p (ys @ n # zs) NULL"
  shows "f n = hd0 zs" "lseg f p ys n" "lseg f (hd0 zs) zs NULL" "n \<noteq> NULL"
  using assms lseg_head [of f "f n" zs] by (auto simp: lseg_append)

lemma lseg_ConsD:
  assumes "lseg f p (x # xs) NULL"
  shows "p = x" "x \<noteq> NULL" "f x = hd0 xs" "lseg f (hd0 xs) xs NULL" "x \<notin> set xs"
  using lseg_mid [of f p "[]" x xs] lseg_distinct [OF assms] assms by auto

lemma lseg_insert_front:
  assumes "lseg f p zs NULL" "n \<noteq> NULL" "n \<notin> set zs"
  shows "lseg (f(n := p)) n (n # zs) NULL"
  using assms by simp

lemma lseg_insert_after:
  assumes "lseg f p (ys @ y # zs) NULL" "n \<noteq> NULL" "n \<notin> set (ys @ y # zs)"
  shows "lseg (f(n := hd0 zs, y := n)) p (ys @ y # n # zs) NULL"
proof -
  have "distinct (ys @ y # zs)" using assms(1) by (rule lseg_distinct)
  with assms lseg_mid [OF assms(1)] show ?thesis
    by (auto simp: lseg_append)
qed

lemma lseg_remove_after:
  assumes "lseg f p (ys @ y # n # zs) NULL"
  shows "lseg (f(y := hd0 zs)) p (ys @ y # zs) NULL"
proof -
  have "distinct (ys @ y # n # zs)" using assms by (rule lseg_distinct)
  moreover have "lseg f (hd0 zs) zs NULL"
    using lseg_mid(3) [of f p "ys @ [y]" n zs] assms by simp
  ultimately show ?thesis
    using lseg_mid [OF assms] by (auto simp: lseg_append)
qed

lemma lseg_remove_front:
  assumes "lseg f p (n # zs) NULL"
  shows "lseg f (hd0 zs) zs NULL"
  using lseg_mid(3) [of f p "[]" n zs] assms by simp

lemma lseg_join:
  assumes "lseg f p (xs @ [x]) NULL" "lseg f q ys NULL" "set (xs @ [x]) \<inter> set ys = {}"
  shows "lseg (f(x := q)) p (xs @ x # ys) NULL"
proof -
  have "distinct (xs @ [x])" using assms(1) by (rule lseg_distinct)
  with assms show ?thesis by (auto simp: lseg_append)
qed

lemma lseg_nth_next:
  "lseg f p xs NULL \<Longrightarrow> i < length xs \<Longrightarrow> f (xs ! i) = hd0 (drop (Suc i) xs)"
  using lseg_mid(1) [of f p "take i xs" "xs ! i" "drop (Suc i) xs"]
  by (simp add: id_take_nth_drop [symmetric])

end
