(* ===== verification/Queue_Interface.thy ===== *)
theory Queue_Interface
  imports Prelude
begin

text \<open>
  What a client of \<open>libs/libc/queue\<close> relies on, for either kind of queue: a state that
  represents a list of nodes, insertion at both ends and removal at both ends. The
  first-in first-out and last-in first-out laws are proved once here and used through
  the interpretations in \<open>Queue_SQ\<close> and \<open>Queue_DQ\<close>.
\<close>

section \<open>The list operations the queue operations stand for\<close>

text \<open>
  A program that uses a queue performs a sequence of operations; \<open>list_step\<close> says what
  one of them means for the list of queued nodes. An operation is
  admissible (\<open>step_ok\<close>) when the inserted node is not already queued and the anchor is.
\<close>

datatype queue_op =
    AddFirst ptr
  | AddLast ptr
  | AddAfter ptr ptr
  | AddBefore ptr ptr
  | Rem ptr
  | RemFirst
  | RemLast

fun insert_after :: "'a \<Rightarrow> 'a \<Rightarrow> 'a list \<Rightarrow> 'a list" where
  "insert_after p n [] = []"
| "insert_after p n (x # xs) = (if x = p then x # n # xs else x # insert_after p n xs)"

fun insert_before :: "'a \<Rightarrow> 'a \<Rightarrow> 'a list \<Rightarrow> 'a list" where
  "insert_before p n [] = []"
| "insert_before p n (x # xs) = (if x = p then n # x # xs else x # insert_before p n xs)"

fun list_step :: "queue_op \<Rightarrow> ptr list \<Rightarrow> ptr list" where
  "list_step (AddFirst n) xs = n # xs"
| "list_step (AddLast n) xs = xs @ [n]"
| "list_step (AddAfter p n) xs = insert_after p n xs"
| "list_step (AddBefore p n) xs = insert_before p n xs"
| "list_step (Rem n) xs = remove1 n xs"
| "list_step RemFirst xs = tl xs"
| "list_step RemLast xs = butlast xs"

fun step_ok :: "queue_op \<Rightarrow> ptr list \<Rightarrow> bool" where
  "step_ok (AddFirst n) xs \<longleftrightarrow> n \<noteq> NULL \<and> n \<notin> set xs"
| "step_ok (AddLast n) xs \<longleftrightarrow> n \<noteq> NULL \<and> n \<notin> set xs"
| "step_ok (AddAfter p n) xs \<longleftrightarrow> n \<noteq> NULL \<and> n \<notin> set xs \<and> p \<in> set xs"
| "step_ok (AddBefore p n) xs \<longleftrightarrow> n \<noteq> NULL \<and> n \<notin> set xs \<and> p \<in> set xs"
| "step_ok (Rem n) xs \<longleftrightarrow> n \<in> set xs"
| "step_ok RemFirst xs \<longleftrightarrow> True"
| "step_ok RemLast xs \<longleftrightarrow> True"

fun list_run_ok :: "queue_op list \<Rightarrow> ptr list \<Rightarrow> bool" where
  "list_run_ok [] xs \<longleftrightarrow> True"
| "list_run_ok (e # es) xs \<longleftrightarrow> step_ok e xs \<and> list_run_ok es (list_step e xs)"

lemma insert_after_split: "p \<notin> set ys \<Longrightarrow> insert_after p n (ys @ p # zs) = ys @ p # n # zs"
  by (induction ys) auto

lemma insert_before_split: "p \<notin> set ys \<Longrightarrow> insert_before p n (ys @ p # zs) = ys @ n # p # zs"
  by (induction ys) auto

section \<open>The interface\<close>

text \<open>A client that removes \<open>n\<close> nodes from the front, one after the other.\<close>

primrec drain :: "('s \<Rightarrow> ptr \<times> 's) \<Rightarrow> nat \<Rightarrow> 's \<Rightarrow> ptr list \<times> 's" where
  "drain rem 0 s = ([], s)"
| "drain rem (Suc n) s =
     (let (x, s1) = rem s; (xs, s2) = drain rem n s1 in (x # xs, s2))"

locale linked_queue =
  fixes rep :: "'s \<Rightarrow> ptr list \<Rightarrow> bool"
    and addfirst :: "ptr \<Rightarrow> 's \<Rightarrow> 's"
    and addlast :: "ptr \<Rightarrow> 's \<Rightarrow> 's"
    and remfirst :: "'s \<Rightarrow> ptr \<times> 's"
    and remlast :: "'s \<Rightarrow> (ptr \<times> 's) option"
  assumes rep_distinct: "rep s xs \<Longrightarrow> distinct xs \<and> NULL \<notin> set xs"
    and rep_addfirst: "\<lbrakk> rep s xs; n \<noteq> NULL; n \<notin> set xs \<rbrakk> \<Longrightarrow> rep (addfirst n s) (n # xs)"
    and rep_addlast: "\<lbrakk> rep s xs; n \<noteq> NULL; n \<notin> set xs \<rbrakk> \<Longrightarrow> rep (addlast n s) (xs @ [n])"
    and rep_remfirst: "rep s xs \<Longrightarrow> fst (remfirst s) = hd0 xs \<and> rep (snd (remfirst s)) (tl xs)"
    and rep_remlast: "rep s xs \<Longrightarrow>
      \<exists>s'. remlast s = Some (hd0 (rev xs), s') \<and> rep s' (butlast xs)"
begin

lemma rep_fold_addlast:
  assumes "rep s xs" "distinct (xs @ ns)" "NULL \<notin> set ns"
  shows "rep (fold addlast ns s) (xs @ ns)"
  using assms
proof (induction ns arbitrary: s xs)
  case Nil
  then show ?case by simp
next
  case (Cons n ns)
  have "rep (addlast n s) (xs @ [n])"
    using Cons.prems by (intro rep_addlast) auto
  then have "rep (fold addlast ns (addlast n s)) ((xs @ [n]) @ ns)"
    using Cons.prems by (intro Cons.IH) auto
  then show ?case by simp
qed

lemma drain_prefix:
  assumes "rep s xs" "n \<le> length xs"
  shows "fst (drain remfirst n s) = take n xs \<and> rep (snd (drain remfirst n s)) (drop n xs)"
  using assms
proof (induction n arbitrary: s xs)
  case 0
  then show ?case by simp
next
  case (Suc n)
  then obtain x ys where xs: "xs = x # ys" by (cases xs) auto
  have r: "fst (remfirst s) = x" "rep (snd (remfirst s)) ys"
    using rep_remfirst [OF Suc.prems(1)] xs by auto
  have "n \<le> length ys" using Suc.prems(2) xs by simp
  from Suc.IH [OF r(2) this] r(1) xs show ?case
    by (auto simp: Let_def split: prod.splits)
qed

lemma fifo_order:
  assumes "rep s []" "distinct ns" "NULL \<notin> set ns" "k \<le> length ns"
  shows "fst (drain remfirst k (fold addlast ns s)) = take k ns"
  using drain_prefix [of "fold addlast ns s" ns k] rep_fold_addlast [of s "[]" ns] assms
  by simp

lemma lifo_order:
  assumes "rep s xs" "n \<noteq> NULL" "n \<notin> set xs"
  shows "fst (remfirst (addfirst n s)) = n \<and> rep (snd (remfirst (addfirst n s))) xs"
  using rep_remfirst [OF rep_addfirst [OF assms]] by simp

lemma remlast_addlast:
  assumes "rep s xs" "n \<noteq> NULL" "n \<notin> set xs"
  shows "\<exists>s'. remlast (addlast n s) = Some (n, s') \<and> rep s' xs"
  using rep_remlast [OF rep_addlast [OF assms]] by simp

end

end
