(* ===== verification/Queue_DQ.thy ===== *)
theory Queue_DQ
  imports Queue_Interface
begin

text \<open>
  The doubly linked queues of \<open>include/queue.h\<close> and \<open>libs/libc/queue/dq_*.c\<close>. The state is
  the two link fields of every entry in memory and the queue's head and tail pointers. A
  queue represents a list (\<open>dq_rep\<close>) when the forward chain from its head is the list and
  the backward chain from its tail is the reversed list; every operation of the library
  is shown to be the list operation it names, on both chains.
\<close>

section \<open>The queues\<close>

record dq_queue_s =
  dq_head :: ptr
  dq_tail :: ptr

record dq_links =
  flink :: "ptr \<Rightarrow> ptr"
  blink :: "ptr \<Rightarrow> ptr"

type_synonym dq_state = "dq_links \<times> dq_queue_s"

definition set_flink :: "ptr \<Rightarrow> ptr \<Rightarrow> dq_links \<Rightarrow> dq_links" where
  "set_flink n p h = h\<lparr>flink := (flink h)(n := p)\<rparr>"

definition set_blink :: "ptr \<Rightarrow> ptr \<Rightarrow> dq_links \<Rightarrow> dq_links" where
  "set_blink n p h = h\<lparr>blink := (blink h)(n := p)\<rparr>"

lemma link_upd_simps [simp, chain_simps]:
  "flink (set_flink n p h) = (flink h)(n := p)" "blink (set_flink n p h) = blink h"
  "flink (set_blink n p h) = flink h" "blink (set_blink n p h) = (blink h)(n := p)"
  by (simp_all add: set_flink_def set_blink_def)

definition dq_init :: dq_queue_s where
  "dq_init = \<lparr>dq_head = NULL, dq_tail = NULL\<rparr>"

definition dq_empty :: "dq_queue_s \<Rightarrow> bool" where
  "dq_empty q \<longleftrightarrow> dq_head q = NULL"

definition dq_addfirst :: "ptr \<Rightarrow> dq_state \<Rightarrow> dq_state" where
  "dq_addfirst node s =
     (let (h, q) = s;
          h = set_blink node NULL h;
          h = set_flink node (dq_head q) h
      in if dq_head q = NULL
         then (h, q\<lparr>dq_head := node, dq_tail := node\<rparr>)
         else (set_blink (dq_head q) node h, q\<lparr>dq_head := node\<rparr>))"

definition dq_addlast :: "ptr \<Rightarrow> dq_state \<Rightarrow> dq_state" where
  "dq_addlast node s =
     (let (h, q) = s;
          h = set_flink node NULL h;
          h = set_blink node (dq_tail q) h
      in if dq_head q = NULL
         then (h, q\<lparr>dq_head := node, dq_tail := node\<rparr>)
         else (set_flink (dq_tail q) node h, q\<lparr>dq_tail := node\<rparr>))"

definition dq_addafter :: "ptr \<Rightarrow> ptr \<Rightarrow> dq_state \<Rightarrow> dq_state" where
  "dq_addafter prev node s =
     (let (h, q) = s
      in if dq_head q = NULL \<or> prev = dq_tail q
         then dq_addlast node s
         else let next = flink h prev;
                  h = set_blink node prev h;
                  h = set_flink node next h;
                  h = set_blink next node h;
                  h = set_flink prev node h
              in (h, q))"

definition dq_addbefore :: "ptr \<Rightarrow> ptr \<Rightarrow> dq_state \<Rightarrow> dq_state" where
  "dq_addbefore next node s =
     (let (h, q) = s
      in if dq_head q = NULL \<or> next = dq_head q
         then dq_addfirst node s
         else let prev = blink h next;
                  h = set_flink node next h;
                  h = set_blink node prev h;
                  h = set_flink prev node h;
                  h = set_blink next node h
              in (h, q))"

definition dq_rem :: "ptr \<Rightarrow> dq_state \<Rightarrow> dq_state" where
  "dq_rem node s =
     (let (h, q) = s;
          prev = blink h node;
          next = flink h node;
          (h, q) = (if prev = NULL then (h, q\<lparr>dq_head := next\<rparr>)
                    else (set_flink prev next h, q));
          (h, q) = (if next = NULL then (h, q\<lparr>dq_tail := prev\<rparr>)
                    else (set_blink next prev h, q))
      in (set_blink node NULL (set_flink node NULL h), q))"

definition dq_remfirst :: "dq_state \<Rightarrow> ptr \<times> dq_state" where
  "dq_remfirst s =
     (let (h, q) = s; ret = dq_head q
      in if ret \<noteq> NULL
         then let next = flink h ret;
                  (h, q) = (if next = NULL
                            then (h, q\<lparr>dq_head := NULL, dq_tail := NULL\<rparr>)
                            else (set_blink next NULL h, q\<lparr>dq_head := next\<rparr>))
              in (ret, set_blink ret NULL (set_flink ret NULL h), q)
         else (ret, s))"

definition dq_remlast :: "dq_state \<Rightarrow> ptr \<times> dq_state" where
  "dq_remlast s =
     (let (h, q) = s; ret = dq_tail q
      in if ret \<noteq> NULL
         then let prev = blink h ret;
                  (h, q) = (if prev = NULL
                            then (h, q\<lparr>dq_head := NULL, dq_tail := NULL\<rparr>)
                            else (set_flink prev NULL h, q\<lparr>dq_tail := prev\<rparr>))
              in (ret, set_blink ret NULL (set_flink ret NULL h), q)
         else (ret, s))"

partial_function (option) dq_count_loop :: "(ptr \<Rightarrow> ptr) \<Rightarrow> ptr \<Rightarrow> nat \<Rightarrow> nat option" where
  "dq_count_loop fl node count =
     (if node \<noteq> NULL then dq_count_loop fl (fl node) (Suc count) else Some count)"

definition dq_count :: "dq_state \<Rightarrow> nat option" where
  "dq_count s = (let (h, q) = s in dq_count_loop (flink h) (dq_head q) 0)"

text \<open>\<open>dq_cat\<close> moves the entries of the first queue to the end of the second.\<close>

definition dq_cat :: "dq_links \<Rightarrow> dq_queue_s \<Rightarrow> dq_queue_s \<Rightarrow> dq_links \<times> dq_queue_s \<times> dq_queue_s" where
  "dq_cat h q1 q2 =
     (if dq_empty q2 then (h, dq_init, q1)
      else if \<not> dq_empty q1
      then let h = set_flink (dq_tail q2) (dq_head q1) h;
               h = set_blink (dq_head q1) (dq_tail q2) h
           in (h, dq_init, q2\<lparr>dq_tail := dq_tail q1\<rparr>)
      else (h, q1, q2))"

section \<open>The list a queue represents\<close>

definition dq_rep :: "dq_state \<Rightarrow> ptr list \<Rightarrow> bool" where
  "dq_rep s xs \<longleftrightarrow> lseg (flink (fst s)) (dq_head (snd s)) xs NULL \<and>
     lseg (blink (fst s)) (dq_tail (snd s)) (rev xs) NULL"

lemma dq_repD:
  assumes "dq_rep (h, q) xs"
  shows "lseg (flink h) (dq_head q) xs NULL" "lseg (blink h) (dq_tail q) (rev xs) NULL"
    "dq_head q = hd0 xs" "dq_tail q = hd0 (rev xs)" "distinct xs" "NULL \<notin> set xs"
  using assms lseg_head [of "flink h" "dq_head q" xs] lseg_head [of "blink h" "dq_tail q" "rev xs"]
    lseg_distinct [of "flink h" "dq_head q" xs] lseg_no_null [of "flink h" "dq_head q" xs]
  by (auto simp: dq_rep_def)

lemma dq_rep_init: "dq_rep (h, dq_init) []"
  by (simp add: dq_rep_def dq_init_def)

text \<open>What the two link fields hold at a node in the middle of a represented list.\<close>

lemma dq_rep_links:
  assumes "dq_rep (h, q) (ys @ n # zs)"
  shows "flink h n = hd0 zs" "blink h n = hd0 (rev ys)" "n \<noteq> NULL"
  using lseg_mid(1,4) [OF dq_repD(1) [OF assms]]
    lseg_mid(1) [of "blink h" "dq_tail q" "rev zs" n "rev ys"] dq_repD(2) [OF assms]
  by auto

lemma dq_rep_addfirst:
  assumes "dq_rep s xs" "n \<noteq> NULL" "n \<notin> set xs"
  shows "dq_rep (dq_addfirst n s) (n # xs)"
proof (cases s)
  case (Pair h q)
  with assms(1) have "dq_rep (h, q) xs" by simp
  note r = dq_repD [OF this]
  show ?thesis
  proof (cases xs)
    case Nil
    with r assms show ?thesis by (simp add: Pair dq_addfirst_def dq_rep_def)
  next
    case (Cons x ys)
    have "lseg ((blink h)(n := NULL, x := n)) (dq_tail q) (rev ys @ [x, n]) NULL"
      using lseg_insert_after [of "blink h" "dq_tail q" "rev ys" x "[]" n] r(2) assms(2,3) Cons
      by simp
    moreover have "lseg ((flink h)(n := dq_head q)) n (n # xs) NULL"
      using r(1) assms(2,3) by (intro lseg_insert_front) auto
    ultimately show ?thesis
      using r Cons by (simp add: Pair dq_addfirst_def dq_rep_def Let_def)
  qed
qed

lemma dq_rep_addlast:
  assumes "dq_rep s xs" "n \<noteq> NULL" "n \<notin> set xs"
  shows "dq_rep (dq_addlast n s) (xs @ [n])"
proof (cases s)
  case (Pair h q)
  with assms(1) have "dq_rep (h, q) xs" by simp
  note r = dq_repD [OF this]
  show ?thesis
  proof (cases xs rule: rev_cases)
    case Nil
    with r assms show ?thesis by (simp add: Pair dq_addlast_def dq_rep_def)
  next
    case (snoc ys y)
    have "lseg ((flink h)(n := NULL, y := n)) (dq_head q) (ys @ [y, n]) NULL"
      using lseg_insert_after [of "flink h" "dq_head q" ys y "[]" n] r(1) assms(2,3) snoc by simp
    moreover have "lseg ((blink h)(n := dq_tail q)) n (n # rev xs) NULL"
      using r(2) assms(2,3) by (intro lseg_insert_front) auto
    moreover have "dq_head q \<noteq> NULL" using lseg_null_iff [OF r(1)] snoc by simp
    ultimately show ?thesis
      using r snoc by (simp add: Pair dq_addlast_def dq_rep_def Let_def)
  qed
qed

text \<open>Insertion between two neighbours, the common case of \<open>dq_addafter\<close> and \<open>dq_addbefore\<close>.\<close>

lemma dq_rep_between:
  assumes "dq_rep (h, q) (ys @ p # z # zs)" "n \<noteq> NULL" "n \<notin> set (ys @ p # z # zs)"
    and "flink h' = (flink h)(n := z, p := n)" "blink h' = (blink h)(n := p, z := n)"
  shows "dq_rep (h', q) (ys @ p # n # z # zs)"
proof -
  note r = dq_repD [OF assms(1)]
  have "lseg ((flink h)(n := z, p := n)) (dq_head q) (ys @ p # n # z # zs) NULL"
    using lseg_insert_after [OF r(1) assms(2,3)] by simp
  moreover have "lseg ((blink h)(n := p, z := n)) (dq_tail q) (rev zs @ z # n # p # rev ys) NULL"
    using lseg_insert_after [of "blink h" "dq_tail q" "rev zs" z "p # rev ys" n] r(2) assms(2,3)
    by auto
  ultimately show ?thesis using assms(4,5) by (simp add: dq_rep_def)
qed

lemma dq_rep_addafter:
  assumes "dq_rep s (ys @ p # zs)" "n \<noteq> NULL" "n \<notin> set (ys @ p # zs)"
  shows "dq_rep (dq_addafter p n s) (ys @ p # n # zs)"
proof (cases s)
  case (Pair h q)
  with assms(1) have r0: "dq_rep (h, q) (ys @ p # zs)" by simp
  note r = dq_repD [OF r0]
  have nz: "dq_head q \<noteq> NULL" using lseg_null_iff [OF r(1)] by simp
  show ?thesis
  proof (cases zs)
    case Nil
    then have "p = dq_tail q" using r by simp
    with dq_rep_addlast [OF assms] Nil show ?thesis by (simp add: Pair dq_addafter_def)
  next
    case (Cons z zs')
    have "p \<noteq> dq_tail q" using r Cons by (cases zs' rule: rev_cases) auto
    moreover have "flink h p = z" using dq_rep_links(1) [OF r0] Cons by simp
    moreover have "p \<noteq> n" "z \<noteq> n" "p \<noteq> z" using assms(3) r(5) Cons by auto
    ultimately show ?thesis
      using nz r0 assms(2,3) Cons
      by (auto simp: Pair dq_addafter_def Let_def fun_upd_twist intro!: dq_rep_between)
  qed
qed

lemma dq_rep_addbefore:
  assumes "dq_rep s (ys @ p # zs)" "n \<noteq> NULL" "n \<notin> set (ys @ p # zs)"
  shows "dq_rep (dq_addbefore p n s) (ys @ n # p # zs)"
proof (cases s)
  case (Pair h q)
  with assms(1) have r0: "dq_rep (h, q) (ys @ p # zs)" by simp
  note r = dq_repD [OF r0]
  have nz: "dq_head q \<noteq> NULL" using lseg_null_iff [OF r(1)] by simp
  show ?thesis
  proof (cases ys rule: rev_cases)
    case Nil
    then have "p = dq_head q" using r by simp
    with dq_rep_addfirst [OF assms] Nil show ?thesis by (simp add: Pair dq_addbefore_def)
  next
    case (snoc ys' y)
    have "p \<noteq> dq_head q" using r snoc by (cases ys') auto
    moreover have "blink h p = y" using dq_rep_links(2) [OF r0] snoc by simp
    moreover have "p \<noteq> n" "y \<noteq> n" "p \<noteq> y" using assms(3) r(5) snoc by auto
    moreover have "dq_rep (h', q) (ys' @ y # n # p # zs)"
      if "flink h' = (flink h)(n := p, y := n)" "blink h' = (blink h)(n := y, p := n)" for h'
      using r0 assms(2,3) snoc that by (intro dq_rep_between [of h q]) auto
    ultimately show ?thesis
      using nz snoc by (simp add: Pair dq_addbefore_def Let_def)
  qed
qed

lemma dq_rep_rem:
  assumes "dq_rep s (ys @ n # zs)"
  shows "dq_rep (dq_rem n s) (ys @ zs)"
proof (cases s)
  case (Pair h q)
  with assms have r0: "dq_rep (h, q) (ys @ n # zs)" by simp
  note r = dq_repD [OF r0] and l = dq_rep_links [OF r0]
  have fwd: "lseg (flink (fst (dq_rem n s))) (dq_head (snd (dq_rem n s))) (ys @ zs) NULL"
  proof (cases ys rule: rev_cases)
    case Nil
    then have "lseg (flink h) (dq_head q) (n # zs) NULL" using r(1) by simp
    note c = lseg_ConsD [OF this]
    show ?thesis using c l Nil by (auto simp: Pair dq_rem_def Let_def)
  next
    case (snoc ys' y)
    have "lseg ((flink h)(y := hd0 zs)) (dq_head q) (ys' @ y # zs) NULL"
      using lseg_remove_after [of "flink h" "dq_head q" ys' y n zs] r(1) snoc by simp
    moreover have "y \<noteq> NULL" "n \<notin> set (ys' @ y # zs)" using r(5,6) snoc by auto
    ultimately show ?thesis using l snoc by (auto simp: Pair dq_rem_def Let_def)
  qed
  have bwd: "lseg (blink (fst (dq_rem n s))) (dq_tail (snd (dq_rem n s))) (rev (ys @ zs)) NULL"
  proof (cases zs)
    case Nil
    then have "lseg (blink h) (dq_tail q) (n # rev ys) NULL" using r(2) by simp
    note c = lseg_ConsD [OF this]
    show ?thesis using c l Nil by (auto simp: Pair dq_rem_def Let_def)
  next
    case (Cons z zs')
    have "lseg ((blink h)(z := hd0 (rev ys))) (dq_tail q) (rev zs' @ z # rev ys) NULL"
      using lseg_remove_after [of "blink h" "dq_tail q" "rev zs'" z n "rev ys"] r(2) Cons by simp
    moreover have "z \<noteq> NULL" "n \<notin> set (rev zs' @ z # rev ys)" using r(5,6) Cons by auto
    ultimately show ?thesis using l Cons by (auto simp: Pair dq_rem_def Let_def)
  qed
  show ?thesis using fwd bwd by (simp add: dq_rep_def)
qed

lemma dq_rep_null: "dq_rep s [] \<Longrightarrow> dq_head (snd s) = NULL \<and> dq_tail (snd s) = NULL"
  by (auto simp: dq_rep_def)

lemma dq_remfirst_is_rem:
  assumes "dq_rep s (x # xs)"
  shows "dq_remfirst s = (x, dq_rem x s)"
proof (cases s)
  case (Pair h q)
  with assms have r0: "dq_rep (h, q) ([] @ x # xs)" by simp
  note r = dq_repD [OF r0] and l = dq_rep_links [OF r0]
  show ?thesis
    using r l by (auto simp: Pair dq_remfirst_def dq_rem_def Let_def)
qed

lemma dq_remlast_is_rem:
  assumes "dq_rep s (xs @ [x])"
  shows "dq_remlast s = (x, dq_rem x s)"
proof (cases s)
  case (Pair h q)
  with assms have r0: "dq_rep (h, q) (xs @ x # [])" by simp
  note r = dq_repD [OF r0] and l = dq_rep_links [OF r0]
  show ?thesis
    using r l by (auto simp: Pair dq_remlast_def dq_rem_def Let_def)
qed

lemma dq_rep_remfirst:
  assumes "dq_rep s xs"
  shows "fst (dq_remfirst s) = hd0 xs \<and> dq_rep (snd (dq_remfirst s)) (tl xs)"
proof (cases xs)
  case Nil
  with assms dq_rep_null [of s] show ?thesis by (auto simp: dq_remfirst_def split: prod.splits)
next
  case (Cons x ys)
  with assms dq_remfirst_is_rem [of s x ys] dq_rep_rem [of s "[]" x ys] show ?thesis by simp
qed

lemma dq_rep_remlast:
  assumes "dq_rep s xs"
  shows "fst (dq_remlast s) = hd0 (rev xs) \<and> dq_rep (snd (dq_remlast s)) (butlast xs)"
proof (cases xs rule: rev_cases)
  case Nil
  with assms dq_rep_null [of s] show ?thesis by (auto simp: dq_remlast_def split: prod.splits)
next
  case (snoc ys x)
  with assms dq_remlast_is_rem [of s ys x] dq_rep_rem [of s ys x "[]"] show ?thesis by simp
qed

lemma dq_count_loop_length:
  "lseg fl p xs NULL \<Longrightarrow> dq_count_loop fl p c = Some (c + length xs)"
proof (induction xs arbitrary: p c)
  case Nil
  then show ?case by (subst dq_count_loop.simps) simp
next
  case (Cons x xs)
  then show ?case by (subst dq_count_loop.simps) simp
qed

lemma dq_rep_count: "dq_rep s xs \<Longrightarrow> dq_count s = Some (length xs)"
  by (cases s) (auto simp: dq_count_def dq_rep_def dest: dq_count_loop_length [where c = 0])

interpretation dq: linked_queue dq_rep dq_addfirst dq_addlast dq_remfirst "\<lambda>s. Some (dq_remlast s)"
proof unfold_locales
  show "dq_rep s xs \<Longrightarrow> distinct xs \<and> NULL \<notin> set xs" for s xs
    by (cases s) (auto dest: dq_repD)
  show "dq_rep s xs \<Longrightarrow> \<exists>s'. Some (dq_remlast s) = Some (hd0 (rev xs), s') \<and> dq_rep s' (butlast xs)"
    for s xs
    using dq_rep_remlast [of s xs] by (cases "dq_remlast s") auto
qed (fact dq_rep_addfirst dq_rep_addlast dq_rep_remfirst)+

section \<open>Queues as lists\<close>

fun dq_step :: "queue_op \<Rightarrow> dq_state \<Rightarrow> dq_state" where
  "dq_step (AddFirst n) s = dq_addfirst n s"
| "dq_step (AddLast n) s = dq_addlast n s"
| "dq_step (AddAfter p n) s = dq_addafter p n s"
| "dq_step (AddBefore p n) s = dq_addbefore p n s"
| "dq_step (Rem n) s = dq_rem n s"
| "dq_step RemFirst s = snd (dq_remfirst s)"
| "dq_step RemLast s = snd (dq_remlast s)"

lemma dq_step_refines:
  assumes "dq_rep s xs" "step_ok e xs"
  shows "dq_rep (dq_step e s) (list_step e xs)"
proof (cases e)
  case (AddAfter p n)
  with assms(2) obtain ys zs where "xs = ys @ p # zs" "p \<notin> set ys"
    by (auto dest: split_list_first)
  with assms AddAfter show ?thesis
    by (auto simp: insert_after_split intro: dq_rep_addafter)
next
  case (AddBefore p n)
  with assms(2) obtain ys zs where "xs = ys @ p # zs" "p \<notin> set ys"
    by (auto dest: split_list_first)
  with assms AddBefore show ?thesis
    by (auto simp: insert_before_split intro: dq_rep_addbefore)
next
  case (Rem n)
  with assms(2) obtain ys zs where "xs = ys @ n # zs" "n \<notin> set ys"
    by (auto dest: split_list_first)
  with assms Rem show ?thesis
    by (auto simp: remove1_append intro: dq_rep_rem)
qed (use assms dq_rep_addfirst dq_rep_addlast dq_rep_remfirst dq_rep_remlast in auto)

text \<open>
  C3. Any sequence of admissible doubly linked queue operations (insertion at either end,
  after or before a queued node, removal of any queued node and at either end) leaves
  memory representing exactly the list that the same operations give on lists, read
  forwards through \<open>flink\<close> and backwards through \<open>blink\<close>.
\<close>

theorem dq_run_refines_list:
  assumes "dq_rep s xs" "list_run_ok es xs"
  shows "dq_rep (fold dq_step es s) (fold list_step es xs)"
  using assms by (induction es arbitrary: s xs) (auto simp: dq_step_refines)

theorem dq_run_refines_list_witness:
  "dq_rep (fold dq_step [AddLast 8, AddFirst 4, AddAfter 4 16, AddBefore 8 12, Rem 16, RemLast]
     (\<lparr>flink = \<lambda>_. NULL, blink = \<lambda>_. NULL\<rparr>, dq_init)) [4, 12]"
  using dq_run_refines_list [OF dq_rep_init,
      of "[AddLast 8, AddFirst 4, AddAfter 4 16, AddBefore 8 12, Rem 16, RemLast]"
         "\<lparr>flink = \<lambda>_. NULL, blink = \<lambda>_. NULL\<rparr>"]
  by simp

text \<open>
  C4. \<open>dq_cat\<close> on two queues with no node in common empties the first and appends its
  nodes, in order, to the second; both chains of the result are well formed, and the
  number of nodes \<open>dq_count\<close> finds in the result is the sum of the two lengths.
\<close>

theorem dq_cat_appends:
  assumes "dq_rep (h, q1) xs" "dq_rep (h, q2) ys" "set xs \<inter> set ys = {}"
    and "dq_cat h q1 q2 = (h', q1', q2')"
  shows "dq_rep (h', q1') [] \<and> dq_rep (h', q2') (ys @ xs) \<and>
    dq_count (h', q2') = Some (length xs + length ys)"
proof -
  note r1 = dq_repD [OF assms(1)] and r2 = dq_repD [OF assms(2)]
  have "dq_rep (h', q1') [] \<and> dq_rep (h', q2') (ys @ xs)"
  proof (cases ys rule: rev_cases)
    case Nil
    then show ?thesis
      using assms r2 by (auto simp: dq_cat_def dq_empty_def dq_rep_init)
  next
    case (snoc zs y)
    have h: "dq_head q2 \<noteq> NULL" "dq_tail q2 = y"
      using lseg_null_iff [OF r2(1)] r2 snoc by auto
    show ?thesis
    proof (cases xs)
      case Nil
      then show ?thesis using assms h r1 by (auto simp: dq_cat_def dq_empty_def)
    next
      case (Cons x as)
      have x: "dq_head q1 = x" "x \<noteq> NULL" using r1 Cons by auto
      have "lseg ((flink h)(y := x)) (dq_head q2) (zs @ y # xs) NULL"
        using lseg_join [of "flink h" "dq_head q2" zs y x xs] r1 r2 snoc Cons assms(3) by auto
      moreover have "lseg ((blink h)(x := y)) (dq_tail q1) (rev as @ x # rev ys) NULL"
        using lseg_join [of "blink h" "dq_tail q1" "rev as" x y "rev ys"] r1 r2 h snoc Cons assms(3)
        by auto
      ultimately show ?thesis
        using assms(4) h x snoc Cons
        by (auto simp: dq_cat_def dq_empty_def dq_init_def dq_rep_def Let_def)
    qed
  qed
  then show ?thesis using dq_rep_count [of "(h', q2')"] by auto
qed

theorem dq_cat_appends_witness:
  "dq_rep (fst (dq_cat (fst (dq_addlast 8 (dq_addlast 4 (\<lparr>flink = \<lambda>_. NULL, blink = \<lambda>_. NULL\<rparr>, dq_init))))
       \<lparr>dq_head = 4, dq_tail = 8\<rparr> dq_init), dq_init) [] \<and>
   dq_count (fst (dq_cat (fst (dq_addlast 8 (dq_addlast 4 (\<lparr>flink = \<lambda>_. NULL, blink = \<lambda>_. NULL\<rparr>, dq_init))))
       \<lparr>dq_head = 4, dq_tail = 8\<rparr> dq_init), \<lparr>dq_head = 4, dq_tail = 8\<rparr>) = Some 2"
proof -
  let ?h = "fst (dq_addlast 8 (dq_addlast 4 (\<lparr>flink = \<lambda>_. NULL, blink = \<lambda>_. NULL\<rparr>, dq_init)))"
  let ?q = "\<lparr>dq_head = 4, dq_tail = 8\<rparr>"
  have 1: "dq_rep (?h, ?q) [4, 8]"
    by (simp add: dq_rep_def dq_addlast_def dq_init_def Let_def)
  have 2: "dq_cat ?h ?q dq_init = (?h, dq_init, ?q)"
    by (simp add: dq_cat_def dq_empty_def dq_init_def)
  from dq_cat_appends [OF 1 dq_rep_init _ 2] 2 show ?thesis by simp
qed

end
