(* ===== verification/Circbuf.thy ===== *)
theory Circbuf
  imports Prelude
begin

text \<open>
  The circular byte buffer of \<open>mm/circbuf/circbuf.c\<close>. \<open>size_t\<close> is 32 bits wide: the free
  running \<open>head\<close> and \<open>tail\<close> counters are 32-bit words, so their differences and increments
  wrap as in the code. The memory \<open>base\<close> points to is a byte list (no list for \<open>NULL\<close>),
  and the block \<open>kmm_malloc\<close> returns, if any, is an argument of the operations that
  allocate. \<open>circ_contents\<close> is the byte sequence a buffer holds; the operations are shown
  to be those of a bounded first-in first-out queue as long as the counters do not wrap
  or the size divides \<open>2 ^ 32\<close>, and to lose the order otherwise.
\<close>

section \<open>The operations\<close>

type_synonym size_t = "32 word"

record circbuf_s =
  cb_base :: "byte list option"
  cb_size :: size_t
  cb_head :: size_t
  cb_tail :: size_t
  cb_external :: bool

abbreviation cb_mem :: "circbuf_s \<Rightarrow> byte list" where
  "cb_mem circ \<equiv> (case cb_base circ of None \<Rightarrow> [] | Some b \<Rightarrow> b)"

definition circbuf_init ::
  "circbuf_s \<Rightarrow> byte list option \<Rightarrow> size_t \<Rightarrow> byte list option \<Rightarrow> int \<times> circbuf_s" where
  "circbuf_init circ base bytes malloced =
     (let circ = circ\<lparr>cb_external := (base \<noteq> None)\<rparr>
      in if base = None \<and> bytes \<noteq> 0 \<and> malloced = None then (- ENOMEM, circ)
         else (0, circ\<lparr>cb_base := (if base = None \<and> bytes \<noteq> 0 then malloced else base),
                       cb_size := bytes, cb_head := 0, cb_tail := 0\<rparr>))"

definition circbuf_reset :: "circbuf_s \<Rightarrow> circbuf_s" where
  "circbuf_reset circ = circ\<lparr>cb_tail := 0, cb_head := 0\<rparr>"

text \<open>\<open>memset(circ, 0, sizeof( *circ))\<close>; the flag tells whether \<open>base\<close> was given back to the heap.\<close>

definition circbuf_uninit :: "circbuf_s \<Rightarrow> bool \<times> circbuf_s" where
  "circbuf_uninit circ =
     (\<not> cb_external circ,
      \<lparr>cb_base = None, cb_size = 0, cb_head = 0, cb_tail = 0, cb_external = False\<rparr>)"

definition circbuf_size :: "circbuf_s \<Rightarrow> size_t" where
  "circbuf_size circ = cb_size circ"

definition circbuf_used :: "circbuf_s \<Rightarrow> size_t" where
  "circbuf_used circ = cb_head circ - cb_tail circ"

definition circbuf_space :: "circbuf_s \<Rightarrow> size_t" where
  "circbuf_space circ = circbuf_size circ - circbuf_used circ"

definition circbuf_is_empty :: "circbuf_s \<Rightarrow> bool" where
  "circbuf_is_empty circ \<longleftrightarrow> circbuf_used circ = 0"

definition circbuf_is_full :: "circbuf_s \<Rightarrow> bool" where
  "circbuf_is_full circ \<longleftrightarrow> circbuf_space circ = 0"

text \<open>The second component is what the two \<open>memcpy\<close> calls store at \<open>dst\<close>.\<close>

definition circbuf_peek :: "circbuf_s \<Rightarrow> size_t \<Rightarrow> size_t \<times> byte list" where
  "circbuf_peek circ bytes =
     (if cb_size circ = 0 then (0, [])
      else let len = circbuf_used circ;
               off = cb_tail circ mod cb_size circ;
               bytes = (if bytes > len then len else bytes);
               len = cb_size circ - off;
               len = (if bytes < len then bytes else len)
           in (bytes, take (unat len) (drop (unat off) (cb_mem circ)) @
                      take (unat (bytes - len)) (cb_mem circ)))"

definition circbuf_read :: "circbuf_s \<Rightarrow> size_t \<Rightarrow> size_t \<times> byte list \<times> circbuf_s" where
  "circbuf_read circ bytes =
     (let (bytes, dst) = circbuf_peek circ bytes
      in (bytes, dst, circ\<lparr>cb_tail := cb_tail circ + bytes\<rparr>))"

definition circbuf_skip :: "circbuf_s \<Rightarrow> size_t \<Rightarrow> size_t \<times> circbuf_s" where
  "circbuf_skip circ bytes =
     (let len = circbuf_used circ;
          bytes = (if bytes > len then len else bytes)
      in (bytes, circ\<lparr>cb_tail := cb_tail circ + bytes\<rparr>))"

definition circbuf_resize ::
  "circbuf_s \<Rightarrow> size_t \<Rightarrow> byte list option \<Rightarrow> int \<times> circbuf_s" where
  "circbuf_resize circ bytes malloced =
     (if bytes = 0
      then (0, circ\<lparr>cb_base := None, cb_size := bytes, cb_head := 0, cb_tail := 0\<rparr>)
      else case malloced of
        None \<Rightarrow> (- ENOMEM, circ)
      | Some tmp \<Rightarrow>
          let len = circbuf_used circ;
              (circ, len) = (if bytes < len then (snd (circbuf_skip circ (len - bytes)), bytes)
                             else (circ, len));
              (_, dst, circ) = circbuf_read circ len
          in (0, circ\<lparr>cb_base := Some (blit tmp 0 dst), cb_size := bytes,
                      cb_head := len, cb_tail := 0\<rparr>))"

definition circbuf_write :: "circbuf_s \<Rightarrow> byte list \<Rightarrow> size_t \<Rightarrow> size_t \<times> circbuf_s" where
  "circbuf_write circ src bytes =
     (if cb_size circ = 0 then (0, circ)
      else let space = circbuf_space circ;
               off = cb_head circ mod cb_size circ;
               bytes = (if bytes > space then space else bytes);
               space = cb_size circ - off;
               space = (if bytes < space then bytes else space);
               mem = blit (cb_mem circ) (unat off) (take (unat space) src);
               mem = blit mem 0 (take (unat (bytes - space)) (drop (unat space) src))
           in (bytes, circ\<lparr>cb_base := Some mem, cb_head := cb_head circ + bytes\<rparr>))"

definition circbuf_overwrite :: "circbuf_s \<Rightarrow> byte list \<Rightarrow> size_t \<Rightarrow> size_t \<times> circbuf_s" where
  "circbuf_overwrite circ src bytes =
     (if cb_size circ = 0 then (0, circ)
      else let (src, bytes) = (if bytes > cb_size circ
                               then (drop (unat (bytes - cb_size circ)) src, cb_size circ)
                               else (src, bytes));
               space = circbuf_space circ;
               overwrite = (if bytes > space then bytes - space else 0);
               off = cb_head circ mod cb_size circ;
               space = cb_size circ - off;
               space = (if bytes < space then bytes else space);
               mem = blit (cb_mem circ) (unat off) (take (unat space) src);
               mem = blit mem 0 (take (unat (bytes - space)) (drop (unat space) src))
           in (overwrite, circ\<lparr>cb_base := Some mem, cb_head := cb_head circ + bytes,
                               cb_tail := cb_tail circ + overwrite\<rparr>))"

section \<open>The bytes a buffer holds\<close>

definition ring :: "byte list \<Rightarrow> nat \<Rightarrow> nat \<Rightarrow> byte list" where
  "ring mem pos n = map (\<lambda>i. mem ! ((pos + i) mod length mem)) [0..<n]"

definition circ_contents :: "circbuf_s \<Rightarrow> byte list" where
  "circ_contents circ = ring (cb_mem circ) (unat (cb_tail circ)) (unat (circbuf_used circ))"

text \<open>The block has the size the structure says and holds at most that many bytes.\<close>

definition circ_wf :: "circbuf_s \<Rightarrow> bool" where
  "circ_wf circ \<longleftrightarrow> length (cb_mem circ) = unat (cb_size circ) \<and>
     unat (circbuf_used circ) \<le> unat (cb_size circ)"

text \<open>
  Appending \<open>n\<close> more bytes is safe when the size divides the range of the counters or the
  counters stay below their range.
\<close>

definition circ_room :: "circbuf_s \<Rightarrow> nat \<Rightarrow> bool" where
  "circ_room circ n \<longleftrightarrow> unat (cb_size circ) dvd 2 ^ 32 \<or>
     unat (cb_tail circ) + unat (circbuf_used circ) + n < 2 ^ 32"

lemma length_ring [simp]: "length (ring mem pos n) = n"
  by (simp add: ring_def)

lemma length_circ_contents [simp]: "length (circ_contents circ) = unat (circbuf_used circ)"
  by (simp add: circ_contents_def)

lemma nth_ring: "i < n \<Longrightarrow> ring mem pos n ! i = mem ! ((pos + i) mod length mem)"
  by (simp add: ring_def)

lemma ring_pos_mod: "ring mem (pos mod length mem) n = ring mem pos n"
  by (simp add: ring_def mod_simps)

lemma ring_take: "take m (ring mem pos n) = ring mem pos (min m n)"
  by (cases "m \<le> n") (simp_all add: ring_def take_map)

lemma ring_drop: "drop m (ring mem pos n) = ring mem (pos + m) (n - m)"
proof (rule nth_equalityI)
  fix i assume "i < length (drop m (ring mem pos n))"
  then show "drop m (ring mem pos n) ! i = ring mem (pos + m) (n - m) ! i"
    by (simp add: nth_ring add.assoc)
qed simp

text \<open>The two block copies of \<open>circbuf_peek\<close> read a ring slice.\<close>

lemma ring_copy_out:
  assumes "off < length mem" "n \<le> length mem"
  shows "take (min n (length mem - off)) (drop off mem) @ take (n - min n (length mem - off)) mem
    = ring mem off n"
proof (rule nth_equalityI)
  show "length (take (min n (length mem - off)) (drop off mem) @
      take (n - min n (length mem - off)) mem) = length (ring mem off n)"
    using assms by simp
next
  fix i
  let ?k = "min n (length mem - off)"
  assume "i < length (take ?k (drop off mem) @ take (n - ?k) mem)"
  then have i: "i < n" using assms by simp
  show "(take ?k (drop off mem) @ take (n - ?k) mem) ! i = ring mem off n ! i"
  proof (cases "i < length mem - off")
    case True
    with i assms show ?thesis by (simp add: nth_append nth_ring)
  next
    case False
    then have "?k = length mem - off" "(off + i) mod length mem = i - (length mem - off)"
      using i assms by (auto simp: mod_wrap_once)
    with False i assms show ?thesis by (simp add: nth_append nth_ring)
  qed
qed

text \<open>The two block copies of \<open>circbuf_write\<close> store a ring slice.\<close>

definition ring_store :: "byte list \<Rightarrow> nat \<Rightarrow> byte list \<Rightarrow> byte list" where
  "ring_store mem off src =
     (let k = min (length src) (length mem - off)
      in blit (blit mem off (take k src)) 0 (drop k src))"

lemma length_ring_store [simp]:
  assumes "off < length mem" "length src \<le> length mem"
  shows "length (ring_store mem off src) = length mem"
  using assms by (simp add: ring_store_def Let_def)

lemma nth_ring_store:
  assumes "off < length mem" "length src \<le> length mem" "j < length mem"
  shows "ring_store mem off src ! j =
    (if (j + length mem - off) mod length mem < length src
     then src ! ((j + length mem - off) mod length mem) else mem ! j)"
proof -
  let ?k = "min (length src) (length mem - off)"
  let ?m1 = "blit mem off (take ?k src)"
  have m1: "length ?m1 = length mem" using assms by simp
  have "ring_store mem off src ! j =
      (if j < length src - ?k then src ! (?k + j) else ?m1 ! j)"
    using assms m1 by (auto simp: ring_store_def Let_def nth_blit min_def)
  moreover have "?m1 ! j = (if off \<le> j \<and> j < off + ?k then src ! (j - off) else mem ! j)"
    using assms by (auto simp: nth_blit min_def split: if_splits)
  moreover have "(j + length mem - off) mod length mem =
      (if off \<le> j then j - off else j + length mem - off)"
    using assms by (auto simp: mod_wrap_once)
  ultimately show ?thesis
    using assms by (auto simp: min_def add.commute split: if_splits)
qed

lemma ring_after_store:
  assumes "length mem = s" "0 < s" "u + length src \<le> s" "off = (t + u) mod s"
  shows "ring (ring_store mem off src) t (u + length src) = ring mem t u @ src"
proof (rule nth_equalityI)
  fix i assume "i < length (ring (ring_store mem off src) t (u + length src))"
  then have i: "i < u + length src" by simp
  let ?j = "(t + i) mod s"
  have off: "off < s" using assms by simp
  have j: "?j < s" using assms(2) by simp
  have key: "(?j + s - off) mod s = (if i < u then i + s - u else i - u)"
  proof (cases "i < u")
    case True
    then have "off = (?j + (u - i)) mod s" using assms(4) mod_add_left_eq [of "t + i" s "u - i"] by simp
    also have "\<dots> = (if ?j + (u - i) < s then ?j + (u - i) else ?j + (u - i) - s)"
      using j True assms(3) by (intro mod_wrap_once) linarith
    finally show ?thesis
      using j True assms(2,3) by (auto simp: mod_wrap_once split: if_splits)
  next
    case False
    then have "?j = (off + (i - u)) mod s" using assms(4) mod_add_left_eq [of "t + u" s "i - u"] by simp
    also have "\<dots> = (if off + (i - u) < s then off + (i - u) else off + (i - u) - s)"
      using off i False assms(3) by (intro mod_wrap_once) linarith
    finally show ?thesis
      using off i False assms(2,3) by (auto simp: mod_wrap_once split: if_splits)
  qed
  have "ring_store mem off src ! ?j = (if i < u then mem ! ?j else src ! (i - u))"
    using nth_ring_store [of off mem src ?j] key i off assms by auto
  moreover have "length (ring_store mem off src) = s" using off assms by simp
  ultimately show "ring (ring_store mem off src) t (u + length src) ! i = (ring mem t u @ src) ! i"
    using i assms by (simp add: nth_ring nth_append)
qed simp

section \<open>The operations on the bytes held\<close>

lemma ring_counter:
  "length mem dvd 2 ^ 32 \<or> p < 2 ^ 32 \<Longrightarrow> ring mem (p mod 2 ^ 32) n = ring mem p n"
  by (auto simp: ring_def mod_mod_cancel mod_simps dest: mod_mod_cancel
      intro!: arg_cong [where f = "nth mem"] mod_add_cong)

lemma unat_counter_add: "unat (x + y) = (unat x + unat y) mod 2 ^ 32" for x y :: size_t
  by (simp add: unat_word_ariths)

lemma circ_wf_offset:
  assumes "cb_size circ \<noteq> 0"
  shows "unat (x mod cb_size circ) = unat x mod unat (cb_size circ)"
    "unat (cb_size circ - x mod cb_size circ) =
     unat (cb_size circ) - unat x mod unat (cb_size circ)"
    "unat x mod unat (cb_size circ) < unat (cb_size circ)"
proof -
  show m: "unat (x mod cb_size circ) = unat x mod unat (cb_size circ)"
    by (simp add: unat_mod_distrib)
  have p: "0 < unat (cb_size circ)" using assms by (simp add: unat_gt_0)
  then show "unat x mod unat (cb_size circ) < unat (cb_size circ)" by simp
  have "x mod cb_size circ \<le> cb_size circ"
    using p by (simp add: word_le_nat_alt m less_imp_le)
  then show "unat (cb_size circ - x mod cb_size circ) =
      unat (cb_size circ) - unat x mod unat (cb_size circ)"
    by (simp add: unat_sub m)
qed

lemma unat_min_word: "unat (if a < b then a else b) = min (unat a) (unat b)" for a b :: size_t
  by (auto simp: word_less_nat_alt)

lemma circbuf_peek_contents:
  assumes "circ_wf circ"
  shows "circbuf_peek circ bytes =
    (min bytes (circbuf_used circ), take (unat bytes) (circ_contents circ))"
proof (cases "cb_size circ = 0")
  case True
  with assms have "circbuf_used circ = 0" by (simp add: circ_wf_def unat_eq_0)
  with True show ?thesis
    by (simp add: circbuf_peek_def circ_contents_def ring_def min_def)
next
  case False
  let ?n = "min bytes (circbuf_used circ)" and ?off = "cb_tail circ mod cb_size circ"
  let ?len = "if ?n < cb_size circ - ?off then ?n else cb_size circ - ?off"
  note off = circ_wf_offset [OF False, of "cb_tail circ"]
  have n: "(if bytes > circbuf_used circ then circbuf_used circ else bytes) = ?n"
    by (auto simp: min_def)
  have s: "length (cb_mem circ) = unat (cb_size circ)" using assms by (simp add: circ_wf_def)
  have un: "unat ?n = min (unat bytes) (unat (circbuf_used circ))"
    by (auto simp: min_def word_le_nat_alt)
  have len: "unat ?len = min (unat ?n) (length (cb_mem circ) - unat ?off)"
    using off s by (simp add: unat_min_word)
  have "?len \<le> ?n" by (simp add: word_le_nat_alt len)
  then have diff: "unat (?n - ?len) = unat ?n - unat ?len" by (simp add: unat_sub)
  have bnd: "unat ?off < length (cb_mem circ)" "unat ?n \<le> length (cb_mem circ)"
    using off s un assms by (auto simp: circ_wf_def)
  have "take (unat ?len) (drop (unat ?off) (cb_mem circ)) @
      take (unat (?n - ?len)) (cb_mem circ) = ring (cb_mem circ) (unat ?off) (unat ?n)"
    unfolding diff len by (rule ring_copy_out [OF bnd])
  also have "\<dots> = ring (cb_mem circ) (unat (cb_tail circ)) (unat ?n)"
    using off(1) s ring_pos_mod [of "cb_mem circ" "unat (cb_tail circ)"] by simp
  also have "\<dots> = take (unat bytes) (circ_contents circ)"
    by (simp only: circ_contents_def un ring_take)
  finally show ?thesis
    using False by (simp only: circbuf_peek_def n Let_def if_False)
qed

text \<open>What holds of the counters after the tail has advanced by \<open>n\<close> held bytes.\<close>

lemma circ_advance_tail:
  assumes "circ_wf circ" "circ_room circ 0" "n \<le> circbuf_used circ"
  defines "circ' \<equiv> circ\<lparr>cb_tail := cb_tail circ + n\<rparr>"
  shows "circ_contents circ' = drop (unat n) (circ_contents circ)" "circ_wf circ'"
    "circ_room circ' 0"
proof -
  let ?t = "unat (cb_tail circ)" and ?u = "unat (circbuf_used circ)"
  have n: "unat n \<le> ?u" using assms(3) by (simp add: word_le_nat_alt)
  have used: "circbuf_used circ' = circbuf_used circ - n"
    by (simp add: circbuf_used_def circ'_def)
  then have u: "unat (circbuf_used circ') = ?u - unat n"
    using assms(3) by (simp add: unat_sub)
  have len: "length (cb_mem circ) = unat (cb_size circ)" using assms(1) by (simp add: circ_wf_def)
  have "ring (cb_mem circ) ((?t + unat n) mod 2 ^ 32) (?u - unat n) =
      ring (cb_mem circ) (?t + unat n) (?u - unat n)"
    using assms(2) n len by (intro ring_counter) (auto simp: circ_room_def)
  then show "circ_contents circ' = drop (unat n) (circ_contents circ)"
    by (simp add: circ_contents_def u ring_drop) (simp add: circ'_def unat_counter_add)
  show "circ_wf circ'" using assms(1) u by (auto simp: circ_wf_def circ'_def)
  show "circ_room circ' 0"
    using assms(2) u n by (auto simp: circ_room_def circ'_def unat_counter_add)
qed

lemma circbuf_read_contents:
  assumes "circ_wf circ" "circ_room circ 0" "circbuf_read circ bytes = (ret, dst, circ')"
  shows "ret = min bytes (circbuf_used circ)" "dst = take (unat bytes) (circ_contents circ)"
    "circ_contents circ' = drop (unat bytes) (circ_contents circ)" "circ_wf circ'"
    "circ_room circ' 0"
proof -
  let ?n = "min bytes (circbuf_used circ)"
  have r: "ret = ?n" "dst = take (unat bytes) (circ_contents circ)"
      "circ' = circ\<lparr>cb_tail := cb_tail circ + ?n\<rparr>"
    using assms(3) circbuf_peek_contents [OF assms(1), of bytes]
    by (auto simp: circbuf_read_def)
  then show "ret = ?n" "dst = take (unat bytes) (circ_contents circ)" by auto
  have "drop (unat ?n) (circ_contents circ) = drop (unat bytes) (circ_contents circ)"
    by (auto simp: min_def word_le_nat_alt)
  with circ_advance_tail [OF assms(1,2), of ?n] r(3)
  show "circ_contents circ' = drop (unat bytes) (circ_contents circ)" "circ_wf circ'"
    "circ_room circ' 0" by auto
qed

lemma circbuf_skip_contents:
  assumes "circ_wf circ" "circ_room circ 0" "circbuf_skip circ bytes = (ret, circ')"
  shows "ret = min bytes (circbuf_used circ)"
    "circ_contents circ' = drop (unat bytes) (circ_contents circ)" "circ_wf circ'"
    "circ_room circ' 0"
proof -
  let ?n = "min bytes (circbuf_used circ)"
  have r: "ret = ?n" "circ' = circ\<lparr>cb_tail := cb_tail circ + ?n\<rparr>"
    using assms(3) by (auto simp: circbuf_skip_def min_def Let_def split: if_splits)
  then show "ret = ?n" by auto
  have "drop (unat ?n) (circ_contents circ) = drop (unat bytes) (circ_contents circ)"
    by (auto simp: min_def word_le_nat_alt)
  with circ_advance_tail [OF assms(1,2), of ?n] r(2)
  show "circ_contents circ' = drop (unat bytes) (circ_contents circ)" "circ_wf circ'"
    "circ_room circ' 0" by auto
qed

text \<open>The block copies shared by \<open>circbuf_write\<close> and \<open>circbuf_overwrite\<close>.\<close>

lemma circ_store_ring:
  assumes "cb_size circ \<noteq> 0" "length mem = unat (cb_size circ)" "unat b \<le> length src"
  defines "off \<equiv> cb_head circ mod cb_size circ"
  defines "space \<equiv> if b < cb_size circ - off then b else cb_size circ - off"
  shows "blit (blit mem (unat off) (take (unat space) src)) 0
      (take (unat (b - space)) (drop (unat space) src)) =
    ring_store mem (unat (cb_head circ) mod unat (cb_size circ)) (take (unat b) src)"
proof -
  note o = circ_wf_offset [OF assms(1), of "cb_head circ"]
  let ?k = "min (unat b) (length mem - unat off)"
  have sp: "unat space = ?k"
    unfolding space_def unat_min_word using o assms(2) by (simp add: off_def)
  have "space \<le> b" by (auto simp: space_def)
  then have d: "unat (b - space) = unat b - ?k" by (simp add: unat_sub sp)
  have "take ?k (take (unat b) src) = take ?k src"
    "drop ?k (take (unat b) src) = take (unat b - ?k) (drop ?k src)"
    by (simp_all add: drop_take)
  moreover have "unat off = unat (cb_head circ) mod unat (cb_size circ)"
    using o by (simp add: off_def)
  ultimately show ?thesis
    using assms(3) by (simp add: sp d ring_store_def Let_def min_absorb2)
qed

text \<open>
  Appending \<open>b\<close> bytes after dropping the \<open>ow\<close> oldest: the shape of both writes, with
  \<open>ow = 0\<close> in \<open>circbuf_write\<close>.
\<close>

lemma circ_append:
  assumes wf: "circ_wf circ" and nz: "cb_size circ \<noteq> 0" and room: "circ_room circ (unat b)"
    and src: "length src = unat b"
    and ow: "unat ow \<le> unat (circbuf_used circ)"
    and fit: "unat (circbuf_used circ) - unat ow + unat b \<le> unat (cb_size circ)"
    and c': "circ' = circ\<lparr>cb_base := Some (ring_store (cb_mem circ)
               (unat (cb_head circ) mod unat (cb_size circ)) src),
             cb_head := cb_head circ + b, cb_tail := cb_tail circ + ow\<rparr>"
  shows "circ_contents circ' = drop (unat ow) (circ_contents circ) @ src" "circ_wf circ'"
    "circ_room circ' 0"
proof -
  let ?t = "unat (cb_tail circ)" and ?u = "unat (circbuf_used circ)"
  let ?s = "unat (cb_size circ)" and ?N = "2 ^ 32 :: nat"
  let ?off = "unat (cb_head circ) mod ?s"
  let ?mem = "ring_store (cb_mem circ) ?off src"
  have len: "length (cb_mem circ) = ?s" using wf by (simp add: circ_wf_def)
  have pos: "0 < ?s" using nz by (simp add: unat_gt_0)
  have ub: "?u \<le> ?s" "?s < ?N" using wf unsigned_less [of "cb_size circ"] by (auto simp: circ_wf_def)
  have head: "cb_head circ = cb_tail circ + circbuf_used circ" by (simp add: circbuf_used_def)
  have "unat (cb_head circ) = (?t + ?u) mod ?N" by (simp add: head unat_counter_add)
  then have off: "?off = (?t + ?u) mod ?s"
    using room by (auto simp: circ_room_def mod_mod_cancel)
  have used: "circbuf_used circ' = circbuf_used circ - ow + b"
    by (simp add: circbuf_used_def c')
  have "unat (circbuf_used circ - ow) = ?u - unat ow"
    using ow by (intro unat_sub) (simp add: word_le_nat_alt)
  then have u': "unat (circbuf_used circ') = ?u - unat ow + unat b"
    using fit ub by (simp add: used unat_counter_add)
  have mem': "length ?mem = ?s" using src fit pos len by simp
  have t': "unat (cb_tail circ') = (?t + unat ow) mod ?N" by (simp add: c' unat_counter_add)
  have "circ_contents circ' = ring ?mem ((?t + unat ow) mod ?N) (?u - unat ow + unat b)"
    unfolding circ_contents_def u' t' by (simp add: c')
  also have "\<dots> = ring ?mem (?t + unat ow) (?u - unat ow + length src)"
    using room ow mem' src by (subst ring_counter) (auto simp: circ_room_def)
  also have "\<dots> = ring (cb_mem circ) (?t + unat ow) (?u - unat ow) @ src"
    using len pos fit src ow off by (intro ring_after_store) auto
  also have "\<dots> = drop (unat ow) (circ_contents circ) @ src"
    by (simp add: circ_contents_def ring_drop)
  finally show "circ_contents circ' = drop (unat ow) (circ_contents circ) @ src" .
  show "circ_wf circ'" using fit mem' u' by (simp add: circ_wf_def) (simp add: c')
  show "circ_room circ' 0"
    using room u' t' ow by (auto simp: circ_room_def c' dest: mod_less_eq_dividend [THEN order_trans])
qed

lemma circbuf_space_unat:
  assumes "circ_wf circ"
  shows "unat (circbuf_space circ) = unat (cb_size circ) - unat (circbuf_used circ)"
  using assms by (simp add: circbuf_space_def circbuf_size_def circ_wf_def unat_sub word_le_nat_alt)

lemma circbuf_write_contents:
  assumes wf: "circ_wf circ" and room: "circ_room circ (length src)"
    and src: "length src = unat bytes" and w: "circbuf_write circ src bytes = (ret, circ')"
  defines "n \<equiv> min (length src) (unat (cb_size circ) - unat (circbuf_used circ))"
  shows "unat ret = n" "circ_contents circ' = circ_contents circ @ take n src" "circ_wf circ'"
    "circ_room circ' 0" "cb_size circ' = cb_size circ"
proof -
  have "unat ret = n \<and> circ_contents circ' = circ_contents circ @ take n src \<and> circ_wf circ' \<and>
      circ_room circ' 0 \<and> cb_size circ' = cb_size circ"
  proof (cases "cb_size circ = 0")
    case True
    moreover have "n = 0" using True wf by (simp add: n_def circ_wf_def)
    ultimately show ?thesis using w wf room by (auto simp: circbuf_write_def circ_room_def)
  next
    case False
    let ?b = "if bytes > circbuf_space circ then circbuf_space circ else bytes"
    have b: "unat ?b = n"
      using src by (auto simp: n_def circbuf_space_unat [OF wf, symmetric] word_less_nat_alt)
    have len: "length (cb_mem circ) = unat (cb_size circ)" using wf by (simp add: circ_wf_def)
    have bsrc: "unat ?b \<le> length src" using b by (simp add: n_def)
    have c': "ret = ?b" "circ' = circ\<lparr>cb_base := Some (ring_store (cb_mem circ)
          (unat (cb_head circ) mod unat (cb_size circ)) (take (unat ?b) src)),
        cb_head := cb_head circ + ?b, cb_tail := cb_tail circ + 0\<rparr>"
      using w [symmetric] circ_store_ring [OF False len bsrc]
      by (simp_all add: circbuf_write_def False Let_def del: if_split_asm)
    have "circ_room circ (unat ?b)"
      using room bsrc by (auto simp: circ_room_def)
    moreover have "length (take (unat ?b) src) = unat ?b" using bsrc by simp
    moreover have "unat (circbuf_used circ) - unat (0::size_t) + unat ?b \<le> unat (cb_size circ)"
      using wf by (auto simp: b n_def circ_wf_def min_def)
    ultimately have "circ_contents circ' = drop (unat (0::size_t)) (circ_contents circ) @ take (unat ?b) src"
      "circ_wf circ'" "circ_room circ' 0"
      using circ_append [OF wf False _ _ _ _ c'(2)] by auto
    then show ?thesis using c' b by simp
  qed
  then show "unat ret = n" "circ_contents circ' = circ_contents circ @ take n src" "circ_wf circ'"
    "circ_room circ' 0" "cb_size circ' = cb_size circ" by auto
qed

lemma circbuf_overwrite_contents:
  assumes wf: "circ_wf circ" and room: "circ_room circ (min (length src) (unat (cb_size circ)))"
    and src: "length src = unat bytes" and w: "circbuf_overwrite circ src bytes = (ret, circ')"
  defines "new \<equiv> drop (length src - unat (cb_size circ)) src"
  defines "n \<equiv> unat (circbuf_used circ) + length new - unat (cb_size circ)"
  shows "unat ret = n" "circ_contents circ' = drop n (circ_contents circ) @ new" "circ_wf circ'"
    "circ_room circ' 0" "cb_size circ' = cb_size circ"
proof -
  have "unat ret = n \<and> circ_contents circ' = drop n (circ_contents circ) @ new \<and> circ_wf circ' \<and>
      circ_room circ' 0 \<and> cb_size circ' = cb_size circ"
  proof (cases "cb_size circ = 0")
    case True
    moreover have "n = 0" "new = []" using True wf by (simp_all add: n_def new_def circ_wf_def)
    ultimately show ?thesis using w wf room by (auto simp: circbuf_overwrite_def)
  next
    case False
    define b where "b = (if bytes > cb_size circ then cb_size circ else bytes)"
    define ow where "ow = (if b > circbuf_space circ then b - circbuf_space circ else 0)"
    have sz: "unat b = min (length src) (unat (cb_size circ))"
      using src by (auto simp: b_def word_less_nat_alt)
    have new: "length new = unat b" by (simp add: new_def sz)
    have sb: "(if bytes > cb_size circ then (drop (unat (bytes - cb_size circ)) src, cb_size circ)
        else (src, bytes)) = (new, b)"
      using src by (auto simp: new_def b_def unat_sub word_less_nat_alt word_le_nat_alt)
    note sp = circbuf_space_unat [OF wf]
    have used: "unat (circbuf_used circ) \<le> unat (cb_size circ)" using wf by (simp add: circ_wf_def)
    have ow: "unat ow = n"
      using sp new used by (auto simp: ow_def n_def unat_sub word_less_nat_alt word_le_nat_alt)
    have len: "length (cb_mem circ) = unat (cb_size circ)" using wf by (simp add: circ_wf_def)
    have bsrc: "unat b \<le> length new" using new by simp
    have c': "ret = ow" "circ' = circ\<lparr>cb_base := Some (ring_store (cb_mem circ)
          (unat (cb_head circ) mod unat (cb_size circ)) (take (unat b) new)),
        cb_head := cb_head circ + b, cb_tail := cb_tail circ + ow\<rparr>"
      using w [symmetric] circ_store_ring [OF False len bsrc]
      by (simp_all add: circbuf_overwrite_def False sb ow_def [symmetric] Let_def del: if_split_asm)
    have "circ_room circ (unat b)" using room sz by simp
    moreover have "length (take (unat b) new) = unat b" using new by simp
    moreover have "unat ow \<le> unat (circbuf_used circ)"
      using sz new by (simp add: ow n_def)
    moreover have "unat (circbuf_used circ) - unat ow + unat b \<le> unat (cb_size circ)"
      using sz new used by (simp add: ow n_def)
    ultimately have "circ_contents circ' = drop (unat ow) (circ_contents circ) @ take (unat b) new"
      "circ_wf circ'" "circ_room circ' 0"
      using circ_append [OF wf False _ _ _ _ c'(2)] by auto
    then show ?thesis using c' ow new by simp
  qed
  then show "unat ret = n" "circ_contents circ' = drop n (circ_contents circ) @ new" "circ_wf circ'"
    "circ_room circ' 0" "cb_size circ' = cb_size circ" by auto
qed

section \<open>Properties\<close>

text \<open>
  The abstract buffer: a byte list of bounded length. A step gives the returned count,
  the bytes delivered to the caller and the bytes held afterwards.
\<close>

datatype circ_op = Write "byte list" | Overwrite "byte list" | Read nat | Skip nat | Reset

fun fifo_step :: "nat \<Rightarrow> circ_op \<Rightarrow> byte list \<Rightarrow> nat \<times> byte list \<times> byte list" where
  "fifo_step cap (Write src) xs =
     (let n = min (length src) (cap - length xs) in (n, [], xs @ take n src))"
| "fifo_step cap (Overwrite src) xs =
     (let new = drop (length src - cap) src; n = length xs + length new - cap
      in (n, [], drop n xs @ new))"
| "fifo_step cap (Read k) xs = (min k (length xs), take k xs, drop k xs)"
| "fifo_step cap (Skip k) xs = (min k (length xs), [], drop k xs)"
| "fifo_step cap Reset xs = (0, [], [])"

fun circ_step :: "circ_op \<Rightarrow> circbuf_s \<Rightarrow> nat \<times> byte list \<times> circbuf_s" where
  "circ_step (Write src) circ =
     (let (n, circ') = circbuf_write circ src (of_nat (length src)) in (unat n, [], circ'))"
| "circ_step (Overwrite src) circ =
     (let (n, circ') = circbuf_overwrite circ src (of_nat (length src)) in (unat n, [], circ'))"
| "circ_step (Read k) circ =
     (let (n, dst, circ') = circbuf_read circ (of_nat k) in (unat n, dst, circ'))"
| "circ_step (Skip k) circ =
     (let (n, circ') = circbuf_skip circ (of_nat k) in (unat n, [], circ'))"
| "circ_step Reset circ = (0, [], circbuf_reset circ)"

fun op_in_range :: "circ_op \<Rightarrow> bool" where
  "op_in_range (Write src) \<longleftrightarrow> length src < 2 ^ 32"
| "op_in_range (Overwrite src) \<longleftrightarrow> length src < 2 ^ 32"
| "op_in_range (Read k) \<longleftrightarrow> k < 2 ^ 32"
| "op_in_range (Skip k) \<longleftrightarrow> k < 2 ^ 32"
| "op_in_range Reset \<longleftrightarrow> True"

text \<open>A run collects what every call returned and delivered.\<close>

fun run_ops :: "('op \<Rightarrow> 's \<Rightarrow> nat \<times> byte list \<times> 's) \<Rightarrow> 'op list \<Rightarrow> 's \<Rightarrow> (nat \<times> byte list) list \<times> 's" where
  "run_ops step [] s = ([], s)"
| "run_ops step (e # es) s =
     (let (n, out, s1) = step e s; (outs, s2) = run_ops step es s1 in ((n, out) # outs, s2))"

lemma unat_of_nat_small: "k < 2 ^ 32 \<Longrightarrow> unat (of_nat k :: size_t) = k"
  by (simp add: unat_of_nat)

lemma unat_min_size: "unat (min a b) = min (unat a) (unat b)" for a b :: size_t
  by (auto simp: min_def word_le_nat_alt)

lemma circ_step_refines:
  assumes wf: "circ_wf circ" and dvd: "unat (cb_size circ) dvd 2 ^ 32" and rng: "op_in_range e"
    and st: "circ_step e circ = (n, out, circ')"
  shows "fifo_step (unat (cb_size circ)) e (circ_contents circ) = (n, out, circ_contents circ') \<and>
    circ_wf circ' \<and> cb_size circ' = cb_size circ"
proof -
  have room: "circ_room circ k" for k using dvd by (simp add: circ_room_def)
  show ?thesis
  proof (cases e)
    case (Write src)
    then obtain m where m: "circbuf_write circ src (of_nat (length src)) = (m, circ')"
      "n = unat m" "out = []" using st by (auto split: prod.splits)
    have "length src = unat (of_nat (length src) :: size_t)" using Write rng by (simp add: unat_of_nat_small)
    from circbuf_write_contents [OF wf room this m(1)] m Write show ?thesis by (simp add: Let_def)
  next
    case (Overwrite src)
    then obtain m where m: "circbuf_overwrite circ src (of_nat (length src)) = (m, circ')"
      "n = unat m" "out = []" using st by (auto split: prod.splits)
    have "length src = unat (of_nat (length src) :: size_t)"
      using Overwrite rng by (simp add: unat_of_nat_small)
    from circbuf_overwrite_contents [OF wf room this m(1)] m Overwrite show ?thesis
      by (simp add: Let_def)
  next
    case (Read k)
    then obtain m where m: "circbuf_read circ (of_nat k) = (m, out, circ')" "n = unat m"
      using st by (auto split: prod.splits)
    then have "cb_size circ' = cb_size circ" by (auto simp: circbuf_read_def split: prod.splits)
    with circbuf_read_contents [OF wf room m(1)] m Read rng show ?thesis
      by (simp add: unat_of_nat_small unat_min_size)
  next
    case (Skip k)
    then obtain m where m: "circbuf_skip circ (of_nat k) = (m, circ')" "n = unat m" "out = []"
      using st by (auto split: prod.splits)
    then have "cb_size circ' = cb_size circ" by (auto simp: circbuf_skip_def Let_def)
    with circbuf_skip_contents [OF wf room m(1)] m Skip rng show ?thesis
      by (simp add: unat_of_nat_small unat_min_size)
  next
    case Reset
    with st wf show ?thesis
      by (auto simp: circbuf_reset_def circ_contents_def circbuf_used_def ring_def circ_wf_def)
  qed
qed

lemma circ_run_fifo:
  assumes "circ_wf circ" "unat (cb_size circ) dvd 2 ^ 32" "list_all op_in_range es"
    "run_ops circ_step es circ = (outs, circ')"
  shows "run_ops (fifo_step (unat (cb_size circ))) es (circ_contents circ) =
      (outs, circ_contents circ') \<and> circ_wf circ'"
  using assms
proof (induction es arbitrary: circ outs)
  case (Cons e es)
  obtain n out c1 where s: "circ_step e circ = (n, out, c1)" by (metis prod_cases3)
  obtain outs1 where r: "run_ops circ_step es c1 = (outs1, circ')" "outs = (n, out) # outs1"
    using Cons.prems(4) s by (auto split: prod.splits)
  have f: "fifo_step (unat (cb_size circ)) e (circ_contents circ) = (n, out, circ_contents c1)"
    "circ_wf c1" "cb_size c1 = cb_size circ"
    using circ_step_refines [OF Cons.prems(1,2) _ s] Cons.prems(3) by auto
  from Cons.IH [OF f(2) _ _ r(1)] f(3) Cons.prems(2,3) f(1) r(2) show ?case by simp
qed simp

lemma circbuf_init_empty:
  assumes "circbuf_init c base bytes malloced = (0, circ)"
    "\<And>b. base = Some b \<Longrightarrow> length b = unat bytes"
    "\<And>b. malloced = Some b \<Longrightarrow> length b = unat bytes"
    "base = None \<longrightarrow> malloced \<noteq> None \<or> bytes = 0"
  shows "circ_wf circ" "circ_contents circ = []" "cb_size circ = bytes"
proof -
  have "circ = c\<lparr>cb_external := base \<noteq> None,
      cb_base := if base = None \<and> bytes \<noteq> 0 then malloced else base,
      cb_size := bytes, cb_head := 0, cb_tail := 0\<rparr>"
    using assms(1) by (auto simp: circbuf_init_def Let_def ENOMEM_def split: if_splits)
  then show "circ_wf circ" "circ_contents circ = []" "cb_size circ = bytes"
    using assms(2-4) by (auto simp: circ_wf_def circ_contents_def circbuf_used_def ring_def
        split: option.splits)
qed

lemma unat_size_t_less: "unat x < 2 ^ 32" for x :: size_t
  using unsigned_less [of x, where 'a = nat] by simp

lemma circbuf_resize_contents:
  assumes wf: "circ_wf circ" and room: "circ_room circ 0" and nz: "bytes \<noteq> 0"
    and tmp: "length tmp = unat bytes"
    and r: "circbuf_resize circ bytes (Some tmp) = (ret, circ')"
  shows "ret = 0" "cb_size circ' = bytes" "circ_wf circ'" "circ_room circ' 0"
    "circ_contents circ' = drop (unat (circbuf_used circ) - unat bytes) (circ_contents circ)"
proof -
  let ?u = "circbuf_used circ"
  define c1 where "c1 = (if bytes < ?u then snd (circbuf_skip circ (?u - bytes)) else circ)"
  define len where "len = (if bytes < ?u then bytes else ?u)"
  let ?keep = "drop (unat ?u - unat bytes) (circ_contents circ)"
  have c1: "circ_contents c1 = ?keep" "circ_wf c1" "circ_room c1 0"
    using circbuf_skip_contents [OF wf room surjective_pairing, of "?u - bytes"] wf room
    by (auto simp: c1_def unat_sub word_less_nat_alt word_le_nat_alt)
  obtain m dst c2 where rd: "circbuf_read c1 len = (m, dst, c2)" by (metis prod_cases3)
  have len: "unat len = length ?keep" by (auto simp: len_def word_less_nat_alt)
  then have dst: "dst = ?keep"
    using circbuf_read_contents(2) [OF c1(2,3) rd] c1(1) by simp
  have c': "ret = 0" "circ' = c2\<lparr>cb_base := Some (blit tmp 0 dst), cb_size := bytes,
      cb_head := len, cb_tail := 0\<rparr>"
    using r nz rd by (auto simp: circbuf_resize_def c1_def len_def Let_def split: if_splits)
  have le: "unat len \<le> unat bytes" by (auto simp: len_def word_less_nat_alt)
  have mem: "length (blit tmp 0 dst) = unat bytes" using tmp le len dst by simp
  have used: "circbuf_used circ' = len" by (simp add: circbuf_used_def c')
  show "ret = 0" "cb_size circ' = bytes" by (simp_all add: c')
  show "circ_wf circ'" using mem le used by (simp add: circ_wf_def) (simp add: c')
  show "circ_room circ' 0"
    using unat_size_t_less [of len] used by (simp add: circ_room_def) (simp add: c')
  have "ring (blit tmp 0 dst) 0 (unat len) = dst"
    using mem le len dst tmp by (intro nth_equalityI) (auto simp: nth_ring nth_blit)
  then show "circ_contents circ' = ?keep"
    using used dst by (simp add: circ_contents_def) (simp add: c')
qed

text \<open>
  C5. A buffer set up by \<open>circbuf_init\<close> whose size divides the range of the counters is a
  bounded byte queue: over every sequence of write, overwrite, read, skip and reset
  calls, each call returns the count and delivers the bytes that the list specification
  gives, however often the counters wrap around.
\<close>

theorem circ_run_refines_fifo:
  assumes "circbuf_init c None bytes (Some mem) = (0, circ)" "length mem = unat bytes"
    "unat bytes dvd 2 ^ 32" "list_all op_in_range es"
    "run_ops circ_step es circ = (outs, circ')"
  shows "run_ops (fifo_step (unat bytes)) es [] = (outs, circ_contents circ')"
proof -
  have "circ_wf circ" "circ_contents circ = []" "cb_size circ = bytes"
    using circbuf_init_empty [OF assms(1)] assms(2) by auto
  then show ?thesis using circ_run_fifo [OF _ _ assms(4,5)] assms(3) by simp
qed

definition demo_circ :: circbuf_s where
  "demo_circ = \<lparr>cb_base = Some [0, 0, 0, 0], cb_size = 4, cb_head = 0, cb_tail = 0,
     cb_external = False\<rparr>"

lemma demo_init: "circbuf_init demo_circ None 4 (Some [0, 0, 0, 0]) = (0, demo_circ)"
  by (simp add: circbuf_init_def demo_circ_def)

theorem circ_run_refines_fifo_witness:
  "run_ops (fifo_step 4) [Write [1, 2, 3], Read 2, Write [4, 5], Overwrite [6, 7]] [] =
     ([(3, []), (2, [1, 2]), (2, []), (1, [])],
      circ_contents (snd (run_ops circ_step
        [Write [1, 2, 3], Read 2, Write [4, 5], Overwrite [6, 7]] demo_circ)))"
proof -
  let ?es = "[Write [1, 2, 3], Read 2, Write [4, 5], Overwrite [6, 7]]"
  have "fst (run_ops (fifo_step 4) ?es []) = [(3, []), (2, [1, 2]), (2, []), (1, [])]"
    by (simp add: Let_def)
  then show ?thesis
    using circ_run_refines_fifo [OF demo_init, of ?es "fst (run_ops circ_step ?es demo_circ)"
        "snd (run_ops circ_step ?es demo_circ)"] by (simp add: prod_eq_iff del: run_ops.simps)
qed

text \<open>
  C6. \<open>circbuf_overwrite\<close> always keeps the newest bytes: afterwards the buffer holds the
  last \<open>size\<close> bytes of what it held followed by the source bytes, and the call returns
  how many unread bytes it discarded. This is for every size, as long as the counters
  have not reached the end of their range or the size divides it.
\<close>

theorem circbuf_overwrite_keeps_newest:
  assumes "circ_wf circ" "circ_room circ (min (length src) (unat (cb_size circ)))"
    "length src = unat bytes" "circbuf_overwrite circ src bytes = (ret, circ')"
  shows "circ_contents circ' =
      (let all = circ_contents circ @ src in drop (length all - unat (cb_size circ)) all) \<and>
    unat ret = unat (circbuf_used circ) + min (length src) (unat (cb_size circ)) - unat (cb_size circ) \<and>
    circ_wf circ'"
  using circbuf_overwrite_contents [OF assms] assms(1)
  by (auto simp: Let_def circ_wf_def min_def)

theorem circbuf_overwrite_keeps_newest_witness:
  "circ_contents (snd (circbuf_overwrite
     \<lparr>cb_base = Some [3, 1, 2], cb_size = 3, cb_head = 4, cb_tail = 1, cb_external = False\<rparr>
     [7, 8] 2)) = [3, 7, 8]"
proof -
  let ?c = "\<lparr>cb_base = Some [3, 1, 2], cb_size = 3, cb_head = 4, cb_tail = 1, cb_external = False\<rparr>"
  have c: "circ_contents ?c = [1, 2, 3]"
    by (simp add: circ_contents_def ring_def circbuf_used_def upt_rec)
  show ?thesis
    using circbuf_overwrite_keeps_newest [of ?c "[7, 8]" 2 "fst (circbuf_overwrite ?c [7, 8] 2)"
        "snd (circbuf_overwrite ?c [7, 8] 2)"]
    by (simp add: c circ_wf_def circ_room_def circbuf_used_def Let_def)
qed

text \<open>
  C7. \<open>circbuf_resize\<close> to a non-zero size with a block of that size keeps the bytes held;
  when they do not fit it keeps the newest ones, and it leaves a well-formed buffer.
\<close>

theorem circbuf_resize_keeps_newest:
  assumes "circ_wf circ" "circ_room circ 0" "bytes \<noteq> 0" "length tmp = unat bytes"
    "circbuf_resize circ bytes (Some tmp) = (ret, circ')"
  shows "ret = 0 \<and> cb_size circ' = bytes \<and> circ_wf circ' \<and>
    circ_contents circ' = drop (unat (circbuf_used circ) - unat bytes) (circ_contents circ)"
  using circbuf_resize_contents [OF assms] by simp

theorem circbuf_resize_keeps_newest_witness:
  "circ_contents (snd (circbuf_resize
     \<lparr>cb_base = Some [3, 1, 2], cb_size = 3, cb_head = 4, cb_tail = 1, cb_external = False\<rparr>
     2 (Some [0, 0]))) = [2, 3]"
proof -
  let ?c = "\<lparr>cb_base = Some [3, 1, 2], cb_size = 3, cb_head = 4, cb_tail = 1, cb_external = False\<rparr>"
  have c: "circ_contents ?c = [1, 2, 3]"
    by (simp add: circ_contents_def ring_def circbuf_used_def upt_rec)
  show ?thesis
    using circbuf_resize_keeps_newest [of ?c 2 "[0, 0]" "fst (circbuf_resize ?c 2 (Some [0, 0]))"
        "snd (circbuf_resize ?c 2 (Some [0, 0]))"]
    by (simp add: c circ_wf_def circ_room_def circbuf_used_def)
qed


end
