(* ===== verification/Queue_SQ.thy ===== *)
theory Queue_SQ
  imports Queue_Interface
begin

text \<open>
  The singly linked queues of \<open>include/queue.h\<close> and \<open>libs/libc/queue/sq_*.c\<close>. The state
  of a queue is the \<open>flink\<close> field of every entry in memory together with the queue's
  head and tail pointers; each operation returns both. The two searches that follow
  \<open>flink\<close> from the head may run forever on a cyclic chain, so they return an option, and
  the lemmas show that they return on every well-formed queue. \<open>sq_rep\<close> is the list a
  queue represents, and every operation is shown to be the list operation it names.
\<close>

section \<open>The queues\<close>

record sq_queue_s =
  sq_head :: ptr
  sq_tail :: ptr

type_synonym sq_links = "ptr \<Rightarrow> ptr"
type_synonym sq_state = "sq_links \<times> sq_queue_s"

definition sq_init :: sq_queue_s where
  "sq_init = \<lparr>sq_head = NULL, sq_tail = NULL\<rparr>"

definition sq_empty :: "sq_queue_s \<Rightarrow> bool" where
  "sq_empty q \<longleftrightarrow> sq_head q = NULL"

definition sq_addfirst :: "ptr \<Rightarrow> sq_state \<Rightarrow> sq_state" where
  "sq_addfirst node s =
     (let (flink, q) = s;
          flink = flink(node := sq_head q);
          q = (if sq_head q = NULL then q\<lparr>sq_tail := node\<rparr> else q)
      in (flink, q\<lparr>sq_head := node\<rparr>))"

definition sq_addlast :: "ptr \<Rightarrow> sq_state \<Rightarrow> sq_state" where
  "sq_addlast node s =
     (let (flink, q) = s;
          flink = flink(node := NULL)
      in if sq_head q = NULL
         then (flink, q\<lparr>sq_head := node, sq_tail := node\<rparr>)
         else (flink(sq_tail q := node), q\<lparr>sq_tail := node\<rparr>))"

definition sq_addafter :: "ptr \<Rightarrow> ptr \<Rightarrow> sq_state \<Rightarrow> sq_state" where
  "sq_addafter prev node s =
     (let (flink, q) = s
      in if sq_head q = NULL \<or> prev = sq_tail q
         then sq_addlast node s
         else let flink = flink(node := flink prev) in (flink(prev := node), q))"

definition sq_remfirst :: "sq_state \<Rightarrow> ptr \<times> sq_state" where
  "sq_remfirst s =
     (let (flink, q) = s; ret = sq_head q
      in if ret \<noteq> NULL
         then let q = q\<lparr>sq_head := flink ret\<rparr>;
                  q = (if sq_head q = NULL then q\<lparr>sq_tail := NULL\<rparr> else q)
              in (ret, flink(ret := NULL), q)
         else (ret, flink, q))"

definition sq_remafter :: "ptr \<Rightarrow> sq_state \<Rightarrow> ptr \<times> sq_state" where
  "sq_remafter node s =
     (let (flink, q) = s; ret = flink node
      in if sq_head q \<noteq> NULL \<and> ret \<noteq> NULL
         then let (flink, q) =
                    (if sq_tail q = ret
                     then (flink(node := NULL), q\<lparr>sq_tail := node\<rparr>)
                     else (flink(node := flink ret), q))
              in (ret, flink(ret := NULL), q)
         else (ret, flink, q))"

text \<open>
  The loop \<open>for (prev = head; prev && prev->flink != node; prev = prev->flink)\<close> shared by
  \<open>sq_rem\<close> and \<open>sq_remlast\<close>.
\<close>

partial_function (option) sq_find_prev :: "sq_links \<Rightarrow> ptr \<Rightarrow> ptr \<Rightarrow> ptr option" where
  "sq_find_prev flink node prev =
     (if prev \<noteq> NULL \<and> flink prev \<noteq> node
      then sq_find_prev flink node (flink prev) else Some prev)"

definition sq_rem :: "ptr \<Rightarrow> sq_state \<Rightarrow> sq_state option" where
  "sq_rem node s =
     (let (flink, q) = s
      in if sq_head q \<noteq> NULL \<and> node \<noteq> NULL
         then if node = sq_head q
              then let q' = q\<lparr>sq_head := flink node\<rparr>
                   in Some (flink, if node = sq_tail q then q'\<lparr>sq_tail := NULL\<rparr> else q')
              else map_option
                     (\<lambda>prev. if prev \<noteq> NULL then snd (sq_remafter prev s) else s)
                     (sq_find_prev flink node (sq_head q))
         else Some s)"

definition sq_remlast :: "sq_state \<Rightarrow> (ptr \<times> sq_state) option" where
  "sq_remlast s =
     (let (flink, q) = s; ret = sq_tail q
      in if ret \<noteq> NULL
         then if sq_head q = sq_tail q
              then Some (ret, flink(ret := NULL), q\<lparr>sq_head := NULL, sq_tail := NULL\<rparr>)
              else map_option
                     (\<lambda>prev. let (flink, q) =
                               (if prev \<noteq> NULL
                                then (flink(prev := NULL), q\<lparr>sq_tail := prev\<rparr>)
                                else (flink, q))
                             in (ret, flink(ret := NULL), q))
                     (sq_find_prev flink ret (sq_head q))
         else Some (ret, s))"

partial_function (option) sq_count_loop :: "sq_links \<Rightarrow> ptr \<Rightarrow> nat \<Rightarrow> nat option" where
  "sq_count_loop flink node count =
     (if node \<noteq> NULL then sq_count_loop flink (flink node) (Suc count) else Some count)"

definition sq_count :: "sq_state \<Rightarrow> nat option" where
  "sq_count s = (let (flink, q) = s in sq_count_loop flink (sq_head q) 0)"

text \<open>\<open>sq_cat\<close> moves the entries of the first queue to the end of the second.\<close>

definition sq_cat :: "sq_links \<Rightarrow> sq_queue_s \<Rightarrow> sq_queue_s \<Rightarrow> sq_links \<times> sq_queue_s \<times> sq_queue_s" where
  "sq_cat flink q1 q2 =
     (if sq_empty q2 then (flink, sq_init, q1)
      else if \<not> sq_empty q1
      then (flink(sq_tail q2 := sq_head q1), sq_init, q2\<lparr>sq_tail := sq_tail q1\<rparr>)
      else (flink, q1, q2))"

section \<open>The list a queue represents\<close>

definition sq_rep :: "sq_state \<Rightarrow> ptr list \<Rightarrow> bool" where
  "sq_rep s xs \<longleftrightarrow> lseg (fst s) (sq_head (snd s)) xs NULL \<and> sq_tail (snd s) = hd0 (rev xs)"

lemma sq_repI:
  "lseg flink (sq_head q) xs NULL \<Longrightarrow> sq_tail q = hd0 (rev xs) \<Longrightarrow> sq_rep (flink, q) xs"
  by (simp add: sq_rep_def)

lemma sq_repD:
  assumes "sq_rep (flink, q) xs"
  shows "lseg flink (sq_head q) xs NULL" "sq_tail q = hd0 (rev xs)" "sq_head q = hd0 xs"
    "distinct xs" "NULL \<notin> set xs"
  using assms lseg_head lseg_distinct lseg_no_null by (auto simp: sq_rep_def)

lemma sq_rep_init: "sq_rep (flink, sq_init) []"
  by (simp add: sq_rep_def sq_init_def)

lemma sq_rep_addfirst:
  assumes "sq_rep s xs" "n \<noteq> NULL" "n \<notin> set xs"
  shows "sq_rep (sq_addfirst n s) (n # xs)"
proof (cases s)
  case (Pair flink q)
  with assms(1) have "sq_rep (flink, q) xs" by simp
  note r = sq_repD [OF this]
  show ?thesis
    using assms(2,3) r unfolding Pair sq_addfirst_def
    by (cases xs) (auto simp: sq_rep_def Let_def hd0_append)
qed

lemma sq_rep_addlast:
  assumes "sq_rep s xs" "n \<noteq> NULL" "n \<notin> set xs"
  shows "sq_rep (sq_addlast n s) (xs @ [n])"
proof (cases s)
  case (Pair flink q)
  with assms(1) have "sq_rep (flink, q) xs" by simp
  note r = sq_repD [OF this]
  show ?thesis
  proof (cases xs rule: rev_cases)
    case Nil
    with r assms(2,3) show ?thesis by (simp add: Pair sq_addlast_def sq_rep_def)
  next
    case (snoc ys y)
    have "lseg (flink(n := NULL, y := n)) (sq_head q) (ys @ [y, n]) NULL"
      using lseg_insert_after [of flink "sq_head q" ys y "[]" n] r assms(2,3) snoc by simp
    moreover have "sq_head q \<noteq> NULL" "sq_tail q = y"
      using r snoc by (auto simp: lseg_null_iff)
    ultimately show ?thesis
      by (simp add: Pair sq_addlast_def sq_rep_def snoc Let_def)
  qed
qed

lemma sq_rep_addafter:
  assumes "sq_rep s (ys @ p # zs)" "n \<noteq> NULL" "n \<notin> set (ys @ p # zs)"
  shows "sq_rep (sq_addafter p n s) (ys @ p # n # zs)"
proof (cases s)
  case (Pair flink q)
  with assms(1) have "sq_rep (flink, q) (ys @ p # zs)" by simp
  note r = sq_repD [OF this]
  have nz: "sq_head q \<noteq> NULL" using lseg_null_iff [OF r(1)] by simp
  show ?thesis
  proof (cases zs rule: rev_cases)
    case Nil
    then have "p = sq_tail q" using r by simp
    then show ?thesis
      using sq_rep_addlast [OF assms(1) assms(2)] assms(3) Nil by (simp add: Pair sq_addafter_def)
  next
    case (snoc zs' z)
    have "p \<noteq> sq_tail q" using r snoc by auto
    moreover have "lseg (flink(n := flink p, p := n)) (sq_head q) (ys @ p # n # zs) NULL"
      using lseg_insert_after [OF r(1) assms(2,3)] lseg_mid(1) [OF r(1)] by simp
    ultimately show ?thesis
      using nz r snoc by (simp add: Pair sq_addafter_def sq_rep_def Let_def hd0_append)
  qed
qed

lemma sq_rep_remfirst:
  assumes "sq_rep s xs"
  shows "fst (sq_remfirst s) = hd0 xs \<and> sq_rep (snd (sq_remfirst s)) (tl xs)"
proof (cases s)
  case (Pair flink q)
  with assms have "sq_rep (flink, q) xs" by simp
  note r = sq_repD [OF this]
  show ?thesis
  proof (cases xs)
    case Nil
    with r show ?thesis by (simp add: Pair sq_remfirst_def sq_rep_def)
  next
    case (Cons x ys)
    with r(1) have "lseg flink (sq_head q) (x # ys) NULL" by simp
    note l = lseg_ConsD [OF this]
    then show ?thesis
      using r(2) Cons lseg_null_iff [OF l(4)]
      by (cases ys rule: rev_cases) (auto simp: Pair sq_remfirst_def sq_rep_def Let_def)
  qed
qed

lemma sq_rep_remafter:
  assumes "sq_rep s (ys @ p # n # zs)"
  shows "fst (sq_remafter p s) = n \<and> sq_rep (snd (sq_remafter p s)) (ys @ p # zs)"
proof (cases s)
  case (Pair flink q)
  with assms have "sq_rep (flink, q) (ys @ p # n # zs)" by simp
  note r = sq_repD [OF this]
  have p: "flink p = n" using lseg_mid(1) [OF r(1)] by simp
  have n: "flink n = hd0 zs" "n \<noteq> NULL"
    using lseg_mid [of flink "sq_head q" "ys @ [p]" n zs] r(1) by auto
  have l: "lseg (flink(p := hd0 zs, n := NULL)) (sq_head q) (ys @ p # zs) NULL"
    using lseg_remove_after [OF r(1)] r(4) by simp
  have "sq_head q \<noteq> NULL" using lseg_null_iff [OF r(1)] by simp
  moreover have "sq_tail q = n \<longleftrightarrow> zs = []"
    using r by (cases zs rule: rev_cases) auto
  ultimately show ?thesis
    using p n l r by (cases zs rule: rev_cases) (auto simp: Pair sq_remafter_def sq_rep_def Let_def hd0_append)
qed

lemma sq_find_prev_step:
  assumes "lseg flink p (ys @ y # n # zs) NULL"
  shows "sq_find_prev flink n p = Some y"
  using assms
proof (induction ys arbitrary: p)
  case Nil
  then show ?case by (subst sq_find_prev.simps) auto
next
  case (Cons a ys)
  then have "lseg flink p (a # ys @ y # n # zs) NULL" by simp
  note l = lseg_ConsD [OF this]
  have "hd0 (ys @ y # n # zs) \<noteq> n"
    using lseg_distinct [OF l(4)] by (cases ys) auto
  with l Cons.IH [OF l(4)] show ?case
    by (subst sq_find_prev.simps) simp
qed

lemma sq_find_prev_absent:
  assumes "lseg flink p xs NULL" "n \<notin> set (tl xs)" "n \<noteq> NULL"
  shows "sq_find_prev flink n p = Some NULL"
  using assms
proof (induction xs arbitrary: p)
  case Nil
  then show ?case by (subst sq_find_prev.simps) auto
next
  case (Cons x xs)
  have fx: "flink x = hd0 xs" "lseg flink (flink x) xs NULL"
    using lseg_ConsD [OF Cons.prems(1)] by simp_all
  have "flink x \<noteq> n" using fx Cons.prems by (cases xs) auto
  moreover have "n \<notin> set (tl xs)" using Cons.prems by (cases xs) auto
  ultimately show ?case
    using Cons fx by (subst sq_find_prev.simps) auto
qed

lemma sq_rep_rem:
  assumes "sq_rep s xs" "n \<noteq> NULL"
  shows "\<exists>s'. sq_rem n s = Some s' \<and> sq_rep s' (remove1 n xs)"
proof (cases s)
  case (Pair flink q)
  with assms have "sq_rep (flink, q) xs" by simp
  note r = sq_repD [OF this]
  show ?thesis
  proof (cases xs)
    case Nil
    with r assms show ?thesis by (simp add: Pair sq_rem_def sq_rep_def)
  next
    case (Cons x ys)
    then have hx: "sq_head q = x" "x \<noteq> NULL" using r by auto
    show ?thesis
    proof (cases "n = x")
      case True
      have "lseg flink (sq_head q) (x # ys) NULL" using r(1) Cons by simp
      note l = lseg_ConsD [OF this]
      then show ?thesis
        using True Cons r hx assms
        by (cases ys rule: rev_cases) (auto simp: Pair sq_rem_def sq_rep_def Let_def hd0_append)
    next
      case False
      show ?thesis
      proof (cases "n \<in> set ys")
        case True
        then obtain as bs where ys: "ys = as @ n # bs" "n \<notin> set as"
          by (auto dest: split_list_first)
        obtain cs y where xs: "x # as = cs @ [y]"
          by (metis append_butlast_last_id list.distinct(1))
        have l: "xs = cs @ y # n # bs" using Cons ys xs by simp
        have "sq_find_prev flink n (sq_head q) = Some y"
          using r(1) l by (auto intro: sq_find_prev_step)
        moreover have "y \<noteq> NULL" using r(5) l by auto
        moreover have "remove1 n xs = cs @ y # bs"
        proof -
          have "remove1 n xs = (x # as) @ bs"
            using Cons ys False by (simp add: remove1_append)
          then show ?thesis using xs by simp
        qed
        ultimately show ?thesis
          using sq_rep_remafter [of s cs y n bs] assms hx False l
          by (simp add: Pair sq_rem_def)
      next
        case notin: False
        have "sq_find_prev flink n (sq_head q) = Some NULL"
          using sq_find_prev_absent [OF r(1)] Cons notin assms(2) by simp
        moreover have "remove1 n xs = xs" using Cons False notin by (simp add: remove1_idem)
        ultimately show ?thesis using assms(1) hx False by (simp add: Pair sq_rem_def)
      qed
    qed
  qed
qed

lemma sq_rep_remlast:
  assumes "sq_rep s xs"
  shows "\<exists>s'. sq_remlast s = Some (hd0 (rev xs), s') \<and> sq_rep s' (butlast xs)"
proof (cases s)
  case (Pair flink q)
  with assms have "sq_rep (flink, q) xs" by simp
  note r = sq_repD [OF this]
  show ?thesis
  proof (cases xs rule: rev_cases)
    case Nil
    with r show ?thesis by (simp add: Pair sq_remlast_def sq_rep_def)
  next
    case (snoc ys n)
    then have t: "sq_tail q = n" "n \<noteq> NULL" using r by auto
    show ?thesis
    proof (cases ys rule: rev_cases)
      case Nil
      with snoc t r show ?thesis by (simp add: Pair sq_remlast_def sq_rep_def)
    next
      case snoc': (snoc zs y)
      have xs: "xs = zs @ y # [n]" using snoc snoc' by simp
      then have "sq_find_prev flink n (sq_head q) = Some y"
        using r(1) by (auto intro: sq_find_prev_step)
      moreover have "sq_head q \<noteq> n" using r xs by (cases zs) auto
      moreover have "lseg (flink(y := NULL, n := NULL)) (sq_head q) (zs @ [y]) NULL"
        using lseg_remove_after [of flink "sq_head q" zs y n "[]"] r xs by auto
      moreover have "y \<noteq> NULL" "distinct (zs @ [y, n])" using r xs by auto
      ultimately show ?thesis
        using t xs by (auto simp: Pair sq_remlast_def sq_rep_def butlast_append)
    qed
  qed
qed

lemma sq_count_loop_length:
  "lseg flink p xs NULL \<Longrightarrow> sq_count_loop flink p c = Some (c + length xs)"
proof (induction xs arbitrary: p c)
  case Nil
  then show ?case by (subst sq_count_loop.simps) simp
next
  case (Cons x xs)
  then show ?case by (subst sq_count_loop.simps) simp
qed

lemma sq_rep_count: "sq_rep s xs \<Longrightarrow> sq_count s = Some (length xs)"
  by (cases s) (auto simp: sq_count_def sq_rep_def dest: sq_count_loop_length [where c = 0])

lemma sq_rep_cat:
  assumes "sq_rep (flink, q1) xs" "sq_rep (flink, q2) ys" "set xs \<inter> set ys = {}"
    and "sq_cat flink q1 q2 = (flink', q1', q2')"
  shows "sq_rep (flink', q1') [] \<and> sq_rep (flink', q2') (ys @ xs)"
proof -
  note r1 = sq_repD [OF assms(1)] and r2 = sq_repD [OF assms(2)]
  show ?thesis
  proof (cases ys rule: rev_cases)
    case Nil
    then show ?thesis
      using assms r2 by (auto simp: sq_cat_def sq_empty_def sq_rep_init)
  next
    case (snoc zs y)
    have h: "sq_head q2 \<noteq> NULL" "sq_tail q2 = y"
      using lseg_null_iff [OF r2(1)] r2 snoc by auto
    show ?thesis
    proof (cases xs rule: rev_cases)
      case Nil
      then show ?thesis using assms h r1 by (auto simp: sq_cat_def sq_empty_def)
    next
      case snoc': (snoc as a)
      have "sq_head q1 \<noteq> NULL" using lseg_null_iff [OF r1(1)] snoc' by auto
      moreover have "lseg (flink(y := sq_head q1)) (sq_head q2) (zs @ y # xs) NULL"
        using lseg_join [of flink "sq_head q2" zs y "sq_head q1" xs] r1 r2 snoc assms(3) by auto
      ultimately show ?thesis
        using assms(4) h r1 snoc snoc'
        by (auto simp: sq_cat_def sq_empty_def sq_init_def sq_rep_def hd0_append)
    qed
  qed
qed

interpretation sq: linked_queue sq_rep sq_addfirst sq_addlast sq_remfirst sq_remlast
proof unfold_locales
  show "sq_rep s xs \<Longrightarrow> distinct xs \<and> NULL \<notin> set xs" for s xs
    by (cases s) (auto dest: sq_repD)
qed (fact sq_rep_addfirst sq_rep_addlast sq_rep_remfirst sq_rep_remlast)+

section \<open>Queues as lists\<close>

text \<open>\<open>sq_addbefore\<close> does not exist in the library, so \<open>AddBefore\<close> is not offered here.\<close>

fun sq_step :: "queue_op \<Rightarrow> sq_state \<Rightarrow> sq_state option" where
  "sq_step (AddFirst n) s = Some (sq_addfirst n s)"
| "sq_step (AddLast n) s = Some (sq_addlast n s)"
| "sq_step (AddAfter p n) s = Some (sq_addafter p n s)"
| "sq_step (AddBefore p n) s = None"
| "sq_step (Rem n) s = sq_rem n s"
| "sq_step RemFirst s = Some (snd (sq_remfirst s))"
| "sq_step RemLast s = map_option snd (sq_remlast s)"

fun sq_op :: "queue_op \<Rightarrow> bool" where
  "sq_op (AddBefore p n) \<longleftrightarrow> False"
| "sq_op _ \<longleftrightarrow> True"

fun sq_run :: "queue_op list \<Rightarrow> sq_state \<Rightarrow> sq_state option" where
  "sq_run [] s = Some s"
| "sq_run (e # es) s = Option.bind (sq_step e s) (sq_run es)"

lemma sq_step_refines:
  assumes "sq_rep s xs" "sq_op e" "step_ok e xs"
  shows "\<exists>s'. sq_step e s = Some s' \<and> sq_rep s' (list_step e xs)"
proof (cases e)
  case (AddAfter p n)
  with assms(3) obtain ys zs where "xs = ys @ p # zs" "p \<notin> set ys"
    by (auto dest: split_list_first)
  with assms AddAfter show ?thesis
    by (auto simp: insert_after_split intro: sq_rep_addafter)
next
  case (Rem n)
  then have "n \<noteq> NULL" using assms(3) sq.rep_distinct [OF assms(1)] by (auto intro: gr0I)
  with sq_rep_rem [OF assms(1)] Rem show ?thesis by simp
next
  case RemLast
  with sq_rep_remlast [OF assms(1)] show ?thesis by auto
qed (use assms sq_rep_addfirst sq_rep_addlast sq_rep_remfirst in auto)

text \<open>
  C1. Any sequence of admissible singly linked queue operations, started on a queue that
  represents a list, returns (no search loops forever) and leaves memory representing
  exactly the list that the same operations give on lists: the nodes in the right order,
  the tail pointer at the last one, and no node lost or duplicated.
\<close>

theorem sq_run_refines_list:
  assumes "sq_rep s xs" "list_all sq_op es" "list_run_ok es xs"
  shows "\<exists>s'. sq_run es s = Some s' \<and> sq_rep s' (fold list_step es xs)"
  using assms
proof (induction es arbitrary: s xs)
  case Nil
  then show ?case by simp
next
  case (Cons e es)
  then obtain s1 where "sq_step e s = Some s1" "sq_rep s1 (list_step e xs)"
    using sq_step_refines [of s xs e] by auto
  with Cons.IH [of s1 "list_step e xs"] Cons.prems show ?case by simp
qed

theorem sq_run_refines_list_witness:
  "\<exists>s'. sq_run [AddLast 8, AddFirst 4, AddAfter 8 16, AddLast 12, Rem 8, RemLast] ((\<lambda>_. NULL), sq_init)
     = Some s' \<and> sq_rep s' [4, 16]"
proof -
  let ?es = "[AddLast 8, AddFirst 4, AddAfter 8 16, AddLast 12, Rem 8, RemLast]"
  have "\<exists>s'. sq_run ?es ((\<lambda>_. NULL), sq_init) = Some s' \<and> sq_rep s' (fold list_step ?es [])"
    by (rule sq_run_refines_list) (simp_all add: sq_rep_init)
  then show ?thesis by simp
qed

text \<open>
  C2. First in, first out: nodes appended to an empty singly linked queue come out of
  \<open>sq_remfirst\<close> in the order in which they were appended.
\<close>

theorem sq_fifo:
  assumes "distinct ns" "NULL \<notin> set ns" "k \<le> length ns"
  shows "fst (drain sq_remfirst k (fold sq_addlast ns (flink, sq_init))) = take k ns"
  using sq_rep_init assms by (rule sq.fifo_order)

theorem sq_fifo_witness:
  "fst (drain sq_remfirst 2 (fold sq_addlast [8, 4, 12] ((\<lambda>_. NULL), sq_init))) = [8, 4]"
  using sq_fifo [of "[8, 4, 12]" 2 "\<lambda>_. NULL"] by simp

end
