(* ===== verification/Wdog.thy ===== *)
theory Wdog
  imports Queue_SQ
begin

unbundle bit_operations_syntax

text \<open>
  The watchdog timers of \<open>sched/wdog\<close>. The active watchdogs form a singly linked queue in
  which every node stores its \<open>lag\<close>, the delay relative to the node before it. The model
  keeps the \<open>struct wdog_s\<close> fields as maps from addresses, uses the queue operations of
  \<open>Queue_SQ\<close> as the code does, and takes the effect of a watchdog function on the watchdog
  state as the parameter \<open>cb\<close>. The configuration is a flat build without \<open>CONFIG_PIC\<close> and
  \<open>CONFIG_SMP\<close>; the periodic \<open>wd_timer\<close> and the tickless \<open>wd_timer\<close> are both modelled.
  Values of type \<open>int32_t\<close> and \<open>int\<close> are integers; the invariant \<open>wd_rep\<close> bounds every
  partial sum of lags by \<open>INT32_MAX\<close>, so that no addition of the code overflows, and
  \<open>wrap32\<close> is written out where the code tests for overflow.
  An operation returns \<open>None\<close> when it would follow a null pointer or not terminate.
\<close>

section \<open>The code\<close>

type_synonym wdparm = "32 word"

record wd_state =
  wd_next :: sq_links
  wd_func :: "ptr \<Rightarrow> ptr"
  wd_lag :: "ptr \<Rightarrow> int"
  wd_flags :: "ptr \<Rightarrow> 8 word"
  wd_arg :: "ptr \<Rightarrow> wdparm"
  g_wdactivelist :: sq_queue_s

definition INT32_MAX :: int where
  "INT32_MAX = 2 ^ 31 - 1"

definition wrap32 :: "int \<Rightarrow> int" where
  "wrap32 x = (x + 2 ^ 31) mod 2 ^ 32 - 2 ^ 31"

definition WDOGF_ACTIVE :: "8 word" where
  "WDOGF_ACTIVE = push_bit 0 1"

definition WDOG_SETACTIVE :: "ptr \<Rightarrow> wd_state \<Rightarrow> wd_state" where
  "WDOG_SETACTIVE w s = s\<lparr>wd_flags := (wd_flags s)(w := wd_flags s w OR WDOGF_ACTIVE)\<rparr>"

definition WDOG_CLRACTIVE :: "ptr \<Rightarrow> wd_state \<Rightarrow> wd_state" where
  "WDOG_CLRACTIVE w s = s\<lparr>wd_flags := (wd_flags s)(w := wd_flags s w AND NOT WDOGF_ACTIVE)\<rparr>"

definition WDOG_ISACTIVE :: "ptr \<Rightarrow> wd_state \<Rightarrow> bool" where
  "WDOG_ISACTIVE w s \<longleftrightarrow> wd_flags s w AND WDOGF_ACTIVE \<noteq> 0"

definition wd_initialize :: "wd_state \<Rightarrow> wd_state" where
  "wd_initialize s = s\<lparr>g_wdactivelist := sq_init\<rparr>"

text \<open>The queue operations act on the \<open>next\<close> fields and the list header.\<close>

abbreviation wd_list :: "wd_state \<Rightarrow> sq_state" where
  "wd_list s \<equiv> (wd_next s, g_wdactivelist s)"

abbreviation wd_head :: "wd_state \<Rightarrow> ptr" where
  "wd_head s \<equiv> sq_head (g_wdactivelist s)"

definition wd_set_list :: "sq_state \<Rightarrow> wd_state \<Rightarrow> wd_state" where
  "wd_set_list l s = s\<lparr>wd_next := fst l, g_wdactivelist := snd l\<rparr>"

definition wd_add_lag :: "ptr \<Rightarrow> int \<Rightarrow> wd_state \<Rightarrow> wd_state" where
  "wd_add_lag w d s = s\<lparr>wd_lag := (wd_lag s)(w := wd_lag s w + d)\<rparr>"

text \<open>The search loop of \<open>wd_cancel\<close>.\<close>

partial_function (option) wd_search :: "sq_links \<Rightarrow> ptr \<Rightarrow> ptr \<Rightarrow> ptr \<Rightarrow> (ptr \<times> ptr) option" where
  "wd_search next wdog prev cur =
     (if cur \<noteq> NULL \<and> cur \<noteq> wdog then wd_search next wdog cur (next cur)
      else Some (prev, cur))"

definition wd_cancel :: "ptr \<Rightarrow> wd_state \<Rightarrow> (int \<times> wd_state) option" where
  "wd_cancel wdog s =
     (if wdog \<noteq> NULL \<and> WDOG_ISACTIVE wdog s
      then Option.bind (wd_search (wd_next s) wdog NULL (wd_head s)) (\<lambda>(prev, cur).
        if cur = NULL then None
        else let s = (if wd_next s cur \<noteq> NULL
                      then wd_add_lag (wd_next s cur) (wd_lag s cur) s else s);
                 s = (if prev \<noteq> NULL then wd_set_list (snd (sq_remafter prev (wd_list s))) s
                      else wd_set_list (snd (sq_remfirst (wd_list s))) s);
                 s = s\<lparr>wd_next := (wd_next s)(wdog := NULL)\<rparr>
             in Some (OK, WDOG_CLRACTIVE wdog s))
      else Some (- EINVAL, s))"

text \<open>\<open>wd_recover\<close> gets the address of the exiting task's \<open>waitdog\<close>.\<close>

definition wd_recover :: "ptr \<Rightarrow> wd_state \<Rightarrow> wd_state option" where
  "wd_recover waitdog s = map_option snd (wd_cancel waitdog s)"

text \<open>The two search loops of \<open>wd_start\<close>.\<close>

partial_function (option) wd_advance_positive ::
  "wd_state \<Rightarrow> ptr \<Rightarrow> ptr \<Rightarrow> int \<Rightarrow> (ptr \<times> ptr \<times> int) option" where
  "wd_advance_positive s prev cur now =
     (let now = now + wd_lag s cur
      in if now < 0 \<and> wd_next s cur \<noteq> NULL
         then wd_advance_positive s cur (wd_next s cur) now
         else Some (prev, cur, now))"

partial_function (option) wd_advance_shorter ::
  "wd_state \<Rightarrow> int \<Rightarrow> ptr \<Rightarrow> ptr \<Rightarrow> int \<Rightarrow> (ptr \<times> ptr \<times> int) option" where
  "wd_advance_shorter s delay prev cur now =
     (if now \<le> delay \<and> wd_next s cur \<noteq> NULL
      then wd_advance_shorter s delay cur (wd_next s cur) (now + wd_lag s (wd_next s cur))
      else Some (prev, cur, now))"

text \<open>\<open>delay + 1\<close>, forced into the range of \<open>int32_t\<close>.\<close>

definition wd_ticks :: "int \<Rightarrow> int" where
  "wd_ticks delay =
     (if delay \<le> 0 then 1
      else let delay = wrap32 (delay + 1) in if delay \<le> 0 then wrap32 (delay - 1) else delay)"

text \<open>Queueing of a watchdog that is not active; the result is the lag to store in it.\<close>

definition wd_insert :: "ptr \<Rightarrow> int \<Rightarrow> wd_state \<Rightarrow> (int \<times> wd_state) option" where
  "wd_insert wdog delay s =
     (if wd_head s = NULL
      then Some (delay, wd_set_list (sq_addlast wdog (wd_list s)) s)
      else
        Option.bind (wd_advance_positive s (wd_head s) (wd_head s) 0) (\<lambda>(prev, cur, now).
        Option.bind (wd_advance_shorter s delay prev cur now) (\<lambda>(prev, cur, now).
          if delay < now
          then let delay = delay - (now - wd_lag s cur);
                   s = wd_add_lag cur (- delay) s
               in if cur = wd_head s
                  then Some (delay, wd_set_list (sq_addfirst wdog (wd_list s)) s)
                  else Some (delay, wd_set_list (sq_addafter prev wdog (wd_list s)) s)
          else let delay = delay - now
               in if wd_next s cur = NULL
                  then Some (delay, wd_set_list (sq_addlast wdog (wd_list s)) s)
                  else let s = wd_add_lag (wd_next s cur) (- delay) s
                       in Some (delay, wd_set_list (sq_addafter cur wdog (wd_list s)) s))))"

definition wd_start :: "ptr \<Rightarrow> int \<Rightarrow> ptr \<Rightarrow> wdparm \<Rightarrow> wd_state \<Rightarrow> (int \<times> wd_state) option" where
  "wd_start wdog delay wdentry arg s =
     (if wdog = NULL \<or> delay < 0 then Some (- EINVAL, s)
      else
        Option.bind (if WDOG_ISACTIVE wdog s then wd_cancel wdog s else Some (OK, s)) (\<lambda>(_, s).
        let s = s\<lparr>wd_func := (wd_func s)(wdog := wdentry), wd_arg := (wd_arg s)(wdog := arg)\<rparr>
        in Option.bind (wd_insert wdog (wd_ticks delay) s) (\<lambda>(delay, s).
           Some (OK, WDOG_SETACTIVE wdog (s\<lparr>wd_lag := (wd_lag s)(wdog := delay)\<rparr>)))))"

partial_function (option) wd_gettime_loop ::
  "wd_state \<Rightarrow> int \<Rightarrow> ptr \<Rightarrow> ptr \<Rightarrow> int \<Rightarrow> int option" where
  "wd_gettime_loop s elapse wdog cur delay =
     (if cur \<noteq> NULL
      then let delay = delay + wd_lag s cur
           in if cur = wdog then Some (delay - elapse)
              else wd_gettime_loop s elapse wdog (wd_next s cur) delay
      else Some 0)"

definition wd_gettime :: "int \<Rightarrow> ptr \<Rightarrow> wd_state \<Rightarrow> int option" where
  "wd_gettime elapse wdog s =
     (if wdog \<noteq> NULL \<and> WDOG_ISACTIVE wdog s
      then wd_gettime_loop s elapse wdog (wd_head s) 0 else Some 0)"

text \<open>
  Expiration. Besides the state the model returns the calls made, each as the watchdog,
  its function and its argument.
\<close>

type_synonym wd_call = "ptr \<times> ptr \<times> wdparm"
type_synonym wd_callback = "ptr \<Rightarrow> wdparm \<Rightarrow> wd_state \<Rightarrow> wd_state option"

definition wd_pop :: "wd_state \<Rightarrow> ptr \<times> wd_state" where
  "wd_pop s =
     (let (wdog, l) = sq_remfirst (wd_list s);
          s = wd_set_list l s;
          s = (if wd_head s \<noteq> NULL then wd_add_lag (wd_head s) (wd_lag s wdog) s else s)
      in (wdog, WDOG_CLRACTIVE wdog s))"

partial_function (option) wd_expiration_loop ::
  "wd_callback \<Rightarrow> wd_state \<Rightarrow> (wd_call list \<times> wd_state) option" where
  "wd_expiration_loop cb s =
     (if wd_head s \<noteq> NULL \<and> wd_lag s (wd_head s) \<le> 0
      then let (wdog, s) = wd_pop s
           in Option.bind (cb (wd_func s wdog) (wd_arg s wdog) s) (\<lambda>s'.
              Option.bind (wd_expiration_loop cb s') (\<lambda>(calls, s'').
              Some ((wdog, wd_func s wdog, wd_arg s wdog) # calls, s'')))
      else Some ([], s))"

definition wd_expiration :: "wd_callback \<Rightarrow> wd_state \<Rightarrow> (wd_call list \<times> wd_state) option" where
  "wd_expiration cb s =
     (if wd_lag s (wd_head s) \<le> 0 then wd_expiration_loop cb s else Some ([], s))"

definition wd_timer :: "wd_callback \<Rightarrow> wd_state \<Rightarrow> (wd_call list \<times> wd_state) option" where
  "wd_timer cb s =
     (if wd_head s \<noteq> NULL then wd_expiration cb (wd_add_lag (wd_head s) (- 1) s)
      else Some ([], s))"

text \<open>
  The tickless variant also advances \<open>g_wdtickbase\<close> and returns the delay to the next
  expiration. The third component of the loop result is the ticks not used up.
\<close>

partial_function (option) wd_timer_loop ::
  "wd_callback \<Rightarrow> int \<Rightarrow> int \<Rightarrow> wd_state \<Rightarrow> (wd_call list \<times> int \<times> int \<times> wd_state) option" where
  "wd_timer_loop cb tickbase ticks s =
     (if wd_head s \<noteq> NULL \<and> ticks > 0
      then let decr = min (wd_lag s (wd_head s)) ticks
           in Option.bind (wd_expiration cb (wd_add_lag (wd_head s) (- decr) s)) (\<lambda>(calls, s').
              Option.bind (wd_timer_loop cb (tickbase + decr) (ticks - decr) s')
                (\<lambda>(calls', r). Some (calls @ calls', r)))
      else Some ([], tickbase, ticks, s))"


section \<open>The specification\<close>

text \<open>
  A running timer is a watchdog with the number of ticks it still has to wait and the call
  it is going to make. The specification keeps the timers in the order they expire in;
  timers due at the same tick are in the order they were started in.
\<close>

datatype wd_tm = Timer (tm_id: ptr) (tm_due: int) (tm_func: ptr) (tm_arg: wdparm)

definition tm_remove :: "ptr \<Rightarrow> wd_tm list \<Rightarrow> wd_tm list" where
  "tm_remove w xs = filter (\<lambda>t. tm_id t \<noteq> w) xs"

definition tm_insert :: "wd_tm \<Rightarrow> wd_tm list \<Rightarrow> wd_tm list" where
  "tm_insert t xs = takeWhile (\<lambda>u. tm_due u \<le> tm_due t) xs @ t # dropWhile (\<lambda>u. tm_due u \<le> tm_due t) xs"

definition tm_start :: "ptr \<Rightarrow> int \<Rightarrow> ptr \<Rightarrow> wdparm \<Rightarrow> wd_tm list \<Rightarrow> wd_tm list" where
  "tm_start w d f a xs = tm_insert (Timer w d f a) (tm_remove w xs)"

definition tm_advance :: "int \<Rightarrow> wd_tm list \<Rightarrow> wd_tm list" where
  "tm_advance n xs = map (\<lambda>t. Timer (tm_id t) (tm_due t - n) (tm_func t) (tm_arg t)) xs"

text \<open>The lag fields of a queue of timers: each is relative to the timer before.\<close>

primrec last_due :: "int \<Rightarrow> wd_tm list \<Rightarrow> int" where
  "last_due b [] = b"
| "last_due b (t # ts) = last_due (tm_due t) ts"

primrec lags_ok :: "(ptr \<Rightarrow> int) \<Rightarrow> int \<Rightarrow> wd_tm list \<Rightarrow> bool" where
  "lags_ok lag b [] \<longleftrightarrow> True"
| "lags_ok lag b (t # ts) \<longleftrightarrow> lag (tm_id t) = tm_due t - b \<and> lags_ok lag (tm_due t) ts"

definition tm_stored :: "wd_state \<Rightarrow> wd_tm \<Rightarrow> bool" where
  "tm_stored s t \<longleftrightarrow> 0 \<le> tm_due t \<and> tm_due t \<le> INT32_MAX \<and>
     wd_func s (tm_id t) = tm_func t \<and> wd_arg s (tm_id t) = tm_arg t"

definition wd_rep :: "wd_state \<Rightarrow> wd_tm list \<Rightarrow> bool" where
  "wd_rep s xs \<longleftrightarrow> sq_rep (wd_list s) (map tm_id xs) \<and> lags_ok (wd_lag s) 0 xs \<and>
     sorted (map tm_due xs) \<and> (\<forall>t \<in> set xs. tm_stored s t) \<and>
     (\<forall>w. w \<noteq> NULL \<longrightarrow> WDOG_ISACTIVE w s = (w \<in> tm_id ` set xs))"

lemma wd_repD:
  assumes "wd_rep s xs"
  shows "sq_rep (wd_list s) (map tm_id xs)" "lags_ok (wd_lag s) 0 xs" "sorted (map tm_due xs)"
    "\<And>t. t \<in> set xs \<Longrightarrow> tm_stored s t"
    "\<And>w. w \<noteq> NULL \<Longrightarrow> WDOG_ISACTIVE w s = (w \<in> tm_id ` set xs)"
    "distinct (map tm_id xs)" "NULL \<notin> tm_id ` set xs" "wd_head s = hd0 (map tm_id xs)"
    "lseg (wd_next s) (wd_head s) (map tm_id xs) NULL"
  using assms sq_repD [of "wd_next s" "g_wdactivelist s" "map tm_id xs"]
  by (auto simp: wd_rep_def)

lemma wd_repI:
  assumes "sq_rep (wd_list s) (map tm_id xs)" "lags_ok (wd_lag s) 0 xs" "sorted (map tm_due xs)"
    "\<And>t. t \<in> set xs \<Longrightarrow> tm_stored s t"
    "\<And>w. w \<noteq> NULL \<Longrightarrow> WDOG_ISACTIVE w s = (w \<in> tm_id ` set xs)"
  shows "wd_rep s xs"
  using assms by (simp add: wd_rep_def)

section \<open>Lags and flags\<close>

lemma lags_ok_append [simp]:
  "lags_ok lag b (xs @ ys) \<longleftrightarrow> lags_ok lag b xs \<and> lags_ok lag (last_due b xs) ys"
  by (induction xs arbitrary: b) auto

lemma last_due_append [simp]: "last_due b (xs @ ys) = last_due (last_due b xs) ys"
  by (induction xs arbitrary: b) auto

lemma lags_ok_upd [simp]:
  "w \<notin> tm_id ` set xs \<Longrightarrow> lags_ok (lag(w := v)) b xs = lags_ok lag b xs"
  by (induction xs arbitrary: b) auto

lemma lags_ok_advance:
  "lags_ok lag (b - n) (tm_advance n xs) = lags_ok lag b xs"
  by (induction xs arbitrary: b) (auto simp: tm_advance_def)

lemma last_due_le:
  "b \<le> d \<Longrightarrow> (\<And>t. t \<in> set xs \<Longrightarrow> tm_due t \<le> d) \<Longrightarrow> last_due b xs \<le> d"
  by (induction xs arbitrary: b) auto

lemma sq_rep_upd_other [simp]:
  "w \<notin> set xs \<Longrightarrow> sq_rep (f(w := v), q) xs = sq_rep (f, q) xs"
  by (simp add: sq_rep_def)

lemma isactive_odd: "WDOG_ISACTIVE w s \<longleftrightarrow> odd (wd_flags s w)"
  by (simp add: WDOG_ISACTIVE_def WDOGF_ACTIVE_def and_one_eq odd_iff_mod_2_eq_one)

lemma isactive_upd [simp]:
  "WDOG_ISACTIVE v (WDOG_SETACTIVE w s) \<longleftrightarrow> v = w \<or> WDOG_ISACTIVE v s"
  "WDOG_ISACTIVE v (WDOG_CLRACTIVE w s) \<longleftrightarrow> v \<noteq> w \<and> WDOG_ISACTIVE v s"
  by (auto simp: isactive_odd WDOG_SETACTIVE_def WDOG_CLRACTIVE_def WDOGF_ACTIVE_def
      even_or_iff even_and_iff)

lemma isactive_other [simp]:
  "WDOG_ISACTIVE v (s\<lparr>wd_next := a\<rparr>) = WDOG_ISACTIVE v s"
  "WDOG_ISACTIVE v (s\<lparr>wd_func := b\<rparr>) = WDOG_ISACTIVE v s"
  "WDOG_ISACTIVE v (s\<lparr>wd_arg := c\<rparr>) = WDOG_ISACTIVE v s"
  "WDOG_ISACTIVE v (s\<lparr>wd_lag := d\<rparr>) = WDOG_ISACTIVE v s"
  "WDOG_ISACTIVE v (s\<lparr>g_wdactivelist := g\<rparr>) = WDOG_ISACTIVE v s"
  "WDOG_ISACTIVE v (wd_set_list l s) = WDOG_ISACTIVE v s"
  "WDOG_ISACTIVE v (wd_add_lag w e s) = WDOG_ISACTIVE v s"
  by (simp_all add: WDOG_ISACTIVE_def wd_set_list_def wd_add_lag_def)

lemma wd_fields [simp]:
  "wd_list (WDOG_SETACTIVE w s) = wd_list s" "wd_list (WDOG_CLRACTIVE w s) = wd_list s"
  "wd_lag (WDOG_SETACTIVE w s) = wd_lag s" "wd_lag (WDOG_CLRACTIVE w s) = wd_lag s"
  "wd_lag (wd_set_list l s) = wd_lag s" "wd_list (wd_set_list l s) = l"
  "wd_list (wd_add_lag w d s) = wd_list s"
  "wd_lag (wd_add_lag w d s) = (wd_lag s)(w := wd_lag s w + d)"
  by (simp_all add: WDOG_SETACTIVE_def WDOG_CLRACTIVE_def wd_set_list_def wd_add_lag_def)

lemma wd_calls_fields [simp]:
  "wd_func (WDOG_SETACTIVE w s) = wd_func s" "wd_func (WDOG_CLRACTIVE w s) = wd_func s"
  "wd_func (wd_set_list l s) = wd_func s" "wd_func (wd_add_lag w d s) = wd_func s"
  "wd_arg (WDOG_SETACTIVE w s) = wd_arg s" "wd_arg (WDOG_CLRACTIVE w s) = wd_arg s"
  "wd_arg (wd_set_list l s) = wd_arg s" "wd_arg (wd_add_lag w d s) = wd_arg s"
  by (simp_all add: WDOG_SETACTIVE_def WDOG_CLRACTIVE_def wd_set_list_def wd_add_lag_def)

section \<open>Cancelling\<close>

lemma wd_search_finds:
  assumes "lseg next cur (ys @ w # zs) NULL" "w \<notin> set ys"
  shows "wd_search next w prev cur = Some (if ys = [] then prev else last ys, w)"
  using assms
proof (induction ys arbitrary: prev cur)
  case Nil
  then show ?case by (subst wd_search.simps) auto
next
  case (Cons y ys)
  then show ?case by (subst wd_search.simps) auto
qed

text \<open>The queue without its timer \<open>t\<close>, whose lag has passed to the timer behind it.\<close>

lemma lags_ok_unlink:
  assumes "lags_ok lag 0 (ys @ t # zs)" "distinct (map tm_id (ys @ t # zs))"
  shows "lags_ok (if zs = [] then lag
      else lag(tm_id (hd zs) := lag (tm_id (hd zs)) + lag (tm_id t))) 0 (ys @ zs)"
proof (cases zs)
  case (Cons z zs')
  with assms show ?thesis by auto
qed (use assms in auto)

lemma wd_rep_split:
  assumes "wd_rep s xs" "w \<in> tm_id ` set xs"
  obtains ys t zs where "xs = ys @ t # zs" "tm_id t = w" "tm_remove w xs = ys @ zs"
    "w \<notin> tm_id ` set (ys @ zs)"
proof -
  obtain t where t: "t \<in> set xs" "tm_id t = w" using assms(2) by auto
  then obtain ys zs where xs: "xs = ys @ t # zs" by (auto dest: split_list)
  have "distinct (map tm_id xs)" using wd_repD(6) [OF assms(1)] .
  then have n: "w \<notin> tm_id ` set (ys @ zs)" using xs t(2) by auto
  then have "filter (\<lambda>t. tm_id t \<noteq> w) ys = ys" "filter (\<lambda>t. tm_id t \<noteq> w) zs = zs"
    by (auto simp: filter_id_conv)
  then have "tm_remove w xs = ys @ zs" using xs t(2) by (simp add: tm_remove_def)
  with xs t(2) n show ?thesis by (intro that)
qed

text \<open>
  What unlinking \<open>t\<close> leaves, given the queue operation that took it off the list. The
  two callers are \<open>wd_cancel\<close> and the expiration loop.
\<close>

lemma wd_unlink_rep:
  assumes rep: "wd_rep s (ys @ t # zs)" and l: "sq_rep l (map tm_id (ys @ zs))"
    and s': "wd_list s' = l" "wd_func s' = wd_func s" "wd_arg s' = wd_arg s"
      "\<And>w. WDOG_ISACTIVE w s' \<longleftrightarrow> w \<noteq> tm_id t \<and> WDOG_ISACTIVE w s"
      "wd_lag s' = (if zs = [] then wd_lag s
         else (wd_lag s)(tm_id (hd zs) := wd_lag s (tm_id (hd zs)) + wd_lag s (tm_id t)))"
  shows "wd_rep s' (ys @ zs)"
proof -
  note r = wd_repD [OF rep]
  have "lags_ok (wd_lag s') 0 (ys @ zs)" unfolding s' by (rule lags_ok_unlink [OF r(2,6)])
  moreover have "sorted (map tm_due (ys @ zs))" using r(3) by (auto simp: sorted_append)
  moreover have "tm_stored s' u" if "u \<in> set (ys @ zs)" for u
    using r(4) [of u] that s' by (auto simp: tm_stored_def)
  moreover have "WDOG_ISACTIVE w s' = (w \<in> tm_id ` set (ys @ zs))" if "w \<noteq> NULL" for w
    using r(5) [OF that] r(6) s'(4) by auto
  ultimately show ?thesis using l s'(1) by (simp add: wd_rep_def)
qed

lemma wd_cancel_rep:
  assumes rep: "wd_rep s xs"
  shows "\<exists>s'. wd_cancel w s = Some (if w \<in> tm_id ` set xs then OK else - EINVAL, s') \<and>
    wd_rep s' (tm_remove w xs)"
proof (cases "w \<in> tm_id ` set xs")
  case False
  then have "tm_remove w xs = xs" by (auto simp: tm_remove_def filter_id_conv)
  with False rep wd_repD(5) [OF rep, of w] show ?thesis by (auto simp: wd_cancel_def)
next
  case True
  note r = wd_repD [OF rep]
  from wd_rep_split [OF rep True] obtain ys t zs where
    xs: "xs = ys @ t # zs" "tm_id t = w" "tm_remove w xs = ys @ zs" "w \<notin> tm_id ` set (ys @ zs)"
    by metis
  have w: "w \<noteq> NULL" "WDOG_ISACTIVE w s" using r(5,7) True by metis+
  have seg: "lseg (wd_next s) (wd_head s) (map tm_id ys @ w # map tm_id zs) NULL"
    using r(9) xs by simp
  have nx: "wd_next s w = hd0 (map tm_id zs)" using lseg_mid(1) [OF seg] .
  have nz: "hd0 (map tm_id zs) \<noteq> NULL \<longleftrightarrow> zs \<noteq> []" "zs \<noteq> [] \<Longrightarrow> hd0 (map tm_id zs) = tm_id (hd zs)"
    using r(7) xs(1) by (cases zs; auto)+
  define s1 where "s1 = (if zs = [] then s else wd_add_lag (wd_next s w) (wd_lag s w) s)"
  define p where "p = (if ys = [] then NULL else tm_id (last ys))"
  define l where "l = (if p \<noteq> NULL then snd (sq_remafter p (wd_list s)) else snd (sq_remfirst (wd_list s)))"
  have p: "p = NULL \<longleftrightarrow> ys = []" using r(7) xs(1) by (auto simp: p_def)
  have "w \<notin> set (map tm_id ys)" using xs(4) by auto
  from wd_search_finds [OF seg this]
  have "wd_search (wd_next s) w NULL (wd_head s) = Some (p, w)" by (simp add: p_def last_map)
  then have eq: "wd_cancel w s = Some (OK, WDOG_CLRACTIVE w
      ((wd_set_list l s1)\<lparr>wd_next := (fst l)(w := NULL)\<rparr>))"
    using w nx nz by (auto simp: wd_cancel_def Let_def l_def s1_def wd_set_list_def)
  have "sq_rep l (map tm_id (ys @ zs))"
  proof (cases ys rule: rev_cases)
    case Nil
    then show ?thesis using sq_rep_remfirst [OF r(1)] xs p by (simp add: l_def)
  next
    case (snoc ys' y)
    then show ?thesis
      using sq_rep_remafter [of "wd_list s" "map tm_id ys'" "tm_id y" w "map tm_id zs"] r(1) xs p
      by (simp add: l_def p_def)
  qed
  then have "sq_rep ((fst l)(w := NULL), snd l) (map tm_id (ys @ zs))"
    using xs(4) by (subst sq_rep_upd_other) auto
  then have "wd_rep (WDOG_CLRACTIVE w ((wd_set_list l s1)\<lparr>wd_next := (fst l)(w := NULL)\<rparr>)) (ys @ zs)"
    using rep xs nx nz
    by (intro wd_unlink_rep [of s ys t zs]) (auto simp: s1_def wd_set_list_def)
  with eq xs True show ?thesis by simp
qed

section \<open>Starting\<close>

lemma wd_advance_shorter_finds:
  assumes "lseg (wd_next s) first (map tm_id (as @ c # bs)) NULL" "lags_ok (wd_lag s) 0 (as @ c # bs)"
    "\<And>t. t \<in> set as \<Longrightarrow> tm_due t \<le> delay" "as \<noteq> [] \<Longrightarrow> prev = tm_id (last as)"
  obtains as' c' bs' prev' where "as @ c # bs = as' @ c' # bs'"
    "wd_advance_shorter s delay prev (tm_id c) (tm_due c) = Some (prev', tm_id c', tm_due c')"
    "as' \<noteq> [] \<Longrightarrow> prev' = tm_id (last as')" "\<And>t. t \<in> set as' \<Longrightarrow> tm_due t \<le> delay"
    "delay < tm_due c' \<or> bs' = []"
  using assms
proof (induction bs arbitrary: as c prev thesis)
  case Nil
  have "wd_next s (tm_id c) = NULL"
    using lseg_mid(1) [of "wd_next s" first "map tm_id as" "tm_id c" "[]"] Nil.prems(2) by simp
  then have "wd_advance_shorter s delay prev (tm_id c) (tm_due c) = Some (prev, tm_id c, tm_due c)"
    by (subst wd_advance_shorter.simps) simp
  then show ?case using Nil.prems(4,5) by (intro Nil.prems(1) [of as c "[]" prev]) auto
next
  case (Cons b bs)
  have nxt: "wd_next s (tm_id c) = tm_id b" "tm_id b \<noteq> NULL"
    using lseg_mid(1) [of "wd_next s" first "map tm_id as" "tm_id c" "map tm_id (b # bs)"] Cons.prems(2)
      lseg_no_null [OF Cons.prems(2)] by auto
  show ?case
  proof (cases "tm_due c \<le> delay")
    case False
    then have "wd_advance_shorter s delay prev (tm_id c) (tm_due c) = Some (prev, tm_id c, tm_due c)"
      by (subst wd_advance_shorter.simps) simp
    then show ?thesis using Cons.prems(4,5) False by (intro Cons.prems(1) [of as c "b # bs" prev]) auto
  next
    case True
    have "tm_due c + wd_lag s (tm_id b) = tm_due b" using Cons.prems(3) by simp
    with True nxt have step: "wd_advance_shorter s delay prev (tm_id c) (tm_due c) =
        wd_advance_shorter s delay (tm_id c) (tm_id b) (tm_due b)"
      by (subst wd_advance_shorter.simps) simp
    show ?thesis
    proof (rule Cons.IH [of "as @ [c]" b "tm_id c"])
      fix as' c' bs' prev'
      assume "(as @ [c]) @ b # bs = as' @ c' # bs'"
        "wd_advance_shorter s delay (tm_id c) (tm_id b) (tm_due b) = Some (prev', tm_id c', tm_due c')"
        "as' \<noteq> [] \<Longrightarrow> prev' = tm_id (last as')" "\<And>t. t \<in> set as' \<Longrightarrow> tm_due t \<le> delay"
        "delay < tm_due c' \<or> bs' = []"
      then show ?thesis using step by (intro Cons.prems(1) [of as' c' bs' prev']) auto
    qed (use Cons.prems(2-4) True in auto)
  qed
qed

lemma tm_insert_split:
  "\<lbrakk> \<And>u. u \<in> set ys \<Longrightarrow> tm_due u \<le> tm_due t; zs \<noteq> [] \<Longrightarrow> tm_due t < tm_due (hd zs) \<rbrakk>
    \<Longrightarrow> tm_insert t (ys @ zs) = ys @ t # zs"
  by (cases zs) (auto simp: tm_insert_def takeWhile_tail dropWhile_append)

text \<open>What linking a new timer between \<open>ys\<close> and \<open>zs\<close> gives.\<close>

lemma wd_link_rep:
  assumes rep: "wd_rep s (ys @ zs)" and w: "w \<notin> tm_id ` set (ys @ zs)" "w \<noteq> NULL"
    and d: "0 \<le> d" "d \<le> INT32_MAX" "\<And>t. t \<in> set ys \<Longrightarrow> tm_due t \<le> d"
      "zs \<noteq> [] \<Longrightarrow> d < tm_due (hd zs)"
    and l: "sq_rep l (map tm_id ys @ w # map tm_id zs)"
    and lag: "lag = d - last_due 0 ys"
    and s': "wd_list s' = l" "wd_func s' = wd_func s" "wd_arg s' = wd_arg s"
      "\<And>v. WDOG_ISACTIVE v s' \<longleftrightarrow> WDOG_ISACTIVE v s"
      "wd_lag s' = (if zs = [] then wd_lag s
         else (wd_lag s)(tm_id (hd zs) := wd_lag s (tm_id (hd zs)) - lag))"
  shows "wd_rep (WDOG_SETACTIVE w (s'\<lparr>wd_lag := (wd_lag s')(w := lag)\<rparr>))
    (tm_insert (Timer w d (wd_func s w) (wd_arg s w)) (ys @ zs))"
proof -
  note r = wd_repD [OF rep]
  let ?t = "Timer w d (wd_func s w) (wd_arg s w)"
  let ?s = "WDOG_SETACTIVE w (s'\<lparr>wd_lag := (wd_lag s')(w := lag)\<rparr>)"
  have "wd_rep ?s (ys @ ?t # zs)"
  proof (rule wd_repI)
    show "sq_rep (wd_list ?s) (map tm_id (ys @ ?t # zs))" using l s'(1) by simp
    show "lags_ok (wd_lag ?s) 0 (ys @ ?t # zs)"
      using r(2,6) w s'(5) lag by (cases zs) (auto simp: image_Un)
    show "sorted (map tm_due (ys @ ?t # zs))"
      using r(3) d(3,4) by (cases zs) (auto simp: sorted_append less_imp_le intro: order_trans)
    show "tm_stored ?s u" if "u \<in> set (ys @ ?t # zs)" for u
      using r(4) [of u] that s'(2,3) d(1,2) by (auto simp: tm_stored_def)
    show "WDOG_ISACTIVE v ?s = (v \<in> tm_id ` set (ys @ ?t # zs))" if "v \<noteq> NULL" for v
      using r(5) [OF that] s'(4) by auto
  qed
  moreover have "tm_insert ?t (ys @ zs) = ys @ ?t # zs"
    using d(3,4) by (intro tm_insert_split) auto
  ultimately show ?thesis by simp
qed

text \<open>Where \<open>wd_insert\<close> stops in a list that is not empty: at the first watchdog due later, or at the last one.\<close>

lemma wd_insert_position:
  assumes rep: "wd_rep s (x # xs)" and d: "0 \<le> d"
  obtains as c bs prev where "x # xs = as @ c # bs" "\<And>t. t \<in> set as \<Longrightarrow> tm_due t \<le> d" "as \<noteq> [] \<Longrightarrow> prev = tm_id (last as)"
    "wd_insert w d s =
       (if d < tm_due c
        then Some (d - last_due 0 as, wd_set_list (if as = [] then sq_addfirst w (wd_list s) else sq_addafter prev w (wd_list s))
               (wd_add_lag (tm_id c) (- (d - last_due 0 as)) s))
        else Some (d - tm_due c, wd_set_list (sq_addlast w (wd_list s)) s))"
    "d < tm_due c \<or> bs = []"
proof -
  note r = wd_repD [OF rep]
  have head: "wd_head s = tm_id x" "tm_id x \<noteq> NULL" using r(7,8) by auto
  have x: "wd_lag s (tm_id x) = tm_due x" "0 \<le> tm_due x"
    using r(2,4) by (auto simp: tm_stored_def)
  then have pos: "wd_advance_positive s (tm_id x) (tm_id x) 0 = Some (tm_id x, tm_id x, tm_due x)"
    by (subst wd_advance_positive.simps) simp
  have seg: "lseg (wd_next s) (wd_head s) (map tm_id ([] @ x # xs)) NULL"
    and lags: "lags_ok (wd_lag s) 0 ([] @ x # xs)" using r(2,9) by auto
  obtain as c bs prev where xs: "[] @ x # xs = as @ c # bs"
    and sh: "wd_advance_shorter s d (tm_id x) (tm_id x) (tm_due x) = Some (prev, tm_id c, tm_due c)"
    and prev: "as \<noteq> [] \<Longrightarrow> prev = tm_id (last as)" and as: "\<And>t. t \<in> set as \<Longrightarrow> tm_due t \<le> d"
    and stop: "d < tm_due c \<or> bs = []"
    by (rule wd_advance_shorter_finds [OF seg lags, of d "tm_id x"]) auto
  have split: "x # xs = as @ c # bs" using xs by simp
  have lagc: "wd_lag s (tm_id c) = tm_due c - last_due 0 as" using r(2) split by simp
  have nxt: "wd_next s (tm_id c) = hd0 (map tm_id bs)"
    using lseg_mid(1) [of "wd_next s" "wd_head s" "map tm_id as" "tm_id c" "map tm_id bs"] r(9) split by simp
  have first: "tm_id c = tm_id x \<longleftrightarrow> as = []" using split r(6) by (cases as) auto
  show ?thesis
    by (rule that [OF split as prev _ stop])
      (use head pos sh lagc first nxt stop in \<open>auto simp: wd_insert_def Let_def wd_add_lag_def\<close>)
qed

lemma wd_insert_rep:
  assumes rep: "wd_rep s xs" and w: "w \<notin> tm_id ` set xs" "w \<noteq> NULL" and d: "0 \<le> d" "d \<le> INT32_MAX"
  obtains lag s' where "wd_insert w d s = Some (lag, s')"
    "wd_rep (WDOG_SETACTIVE w (s'\<lparr>wd_lag := (wd_lag s')(w := lag)\<rparr>))
      (tm_insert (Timer w d (wd_func s w) (wd_arg s w)) xs)"
proof (cases xs)
  case Nil
  note r = wd_repD [OF rep]
  have "wd_insert w d s = Some (d, wd_set_list (sq_addlast w (wd_list s)) s)"
    using r(8) Nil by (simp add: wd_insert_def)
  moreover have "sq_rep (sq_addlast w (wd_list s)) [w]"
    using sq_rep_addlast [OF r(1) w(2)] Nil by simp
  ultimately show ?thesis
    using wd_link_rep [of s "[]" "[]" w d] rep w d Nil that by simp
next
  case (Cons x xs')
  note r = wd_repD [OF rep]
  obtain as c bs prev where p: "x # xs' = as @ c # bs" "\<And>t. t \<in> set as \<Longrightarrow> tm_due t \<le> d" "as \<noteq> [] \<Longrightarrow> prev = tm_id (last as)"
    and ins: "wd_insert w d s = (if d < tm_due c
        then Some (d - last_due 0 as, wd_set_list (if as = [] then sq_addfirst w (wd_list s) else sq_addafter prev w (wd_list s))
               (wd_add_lag (tm_id c) (- (d - last_due 0 as)) s))
        else Some (d - tm_due c, wd_set_list (sq_addlast w (wd_list s)) s))" and stop: "d < tm_due c \<or> bs = []"
    by (rule wd_insert_position [OF rep [unfolded Cons] d(1), of w]) (rule that)
  have split: "xs = as @ c # bs" using Cons p(1) by simp
  show ?thesis
  proof (cases "d < tm_due c")
    case True
    define l where "l = (if as = [] then sq_addfirst w (wd_list s) else sq_addafter prev w (wd_list s))"
    have "sq_rep l (map tm_id as @ w # map tm_id (c # bs))"
    proof (cases as rule: rev_cases)
      case Nil
      then show ?thesis using sq_rep_addfirst [OF r(1) w(2)] w(1) split by (simp add: l_def image_iff)
    next
      case (snoc as' p')
      then show ?thesis
        using sq_rep_addafter [of "wd_list s" "map tm_id as'" "tm_id p'" "map tm_id (c # bs)" w]
          r(1) w split p(3) by (simp add: l_def image_Un)
    qed
    with ins [unfolded if_P [OF True], folded l_def] show ?thesis
      using rep w d p(2) True
      by (intro that) (assumption, unfold split, rule wd_link_rep [of s as "c # bs" w d l], auto)
  next
    case False
    then have bs: "bs = []" using stop by simp
    let ?l = "sq_addlast w (wd_list s)"
    have "sq_rep ?l (map tm_id (as @ [c]) @ w # map tm_id [])"
      using sq_rep_addlast [OF r(1) w(2)] w(1) split bs by (simp add: image_iff)
    moreover have "tm_due t \<le> d" if "t \<in> set (as @ [c])" for t using p(2) False that by auto
    moreover have "wd_rep s ((as @ [c]) @ [])" "xs = (as @ [c]) @ []" using rep split bs by simp_all
    ultimately show ?thesis
      using ins [unfolded if_not_P [OF False]] wd_link_rep [of s "as @ [c]" "[]" w d ?l "d - tm_due c" "wd_set_list ?l s"] w d that by simp
  qed
qed

lemma wd_ticks_value:
  assumes "0 \<le> delay" "delay \<le> INT32_MAX"
  shows "wd_ticks delay = min (delay + 1) INT32_MAX" "1 \<le> wd_ticks delay"
    "wd_ticks delay \<le> INT32_MAX"
proof -
  have "delay = INT32_MAX \<or> delay < INT32_MAX" using assms(2) by auto
  then show e: "wd_ticks delay = min (delay + 1) INT32_MAX"
    using assms by (auto simp: wd_ticks_def wrap32_def INT32_MAX_def Let_def)
  show "1 \<le> wd_ticks delay" "wd_ticks delay \<le> INT32_MAX"
    using assms by (auto simp: e INT32_MAX_def)
qed

lemma wd_start_rep:
  assumes rep: "wd_rep s xs" and d: "delay \<le> INT32_MAX"
  shows "\<exists>s'. wd_start w delay f a s = Some (if w = NULL \<or> delay < 0 then - EINVAL else OK, s') \<and>
    wd_rep s' (if w = NULL \<or> delay < 0 then xs else tm_start w (wd_ticks delay) f a xs)"
proof (cases "w = NULL \<or> delay < 0")
  case True
  with rep show ?thesis by (auto simp: wd_start_def)
next
  case False
  obtain r1 s1 where c: "(if WDOG_ISACTIVE w s then wd_cancel w s else Some (OK, s)) = Some (r1, s1)"
    and rep1: "wd_rep s1 (tm_remove w xs)"
  proof (cases "WDOG_ISACTIVE w s")
    case True
    with wd_cancel_rep [OF rep, of w] that show ?thesis by auto
  next
    case F: False
    then have "tm_remove w xs = xs"
      using wd_repD(5) [OF rep, of w] False by (auto simp: tm_remove_def filter_id_conv)
    with F rep that show ?thesis by auto
  qed
  let ?s2 = "s1\<lparr>wd_func := (wd_func s1)(w := f), wd_arg := (wd_arg s1)(w := a)\<rparr>"
  have n: "w \<notin> tm_id ` set (tm_remove w xs)" by (auto simp: tm_remove_def)
  have rep2: "wd_rep ?s2 (tm_remove w xs)"
    using rep1 n by (auto simp: wd_rep_def tm_stored_def)
  obtain lag s3 where "wd_insert w (wd_ticks delay) ?s2 = Some (lag, s3)"
    "wd_rep (WDOG_SETACTIVE w (s3\<lparr>wd_lag := (wd_lag s3)(w := lag)\<rparr>)) (tm_start w (wd_ticks delay) f a xs)"
    using wd_insert_rep [OF rep2 n, of "wd_ticks delay"] wd_ticks_value [of delay] d False
    by (auto simp: tm_start_def)
  with c False show ?thesis by (simp add: wd_start_def Let_def)
qed

section \<open>Remaining time\<close>

definition tm_time :: "ptr \<Rightarrow> wd_tm list \<Rightarrow> int" where
  "tm_time w xs = (case filter (\<lambda>t. tm_id t = w) xs of [] \<Rightarrow> 0 | t # _ \<Rightarrow> tm_due t)"

lemma wd_gettime_loop_time:
  assumes "lseg (wd_next s) cur (map tm_id xs) NULL" "lags_ok (wd_lag s) b xs"
  shows "wd_gettime_loop s elapse w cur b =
    Some (if w \<in> tm_id ` set xs then tm_time w xs - elapse else 0)"
  using assms
proof (induction xs arbitrary: cur b)
  case Nil
  then show ?case by (subst wd_gettime_loop.simps) simp
next
  case (Cons x xs)
  then have "lseg (wd_next s) cur (tm_id x # map tm_id xs) NULL" by simp
  note l = lseg_ConsD [OF this]
  have "b + wd_lag s (tm_id x) = tm_due x" using Cons.prems(2) by simp
  with l Cons.IH [of "wd_next s (tm_id x)" "tm_due x"] Cons.prems show ?case
    by (subst wd_gettime_loop.simps) (auto simp: tm_time_def)
qed

lemma wd_gettime_rep:
  assumes "wd_rep s xs"
  shows "wd_gettime 0 w s = Some (tm_time w xs)"
proof (cases "w \<in> tm_id ` set xs")
  case True
  note r = wd_repD [OF assms]
  have "w \<noteq> NULL" using True r(7) by metis
  with True r(5) [OF this] wd_gettime_loop_time [OF r(9,2), of 0 w] show ?thesis
    by (simp add: wd_gettime_def)
next
  case False
  then have "filter (\<lambda>t. tm_id t = w) xs = []" by (auto simp: filter_empty_conv)
  with False wd_repD(5) [OF assms, of w] show ?thesis by (auto simp: wd_gettime_def tm_time_def)
qed

section \<open>Expiration\<close>

lemma wd_pop_rep:
  assumes rep: "wd_rep s (t # ts)" and pop: "wd_pop s = (w, s')"
  shows "w = tm_id t" "wd_rep s' ts" "wd_func s' w = tm_func t" "wd_arg s' w = tm_arg t"
proof -
  note r = wd_repD [OF rep]
  obtain l where rf: "sq_remfirst (wd_list s) = (tm_id t, l)" "sq_rep l (map tm_id ts)"
    using sq_rep_remfirst [OF r(1)] by (cases "sq_remfirst (wd_list s)") auto
  have nz: "hd0 (map tm_id ts) \<noteq> NULL \<longleftrightarrow> ts \<noteq> []" "ts \<noteq> [] \<Longrightarrow> hd0 (map tm_id ts) = tm_id (hd ts)"
    using r(7) by (cases ts; auto)+
  have h: "sq_head (snd l) = hd0 (map tm_id ts)"
    using sq_repD(3) [of "fst l" "snd l"] rf(2) by simp
  let ?s1 = "wd_set_list l s"
  have s': "w = tm_id t" "s' = WDOG_CLRACTIVE w (if ts = [] then ?s1
      else wd_add_lag (tm_id (hd ts)) (wd_lag s (tm_id t)) ?s1)"
    using pop rf(1) nz h by (auto simp: wd_pop_def wd_set_list_def Let_def)
  show "w = tm_id t" "wd_func s' w = tm_func t" "wd_arg s' w = tm_arg t"
    using s' r(4) [of t] by (auto simp: tm_stored_def)
  have "wd_rep s' ([] @ ts)"
    using rf(2) s' rep by (intro wd_unlink_rep [of s "[]" t ts]) auto
  then show "wd_rep s' ts" by simp
qed

text \<open>
  The specification of a timer interrupt: every timer comes one tick closer, then the
  timers that are due are removed and called, one after the other. What a called
  function does to the timers is \<open>acb\<close>.
\<close>

type_synonym tm_callback = "ptr \<Rightarrow> wdparm \<Rightarrow> wd_tm list \<Rightarrow> wd_tm list"

partial_function (option) tm_fire :: "tm_callback \<Rightarrow> wd_tm list \<Rightarrow> (wd_call list \<times> wd_tm list) option" where
  "tm_fire acb xs =
     (if xs \<noteq> [] \<and> tm_due (hd xs) \<le> 0
      then let t = hd xs in
        Option.bind (tm_fire acb (acb (tm_func t) (tm_arg t) (tl xs))) (\<lambda>(calls, ys).
        Some ((tm_id t, tm_func t, tm_arg t) # calls, ys))
      else Some ([], xs))"

definition tm_tick :: "tm_callback \<Rightarrow> wd_tm list \<Rightarrow> (wd_call list \<times> wd_tm list) option" where
  "tm_tick acb xs = tm_fire acb (tm_advance 1 xs)"

primrec tm_ticks :: "tm_callback \<Rightarrow> nat \<Rightarrow> wd_tm list \<Rightarrow> (wd_call list \<times> wd_tm list) option" where
  "tm_ticks acb 0 xs = Some ([], xs)"
| "tm_ticks acb (Suc n) xs =
     Option.bind (tm_tick acb xs) (\<lambda>(calls, ys).
     Option.bind (tm_ticks acb n ys) (\<lambda>(calls', zs). Some (calls @ calls', zs)))"

definition tm_pending :: "wd_tm list \<Rightarrow> nat" where
  "tm_pending xs = length (filter (\<lambda>t. tm_due t \<le> 0) xs)"

definition tm_live :: "wd_tm list \<Rightarrow> bool" where
  "tm_live xs \<longleftrightarrow> list_all (\<lambda>t. 0 < tm_due t) xs"

lemma tm_advance_simps [simp]:
  "tm_advance n [] = []" "tm_advance n (t # ts) = Timer (tm_id t) (tm_due t - n) (tm_func t) (tm_arg t) # tm_advance n ts"
  "map tm_id (tm_advance n xs) = map tm_id xs" "tm_id ` set (tm_advance n xs) = tm_id ` set xs"
  "tm_advance n (tm_advance m xs) = tm_advance (n + m) xs" "tm_advance 0 xs = xs"
  "length (tm_advance n xs) = length xs"
  by (auto simp: tm_advance_def image_image comp_def algebra_simps)

lemma wd_advance_rep:
  assumes rep: "wd_rep s (t # ts)" and n: "0 \<le> n" "n \<le> tm_due t"
  shows "wd_rep (wd_add_lag (wd_head s) (- n) s) (tm_advance n (t # ts))"
proof (rule wd_repI)
  note r = wd_repD [OF rep]
  let ?s = "wd_add_lag (wd_head s) (- n) s"
  show "sq_rep (wd_list ?s) (map tm_id (tm_advance n (t # ts)))" using r(1) by simp
  have "lags_ok (wd_lag s) (tm_due t - n) (tm_advance n ts)" using r(2) by (simp add: lags_ok_advance)
  then show "lags_ok (wd_lag ?s) 0 (tm_advance n (t # ts))" using r(2,6,8) by simp
  show "sorted (map tm_due (tm_advance n (t # ts)))"
    using r(3) by (auto simp: tm_advance_def sorted_map comp_def sorted_wrt_map)
  show "tm_stored ?s u" if u: "u \<in> set (tm_advance n (t # ts))" for u
  proof -
    obtain v where "v \<in> set (t # ts)"
      "u = Timer (tm_id v) (tm_due v - n) (tm_func v) (tm_arg v)"
      using u unfolding tm_advance_def set_map by (elim imageE) simp
    moreover have "tm_due t \<le> tm_due v" if "v \<in> set (t # ts)" for v using r(3) that by auto
    ultimately show ?thesis using r(4) n by (force simp: tm_stored_def)
  qed
  show "WDOG_ISACTIVE w ?s = (w \<in> tm_id ` set (tm_advance n (t # ts)))" if "w \<noteq> NULL" for w
    using r(5) [OF that] by simp
qed

lemma tm_ticks_quiet:
  assumes "\<And>t. t \<in> set xs \<Longrightarrow> int n < tm_due t"
  shows "tm_ticks acb n xs = Some ([], tm_advance (int n) xs)"
  using assms
proof (induction n arbitrary: xs)
  case (Suc n)
  have "tm_fire acb (tm_advance 1 xs) = Some ([], tm_advance 1 xs)"
  proof (cases xs)
    case (Cons t ts)
    then have "int (Suc n) < tm_due t" using Suc.prems by simp
    with Cons show ?thesis by (subst tm_fire.simps) simp
  qed (subst tm_fire.simps, simp)
  moreover have "tm_ticks acb n (tm_advance 1 xs) = Some ([], tm_advance (int n) (tm_advance 1 xs))"
    using Suc.prems by (intro Suc.IH) (force simp: tm_advance_def)
  ultimately show ?case by (simp add: tm_tick_def add.commute)
qed simp

lemma tm_ticks_add:
  "tm_ticks acb (m + n) xs = Option.bind (tm_ticks acb m xs) (\<lambda>(calls, ys).
     Option.bind (tm_ticks acb n ys) (\<lambda>(calls', zs). Some (calls @ calls', zs)))"
proof (induction m arbitrary: xs)
  case 0
  then show ?case by (cases "tm_ticks acb n xs") auto
next
  case (Suc m)
  then show ?case by (auto simp: bind_eq_Some_conv split: prod.splits Option.bind_splits)
qed

text \<open>
  What the timer interrupt relies on: a watchdog function acts on the watchdog state
  through operations that keep the representation, and it starts no timer that is
  already due.
\<close>

locale wd_functions =
  fixes cb :: wd_callback and acb :: tm_callback
  assumes cb_rep: "wd_rep s xs \<Longrightarrow> \<exists>s'. cb f a s = Some s' \<and> wd_rep s' (acb f a xs)"
    and cb_pending: "tm_pending (acb f a xs) \<le> tm_pending xs"
begin

lemma expiration_loop_refines:
  assumes "wd_rep s xs"
  shows "\<exists>calls ys s'. tm_fire acb xs = Some (calls, ys) \<and>
    wd_expiration_loop cb s = Some (calls, s') \<and> wd_rep s' ys \<and> tm_live ys"
  using assms
proof (induction "tm_pending xs" arbitrary: s xs rule: less_induct)
  case less
  note r = wd_repD [OF less.prems]
  show ?case
  proof (cases xs)
    case Nil
    with r(8) less.prems show ?thesis
      by (subst wd_expiration_loop.simps, subst tm_fire.simps) (auto simp: tm_live_def)
  next
    case (Cons t ts)
    have head: "wd_head s = tm_id t" "tm_id t \<noteq> NULL" "wd_lag s (tm_id t) = tm_due t"
      using r(2,7,8) Cons by auto
    show ?thesis
    proof (cases "tm_due t \<le> 0")
      case False
      then have "tm_live xs" using r(3) Cons by (auto simp: tm_live_def list_all_iff)
      with False head Cons less.prems show ?thesis
        by (subst wd_expiration_loop.simps, subst tm_fire.simps) auto
    next
      case True
      let ?ys = "acb (tm_func t) (tm_arg t) ts"
      obtain w s1 where pop: "wd_pop s = (w, s1)" by (metis surj_pair)
      note p = wd_pop_rep [OF less.prems [unfolded Cons] pop]
      obtain s2 where s2: "cb (tm_func t) (tm_arg t) s1 = Some s2" "wd_rep s2 ?ys"
        using cb_rep [OF p(2)] by blast
      have "tm_pending ts < tm_pending xs" using True Cons by (auto simp: tm_pending_def)
      with cb_pending have "tm_pending ?ys < tm_pending xs" by (rule le_less_trans)
      from less.hyps [OF this s2(2)] obtain calls ys s3 where
        "tm_fire acb ?ys = Some (calls, ys)" "wd_expiration_loop cb s2 = Some (calls, s3)"
        "wd_rep s3 ys" "tm_live ys" by blast
      with True head p(1,3,4) pop s2(1) Cons show ?thesis
        by (subst wd_expiration_loop.simps, subst tm_fire.simps) (auto simp: Let_def)
    qed
  qed
qed

lemma expiration_refines:
  assumes "wd_rep s xs" "xs \<noteq> []"
  shows "\<exists>calls ys s'. tm_fire acb xs = Some (calls, ys) \<and>
    wd_expiration cb s = Some (calls, s') \<and> wd_rep s' ys \<and> tm_live ys"
proof (cases "wd_lag s (wd_head s) \<le> 0")
  case True
  with expiration_loop_refines [OF assms(1)] show ?thesis by (simp add: wd_expiration_def)
next
  case False
  then have "wd_expiration cb s = wd_expiration_loop cb s"
    by (subst wd_expiration_loop.simps) (simp add: wd_expiration_def)
  with expiration_loop_refines [OF assms(1)] show ?thesis by simp
qed

lemma timer_refines:
  assumes rep: "wd_rep s xs" and live: "tm_live xs"
  shows "\<exists>calls ys s'. tm_tick acb xs = Some (calls, ys) \<and>
    wd_timer cb s = Some (calls, s') \<and> wd_rep s' ys \<and> tm_live ys"
proof (cases xs)
  case Nil
  with rep wd_repD(8) [OF rep] show ?thesis
    by (subst tm_tick_def, subst tm_fire.simps) (auto simp: wd_timer_def tm_live_def)
next
  case (Cons t ts)
  have "wd_head s \<noteq> NULL" using wd_repD(7,8) [OF rep] Cons by simp
  moreover have "wd_rep (wd_add_lag (wd_head s) (- 1) s) (tm_advance 1 xs)"
    using wd_advance_rep [of s t ts 1] rep live Cons by (simp add: tm_live_def)
  ultimately show ?thesis
    using expiration_refines [of "wd_add_lag (wd_head s) (- 1) s" "tm_advance 1 xs"] Cons
    by (simp add: wd_timer_def tm_tick_def)
qed

text \<open>
  The tickless timer, called after \<open>n\<close> ticks, makes the calls that \<open>n\<close> periodic interrupts
  make.
\<close>

lemma timer_loop_refines:
  assumes "wd_rep s xs" "tm_live xs"
  shows "\<exists>calls ys s' m. tm_ticks acb n xs = Some (calls, ys) \<and>
    wd_timer_loop cb base (int n) s = Some (calls, base + int n - m, m, s') \<and> wd_rep s' ys \<and> tm_live ys"
  using assms
proof (induction n arbitrary: s xs base rule: less_induct)
  case (less n)
  note r = wd_repD [OF less.prems(1)]
  show ?case
  proof (cases "xs = [] \<or> n = 0")
    case True
    then have "tm_ticks acb n xs = Some ([], xs)"
      using tm_ticks_quiet [of "[]" n acb] by auto
    moreover have "wd_timer_loop cb base (int n) s = Some ([], base, int n, s)"
      using True r(8) by (subst wd_timer_loop.simps) auto
    ultimately show ?thesis using less.prems by (auto intro: exI [of _ "int n"])
  next
    case False
    then obtain t ts where xs: "xs = t # ts" by (cases xs) auto
    have head: "wd_head s = tm_id t" "wd_head s \<noteq> NULL" "wd_lag s (tm_id t) = tm_due t"
      using r(2,7,8) xs by auto
    have pos: "0 < tm_due t" using less.prems(2) xs by (simp add: tm_live_def)
    define d where "d = nat (min (tm_due t) (int n))"
    have d: "0 < d" "d \<le> n" "int d = min (tm_due t) (int n)" "int d \<le> tm_due t"
      using pos False by (auto simp: d_def)
    have quiet: "tm_ticks acb (d - 1) xs = Some ([], tm_advance (int (d - 1)) xs)"
    proof (rule tm_ticks_quiet)
      fix u assume "u \<in> set xs"
      then have "tm_due t \<le> tm_due u" using r(3) xs by auto
      then show "int (d - 1) < tm_due u" using d by linarith
    qed
    have adv: "tm_advance 1 (tm_advance (int (d - 1)) xs) = tm_advance (int d) xs"
      using d(1) by (simp add: of_nat_diff)
    have "wd_rep (wd_add_lag (wd_head s) (- int d) s) (tm_advance (int d) xs)"
      using wd_advance_rep [of s t ts "int d"] less.prems(1) xs d by simp
    from expiration_refines [OF this] xs obtain c1 ys s1 where
      f: "tm_fire acb (tm_advance (int d) xs) = Some (c1, ys)"
      "wd_expiration cb (wd_add_lag (wd_head s) (- int d) s) = Some (c1, s1)" "wd_rep s1 ys" "tm_live ys"
      by auto
    have "tm_ticks acb ((d - 1) + 1) xs = Some (c1, ys)"
      unfolding tm_ticks_add quiet using f(1) adv by (simp add: tm_tick_def)
    then have ticks: "tm_ticks acb d xs = Some (c1, ys)" using d(1) by simp
    obtain c2 zs s2 m where g: "tm_ticks acb (n - d) ys = Some (c2, zs)"
      "wd_timer_loop cb (base + int d) (int (n - d)) s1 = Some (c2, base + int d + int (n - d) - m, m, s2)"
      "wd_rep s2 zs" "tm_live zs"
      using less.IH [OF _ f(3,4), of "n - d" "base + int d"] d(1) False by auto
    have "tm_ticks acb (d + (n - d)) xs = Some (c1 @ c2, zs)"
      unfolding tm_ticks_add ticks using g(1) by simp
    moreover obtain k where k: "n = d + k" using d(2) le_Suc_ex by blast
    have "min (wd_lag s (wd_head s)) (int d + int k) = int d" using head d(3) k by simp
    then have "wd_timer_loop cb base (int n) s = Some (c1 @ c2, base + int n - m, m, s2)"
      using head(2) d(1) f(2) g(2) k by (subst wd_timer_loop.simps) (simp add: Let_def add.assoc)
    ultimately show ?thesis using g(3,4) d(2) by auto
  qed
qed

end

section \<open>Programs of watchdog calls\<close>

text \<open>
  The calls a client or a watchdog function makes; the delay is an \<open>int32_t\<close>. A watchdog
  function is given by \<open>prog\<close>, the calls it makes when it runs.
\<close>

datatype wd_op = WStart ptr "32 word" ptr wdparm | WCancel ptr

fun wd_do :: "wd_op \<Rightarrow> wd_state \<Rightarrow> (int \<times> wd_state) option" where
  "wd_do (WStart w delay f a) s = wd_start w (sint delay) f a s"
| "wd_do (WCancel w) s = wd_cancel w s"

fun tm_do :: "wd_op \<Rightarrow> wd_tm list \<Rightarrow> int \<times> wd_tm list" where
  "tm_do (WStart w delay f a) xs =
     (if w = NULL \<or> sint delay < 0 then (- EINVAL, xs)
      else (OK, tm_start w (wd_ticks (sint delay)) f a xs))"
| "tm_do (WCancel w) xs = (if w \<in> tm_id ` set xs then OK else - EINVAL, tm_remove w xs)"

fun wd_script :: "wd_op list \<Rightarrow> wd_state \<Rightarrow> wd_state option" where
  "wd_script [] s = Some s"
| "wd_script (e # es) s = Option.bind (wd_do e s) (\<lambda>(_, s'). wd_script es s')"

fun tm_script :: "wd_op list \<Rightarrow> wd_tm list \<Rightarrow> wd_tm list" where
  "tm_script [] xs = xs"
| "tm_script (e # es) xs = tm_script es (snd (tm_do e xs))"

type_synonym wd_prog = "ptr \<Rightarrow> wdparm \<Rightarrow> wd_op list"

datatype wd_event = Call wd_op | Tick
datatype wd_out = Returned int | Expired "wd_call list"

fun wd_step :: "wd_prog \<Rightarrow> wd_event \<Rightarrow> wd_state \<Rightarrow> (wd_out \<times> wd_state) option" where
  "wd_step prog (Call e) s = Option.bind (wd_do e s) (\<lambda>(r, s'). Some (Returned r, s'))"
| "wd_step prog Tick s =
     Option.bind (wd_timer (\<lambda>f a. wd_script (prog f a)) s) (\<lambda>(c, s'). Some (Expired c, s'))"

fun tm_step :: "wd_prog \<Rightarrow> wd_event \<Rightarrow> wd_tm list \<Rightarrow> (wd_out \<times> wd_tm list) option" where
  "tm_step prog (Call e) xs = (let (r, ys) = tm_do e xs in Some (Returned r, ys))"
| "tm_step prog Tick xs =
     Option.bind (tm_tick (\<lambda>f a. tm_script (prog f a)) xs) (\<lambda>(c, ys). Some (Expired c, ys))"

fun opt_run :: "('e \<Rightarrow> 's \<Rightarrow> ('o \<times> 's) option) \<Rightarrow> 'e list \<Rightarrow> 's \<Rightarrow> ('o list \<times> 's) option" where
  "opt_run step [] s = Some ([], s)"
| "opt_run step (e # es) s =
     Option.bind (step e s) (\<lambda>(out, s').
     Option.bind (opt_run step es s') (\<lambda>(outs, s''). Some (out # outs, s'')))"

lemma sint_int32: "sint (d :: 32 word) \<le> INT32_MAX"
  using sint_less [of d] by (simp add: INT32_MAX_def)

lemma wd_do_rep:
  assumes "wd_rep s xs"
  shows "\<exists>s'. wd_do e s = Some (fst (tm_do e xs), s') \<and> wd_rep s' (snd (tm_do e xs))"
proof (cases e)
  case (WStart w d f a)
  then show ?thesis using wd_start_rep [OF assms sint_int32, of w d f a] by auto
next
  case (WCancel w)
  then show ?thesis using wd_cancel_rep [OF assms, of w] by auto
qed

lemma wd_script_rep:
  "wd_rep s xs \<Longrightarrow> \<exists>s'. wd_script es s = Some s' \<and> wd_rep s' (tm_script es xs)"
proof (induction es arbitrary: s xs)
  case (Cons e es)
  then show ?case using wd_do_rep [OF Cons.prems, of e] by fastforce
qed auto

lemma filter_tm_insert:
  "length (filter P (tm_insert t xs)) = length (filter P (t # xs))"
  using arg_cong [OF takeWhile_dropWhile_id [of "\<lambda>u. tm_due u \<le> tm_due t" xs], of "\<lambda>xs. length (filter P xs)"]
  by (simp add: tm_insert_def del: takeWhile_dropWhile_id)

lemma tm_do_pending: "tm_pending (snd (tm_do e xs)) \<le> tm_pending xs"
proof -
  have rm: "tm_pending (tm_remove w xs) \<le> tm_pending xs" for w
    by (induction xs) (auto simp: tm_pending_def tm_remove_def)
  show ?thesis
  proof (cases e)
    case (WStart w d f a)
    have "1 \<le> wd_ticks (sint d)" if "0 \<le> sint d" using wd_ticks_value [OF that sint_int32] by simp
    with rm [of w] WStart show ?thesis
      by (auto simp: tm_start_def tm_pending_def filter_tm_insert not_less)
  qed (use rm in auto)
qed

lemma tm_script_pending: "tm_pending (tm_script es xs) \<le> tm_pending xs"
  by (induction es arbitrary: xs) (auto intro: order_trans [OF _ tm_do_pending])

interpretation wd_prog: wd_functions "\<lambda>f a. wd_script (prog f a)" "\<lambda>f a. tm_script (prog f a)"
  for prog :: wd_prog
  by unfold_locales (auto intro: wd_script_rep tm_script_pending)

lemma tm_insert_set [simp]: "set (tm_insert t xs) = insert t (set xs)"
proof -
  have "set (takeWhile P xs) \<union> set (dropWhile P xs) = set xs" for P
    by (metis set_append takeWhile_dropWhile_id)
  then show ?thesis by (auto simp: tm_insert_def)
qed

lemma tm_do_live: "tm_live xs \<Longrightarrow> tm_live (snd (tm_do e xs))"
proof (cases e)
  case (WStart w d f a)
  moreover have "1 \<le> wd_ticks (sint d)" if "0 \<le> sint d" using wd_ticks_value [OF that sint_int32] by simp
  moreover assume "tm_live xs"
  ultimately show ?thesis by (force simp: tm_live_def tm_start_def tm_remove_def list_all_iff)
qed (auto simp: tm_live_def tm_remove_def list_all_iff)

lemma wd_step_refines:
  assumes "wd_rep s xs" "tm_live xs"
  shows "\<exists>out ys s'. tm_step prog e xs = Some (out, ys) \<and> wd_step prog e s = Some (out, s') \<and>
    wd_rep s' ys \<and> tm_live ys"
proof (cases e)
  case (Call c)
  then show ?thesis
    using wd_do_rep [OF assms(1), of c] tm_do_live [OF assms(2), of c] by (auto split: prod.splits)
next
  case Tick
  then show ?thesis using wd_prog.timer_refines [OF assms, of prog] by auto
qed

lemma wd_run_rep:
  assumes "wd_rep s xs" "tm_live xs"
  shows "\<exists>outs ys s'. opt_run (tm_step prog) es xs = Some (outs, ys) \<and>
    opt_run (wd_step prog) es s = Some (outs, s') \<and> wd_rep s' ys \<and> tm_live ys"
  using assms
proof (induction es arbitrary: s xs)
  case (Cons e es)
  from wd_step_refines [OF Cons.prems, of prog e] obtain out ys s1 where
    1: "tm_step prog e xs = Some (out, ys)" "wd_step prog e s = Some (out, s1)" "wd_rep s1 ys" "tm_live ys"
    by blast
  from Cons.IH [OF 1(3,4)] 1(1,2) show ?case by auto
qed auto

lemma wd_initialize_rep:
  assumes "\<And>w. \<not> WDOG_ISACTIVE w s"
  shows "wd_rep (wd_initialize s) []" "tm_live []"
  using assms sq_rep_init by (auto simp: wd_rep_def wd_initialize_def tm_live_def)

section \<open>The life of one watchdog\<close>

definition tm_of :: "ptr \<Rightarrow> wd_tm list \<Rightarrow> wd_tm list" where
  "tm_of w xs = filter (\<lambda>t. tm_id t = w) xs"

fun wd_target :: "wd_op \<Rightarrow> ptr" where
  "wd_target (WStart w delay f a) = w"
| "wd_target (WCancel w) = w"

definition leaves_alone :: "ptr \<Rightarrow> wd_op list \<Rightarrow> bool" where
  "leaves_alone w es \<longleftrightarrow> list_all (\<lambda>e. wd_target e \<noteq> w) es"

fun event_ops :: "wd_event list \<Rightarrow> wd_op list" where
  "event_ops [] = []"
| "event_ops (Call e # es) = e # event_ops es"
| "event_ops (Tick # es) = event_ops es"

fun event_ticks :: "wd_event list \<Rightarrow> nat" where
  "event_ticks [] = 0"
| "event_ticks (Call e # es) = event_ticks es"
| "event_ticks (Tick # es) = Suc (event_ticks es)"

fun called :: "wd_out list \<Rightarrow> wd_call list" where
  "called [] = []"
| "called (Returned r # os) = called os"
| "called (Expired cs # os) = cs @ called os"

lemma tm_of_insert: "tm_id t \<noteq> w \<Longrightarrow> tm_of w (tm_insert t xs) = tm_of w xs"
  by (induction xs) (auto simp: tm_of_def tm_insert_def)

lemma tm_of_remove: "tm_of w (tm_remove v xs) = (if v = w then [] else tm_of w xs)"
  by (induction xs) (auto simp: tm_of_def tm_remove_def)

lemma tm_of_advance:
  "tm_of w (tm_advance n xs) = tm_advance n (tm_of w xs)"
  by (induction xs) (auto simp: tm_of_def)

lemma tm_of_start:
  "tm_of w (tm_start v d f a xs) = (if v = w then [Timer w d f a] else tm_of w xs)"
proof (cases "v = w")
  case True
  have "tm_id t \<noteq> w" if "t \<in> set (tm_remove w xs)" for t using that by (auto simp: tm_remove_def)
  then have "tm_of w (takeWhile P (tm_remove w xs)) = []" "tm_of w (dropWhile P (tm_remove w xs)) = []" for P
    by (auto simp: tm_of_def filter_empty_conv dest: set_takeWhileD set_dropWhileD)
  with True show ?thesis by (simp add: tm_start_def tm_insert_def) (simp add: tm_of_def)
qed (simp add: tm_start_def tm_of_insert tm_of_remove)

lemma tm_do_other: "wd_target e \<noteq> w \<Longrightarrow> tm_of w (snd (tm_do e xs)) = tm_of w xs"
  by (cases e) (auto simp: tm_of_start tm_of_remove)

lemma tm_script_other: "leaves_alone w es \<Longrightarrow> tm_of w (tm_script es xs) = tm_of w xs"
  by (induction es arbitrary: xs) (auto simp: leaves_alone_def tm_do_other)

text \<open>
  One round of expirations either leaves the watchdog's timer as it is and does not call
  it, or it calls it and the timer is gone.
\<close>

lemma tm_fire_one:
  assumes "tm_fire acb xs = Some (calls, zs)" "length (tm_of w xs) \<le> 1"
    and acb: "\<And>f a ys. tm_of w (acb f a ys) = tm_of w ys"
      "\<And>f a ys. tm_pending (acb f a ys) \<le> tm_pending ys"
  shows "tm_of w zs = tm_of w xs \<and> w \<notin> fst ` set calls \<or>
    (\<exists>t. tm_of w xs = [t] \<and> tm_due t \<le> 0 \<and> tm_of w zs = [] \<and> (w, tm_func t, tm_arg t) \<in> set calls)"
  using assms(1,2)
proof (induction "tm_pending xs" arbitrary: xs calls rule: less_induct)
  case less
  show ?case
  proof (cases "xs \<noteq> [] \<and> tm_due (hd xs) \<le> 0")
    case True
    then obtain t ts where xs: "xs = t # ts" "tm_due t \<le> 0" by (cases xs) auto
    let ?ys = "acb (tm_func t) (tm_arg t) ts"
    have "Option.bind (tm_fire acb ?ys) (\<lambda>(calls, ys). Some ((tm_id t, tm_func t, tm_arg t) # calls, ys)) =
        Some (calls, zs)"
      using less.prems(1) xs by (subst (asm) tm_fire.simps) simp
    then obtain c1 where c1: "tm_fire acb ?ys = Some (c1, zs)" "calls = (tm_id t, tm_func t, tm_arg t) # c1"
      by (auto simp: bind_eq_Some_conv)
    have "tm_pending ts < tm_pending xs" using xs by (simp add: tm_pending_def)
    with acb(2) have p: "tm_pending ?ys < tm_pending xs" by (rule le_less_trans)
    have len: "length (tm_of w ?ys) \<le> 1"
      using less.prems(2) xs acb(1) by (auto simp: tm_of_def split: if_splits)
    note ih = less.hyps [OF p c1(1) len, unfolded acb(1)]
    show ?thesis
    proof (cases "tm_id t = w")
      case True
      then have "tm_of w ts = []" "tm_of w xs = [t]" using less.prems(2) xs by (auto simp: tm_of_def)
      with ih c1(2) xs True show ?thesis by auto
    next
      case False
      then have "tm_of w xs = tm_of w ts" using xs by (simp add: tm_of_def)
      with ih c1(2) False show ?thesis by auto
    qed
  next
    case False
    with less.prems(1) have "calls = []" "zs = xs" by (subst (asm) tm_fire.simps, auto)+
    then show ?thesis by simp
  qed
qed

lemma tm_tick_one:
  assumes "tm_tick (\<lambda>f a. tm_script (prog f a)) xs = Some (calls, ys)" "length (tm_of w xs) \<le> 1"
    "\<And>f a. leaves_alone w (prog f a)"
  shows "tm_of w ys = tm_advance 1 (tm_of w xs) \<and> w \<notin> fst ` set calls \<or>
    (\<exists>t. tm_of w xs = [t] \<and> tm_due t \<le> 1 \<and> tm_of w ys = [] \<and> (w, tm_func t, tm_arg t) \<in> set calls)"
proof -
  have "length (tm_of w (tm_advance 1 xs)) \<le> 1"
    using assms(2) by (simp add: tm_of_advance)
  from tm_fire_one [OF assms(1) [unfolded tm_tick_def] this tm_script_other [OF assms(3)] tm_script_pending]
  show ?thesis using assms(2) by (cases "tm_of w xs") (auto simp: tm_of_advance)
qed

lemma tm_run_one:
  assumes "opt_run (tm_step prog) es xs = Some (outs, ys)" "\<And>f a. leaves_alone w (prog f a)"
    "leaves_alone w (event_ops es)" "length (tm_of w xs) \<le> 1"
    "\<And>t. t \<in> set (tm_of w xs) \<Longrightarrow> int (event_ticks es) < tm_due t"
  shows "tm_of w ys = tm_advance (int (event_ticks es)) (tm_of w xs) \<and> w \<notin> fst ` set (called outs)"
  using assms(1,3-)
proof (induction es arbitrary: xs outs)
  case Nil
  then show ?case by simp
next
  case (Cons e es)
  obtain o1 x1 outs1 where 1: "tm_step prog e xs = Some (o1, x1)"
    "opt_run (tm_step prog) es x1 = Some (outs1, ys)" "outs = o1 # outs1"
    using Cons.prems(1) by (auto simp: bind_eq_Some_conv)
  show ?case
  proof (cases e)
    case (Call c)
    then have "tm_of w x1 = tm_of w xs" "o1 = Returned (fst (tm_do c xs))"
      using 1(1) Cons.prems(2) tm_do_other [of c w xs] by (auto simp: leaves_alone_def split: prod.splits)
    moreover from this(1) have "tm_of w ys = tm_advance (int (event_ticks es)) (tm_of w x1) \<and>
        w \<notin> fst ` set (called outs1)"
      using Cons.prems(2-) Call by (intro Cons.IH [OF 1(2)]) (auto simp: leaves_alone_def)
    ultimately show ?thesis using 1(3) Call by simp
  next
    case Tick
    then obtain cs where cs: "tm_tick (\<lambda>f a. tm_script (prog f a)) xs = Some (cs, x1)" "o1 = Expired cs"
      using 1(1) by (auto simp: bind_eq_Some_conv)
    have "\<not> tm_due t \<le> 1" if "t \<in> set (tm_of w xs)" for t
      using Cons.prems(4) [OF that] Tick by simp
    with tm_tick_one [OF cs(1) Cons.prems(3) assms(2)]
    have x1: "tm_of w x1 = tm_advance 1 (tm_of w xs)" "w \<notin> fst ` set cs" by auto
    have "tm_of w ys = tm_advance (int (event_ticks es)) (tm_of w x1) \<and> w \<notin> fst ` set (called outs1)"
    proof (rule Cons.IH [OF 1(2)])
      show "leaves_alone w (event_ops es)" "length (tm_of w x1) \<le> 1"
        using Cons.prems(2,3) Tick x1(1) by auto
      show "int (event_ticks es) < tm_due t" if "t \<in> set (tm_of w x1)" for t
        using Cons.prems(4) Tick x1(1) that by (force simp: tm_advance_def)
    qed
    with x1 1(3) cs(2) Tick show ?thesis by (simp add: add.commute image_Un)
  qed
qed

text \<open>A watchdog that has just been started, followed through a run that leaves it alone.\<close>

lemma wd_started_run:
  assumes rep: "wd_rep s xs" "tm_live xs" and w: "w \<noteq> NULL" "0 \<le> sint delay"
    and run: "opt_run (wd_step prog) (Call (WStart w delay f a) # es) s = Some (outs, s')"
    and other: "\<And>f a. leaves_alone w (prog f a)" "leaves_alone w (event_ops es)"
    and ticks: "int (event_ticks es) < wd_ticks (sint delay)"
  shows "\<exists>ys. wd_rep s' ys \<and> tm_live ys \<and> w \<notin> fst ` set (called outs) \<and>
    tm_of w ys = [Timer w (wd_ticks (sint delay) - int (event_ticks es)) f a]"
proof -
  let ?x1 = "tm_start w (wd_ticks (sint delay)) f a xs"
  from wd_run_rep [OF rep, of prog "Call (WStart w delay f a) # es"] run obtain ys where
    r: "opt_run (tm_step prog) (Call (WStart w delay f a) # es) xs = Some (outs, ys)" "wd_rep s' ys" "tm_live ys"
    by auto
  then obtain outs1 where 1: "opt_run (tm_step prog) es ?x1 = Some (outs1, ys)" "outs = Returned OK # outs1"
    using w by (auto simp: bind_eq_Some_conv)
  have of1: "tm_of w ?x1 = [Timer w (wd_ticks (sint delay)) f a]" by (simp add: tm_of_start)
  with tm_run_one [OF 1(1) other] ticks r 1(2) show ?thesis by auto
qed

lemma wd_rep_active:
  assumes "wd_rep s xs" "w \<noteq> NULL"
  shows "WDOG_ISACTIVE w s \<longleftrightarrow> tm_of w xs \<noteq> []"
  using wd_repD(5) [OF assms] by (auto simp: tm_of_def filter_empty_conv)

lemma tm_time_of: "tm_of w xs = [t] \<Longrightarrow> tm_time w xs = tm_due t"
  by (simp add: tm_time_def tm_of_def)

lemma wd_history:
  assumes "\<And>w. \<not> WDOG_ISACTIVE w s" "opt_run (wd_step prog) es (wd_initialize s) = Some (outs, s')"
  obtains xs where "wd_rep s' xs" "tm_live xs"
  using wd_run_rep [OF wd_initialize_rep [of s], of prog es] assms by auto

section \<open>Properties\<close>

text \<open>
  C9. From \<open>wd_initialize\<close> on, over every sequence of \<open>wd_start\<close>, \<open>wd_cancel\<close> and timer
  interrupts, and with watchdog functions that may themselves start and cancel watchdogs,
  the code terminates, follows no null pointer, returns the status codes and makes the
  calls, in the same order, that the list of timers sorted by due time prescribes; and
  the delta queue in memory represents that list afterwards.
\<close>

theorem wd_run_refines_timers:
  assumes "\<And>w. \<not> WDOG_ISACTIVE w s"
  shows "\<exists>outs xs s'. opt_run (tm_step prog) es [] = Some (outs, xs) \<and>
    opt_run (wd_step prog) es (wd_initialize s) = Some (outs, s') \<and> wd_rep s' xs"
  using wd_run_rep [OF wd_initialize_rep [OF assms], of prog es] by blast

definition demo_wd :: wd_state where
  "demo_wd = \<lparr>wd_next = \<lambda>_. NULL, wd_func = \<lambda>_. NULL, wd_lag = \<lambda>_. 0, wd_flags = \<lambda>_. 0,
     wd_arg = \<lambda>_. 0, g_wdactivelist = sq_init\<rparr>"

lemma demo_wd_idle: "\<not> WDOG_ISACTIVE w demo_wd"
  by (simp add: WDOG_ISACTIVE_def demo_wd_def)

theorem wd_run_refines_timers_witness:
  "\<exists>s'. opt_run (wd_step (\<lambda>f a. [WStart 8 2 f a])) [Call (WStart 8 1 400 7), Tick, Tick, Tick]
       (wd_initialize demo_wd) =
     Some ([Returned OK, Expired [], Expired [(8, 400, 7)], Expired []], s') \<and>
     wd_rep s' [Timer 8 2 400 7]"
proof -
  let ?es = "[Call (WStart 8 1 400 7), Tick, Tick, Tick]" and ?p = "\<lambda>f a. [WStart 8 2 f a]"
  have "opt_run (tm_step ?p) ?es [] =
      Some ([Returned OK, Expired [], Expired [(8, 400, 7)], Expired []], [Timer 8 2 400 7])"
    by (simp add: tm_tick_def tm_fire.simps tm_start_def tm_insert_def tm_remove_def wd_ticks_def wrap32_def)
  with wd_run_refines_timers [OF demo_wd_idle, of ?p ?es] show ?thesis by auto
qed

text \<open>
  C10. A watchdog started with \<open>delay\<close> and then neither restarted nor cancelled is not called
  during the first \<open>delay\<close> timer interrupts and is called, with its function and its argument,
  by the next one, after which it is inactive. Whatever happened before and whatever
  happens to the other watchdogs in between makes no difference. (The largest delay is
  one tick short, since \<open>delay + 1\<close> is limited to \<open>INT32_MAX\<close>.)
\<close>

theorem wd_exact_expiry:
  assumes "\<And>w. \<not> WDOG_ISACTIVE w s" "opt_run (wd_step prog) es0 (wd_initialize s) = Some (outs0, s0)"
    and "w \<noteq> NULL" "0 \<le> sint delay"
    and "opt_run (wd_step prog) (Call (WStart w delay f a) # es) s0 = Some (outs, s1)"
    and other: "\<And>f a. leaves_alone w (prog f a)" "leaves_alone w (event_ops es)"
    and "int (event_ticks es) = min (sint delay) (INT32_MAX - 1)"
  shows "w \<notin> fst ` set (called outs) \<and>
    (\<exists>calls s2. wd_timer (\<lambda>f a. wd_script (prog f a)) s1 = Some (calls, s2) \<and>
       (w, f, a) \<in> set calls \<and> \<not> WDOG_ISACTIVE w s2)"
proof -
  obtain xs where xs: "wd_rep s0 xs" "tm_live xs" by (rule wd_history [OF assms(1,2)])
  have t: "wd_ticks (sint delay) = int (event_ticks es) + 1"
    using wd_ticks_value(1) [OF assms(4) sint_int32] assms(8) by auto
  from wd_started_run [OF xs assms(3-7)] t obtain ys where
    ys: "wd_rep s1 ys" "tm_live ys" "w \<notin> fst ` set (called outs)" "tm_of w ys = [Timer w 1 f a]"
    by auto
  from wd_prog.timer_refines [OF ys(1,2), of prog] obtain calls zs s2 where
    z: "tm_tick (\<lambda>f a. tm_script (prog f a)) ys = Some (calls, zs)"
    "wd_timer (\<lambda>f a. wd_script (prog f a)) s1 = Some (calls, s2)" "wd_rep s2 zs" "tm_live zs" by blast
  have "0 < tm_due t" if "t \<in> set (tm_of w zs)" for t
    using z(4) that by (auto simp: tm_of_def tm_live_def list_all_iff)
  then have "tm_of w zs \<noteq> [Timer w 0 f a]" by fastforce
  with tm_tick_one [OF z(1) _ other(1)] ys(4) have "tm_of w zs = []" "(w, f, a) \<in> set calls" by auto
  with z(2) ys(3) wd_rep_active [OF z(3) assms(3)] show ?thesis by auto
qed

theorem wd_exact_expiry_witness:
  "\<exists>outs s1 calls s2.
     opt_run (wd_step (\<lambda>f a. [])) [Call (WStart 8 2 400 7), Call (WStart 16 0 500 1), Tick, Tick]
       (wd_initialize demo_wd) = Some (outs, s1) \<and>
     wd_timer (\<lambda>f a. wd_script []) s1 = Some (calls, s2) \<and> (8, 400, 7) \<in> set calls"
proof -
  let ?p = "\<lambda>f a. []" and ?es = "[Call (WStart 16 0 500 1), Tick, Tick]"
  obtain outs s1 where r: "opt_run (wd_step ?p) (Call (WStart 8 2 400 7) # ?es) (wd_initialize demo_wd) =
      Some (outs, s1)"
    using wd_run_rep [OF wd_initialize_rep [OF demo_wd_idle]] by blast
  have "opt_run (wd_step ?p) [] (wd_initialize demo_wd) = Some ([], wd_initialize demo_wd)" by simp
  from wd_exact_expiry [OF demo_wd_idle this _ _ r] r show ?thesis
    by (auto simp: leaves_alone_def INT32_MAX_def)
qed

text \<open>
  C11. While such a watchdog is running, \<open>wd_gettime\<close> returns the ticks that are left.
\<close>

theorem wd_gettime_remaining:
  assumes "\<And>w. \<not> WDOG_ISACTIVE w s" "opt_run (wd_step prog) es0 (wd_initialize s) = Some (outs0, s0)"
    and "w \<noteq> NULL" "0 \<le> sint delay"
    and "opt_run (wd_step prog) (Call (WStart w delay f a) # es) s0 = Some (outs, s1)"
    and "\<And>f a. leaves_alone w (prog f a)" "leaves_alone w (event_ops es)"
    and "int (event_ticks es) < wd_ticks (sint delay)"
  shows "wd_gettime 0 w s1 = Some (wd_ticks (sint delay) - int (event_ticks es))"
proof -
  obtain xs where xs: "wd_rep s0 xs" "tm_live xs" by (rule wd_history [OF assms(1,2)])
  from wd_started_run [OF xs assms(3-8)] obtain ys where "wd_rep s1 ys"
    "tm_of w ys = [Timer w (wd_ticks (sint delay) - int (event_ticks es)) f a]" by blast
  then show ?thesis using wd_gettime_rep [of s1 ys w] tm_time_of by simp
qed

theorem wd_gettime_remaining_witness:
  "\<exists>outs s1. opt_run (wd_step (\<lambda>f a. [])) [Call (WStart 8 5 400 7), Tick, Tick] (wd_initialize demo_wd) =
     Some (outs, s1) \<and> wd_gettime 0 8 s1 = Some 4"
proof -
  let ?p = "\<lambda>f a. []" and ?es = "[Tick, Tick]"
  obtain outs s1 where r: "opt_run (wd_step ?p) (Call (WStart 8 5 400 7) # ?es) (wd_initialize demo_wd) =
      Some (outs, s1)"
    using wd_run_rep [OF wd_initialize_rep [OF demo_wd_idle]] by blast
  have "opt_run (wd_step ?p) [] (wd_initialize demo_wd) = Some ([], wd_initialize demo_wd)" by simp
  from wd_gettime_remaining [OF demo_wd_idle this _ _ r] r show ?thesis
    by (auto simp: leaves_alone_def wd_ticks_def wrap32_def)
qed

text \<open>
  C12. After \<open>wd_cancel\<close> the watchdog is inactive and is not called any more, for as long as
  nobody starts it again; the call succeeds exactly when the watchdog was active.
\<close>

theorem wd_cancel_silences:
  assumes "\<And>w. \<not> WDOG_ISACTIVE w s" "opt_run (wd_step prog) es0 (wd_initialize s) = Some (outs0, s0)"
    and "w \<noteq> NULL" and run: "opt_run (wd_step prog) (Call (WCancel w) # es) s0 = Some (outs, s1)"
    and other: "\<And>f a. leaves_alone w (prog f a)" "leaves_alone w (event_ops es)"
  shows "hd outs = Returned (if WDOG_ISACTIVE w s0 then OK else - EINVAL) \<and>
    \<not> WDOG_ISACTIVE w s1 \<and> w \<notin> fst ` set (called outs)"
proof -
  obtain xs where xs: "wd_rep s0 xs" "tm_live xs" by (rule wd_history [OF assms(1,2)])
  from wd_run_rep [OF xs, of prog "Call (WCancel w) # es"] run obtain ys where
    r: "opt_run (tm_step prog) (Call (WCancel w) # es) xs = Some (outs, ys)" "wd_rep s1 ys" by auto
  then obtain outs1 where 1: "opt_run (tm_step prog) es (tm_remove w xs) = Some (outs1, ys)"
    "outs = Returned (if w \<in> tm_id ` set xs then OK else - EINVAL) # outs1"
    by (auto simp: bind_eq_Some_conv split: if_splits)
  with tm_run_one [OF 1(1) other] have "tm_of w ys = []" "w \<notin> fst ` set (called outs1)"
    by (auto simp: tm_of_remove)
  with 1(2) wd_rep_active [OF r(2) assms(3)] wd_repD(5) [OF xs(1) assms(3)] show ?thesis by auto
qed

theorem wd_cancel_silences_witness:
  "\<exists>outs s1. opt_run (wd_step (\<lambda>f a. [])) [Call (WCancel 8), Tick, Tick] (wd_initialize demo_wd) =
     Some (outs, s1) \<and> \<not> WDOG_ISACTIVE 8 s1 \<and> 8 \<notin> fst ` set (called outs)"
proof -
  let ?p = "\<lambda>f a. []"
  obtain outs s1 where r: "opt_run (wd_step ?p) [Call (WCancel 8), Tick, Tick] (wd_initialize demo_wd) =
      Some (outs, s1)"
    using wd_run_rep [OF wd_initialize_rep [OF demo_wd_idle]] by blast
  have "opt_run (wd_step ?p) [] (wd_initialize demo_wd) = Some ([], wd_initialize demo_wd)" by simp
  from wd_cancel_silences [OF demo_wd_idle this _ r] r show ?thesis by (auto simp: leaves_alone_def)
qed



end
