(* ===== verification/Alloc_Interface.thy ===== *)
theory Alloc_Interface
  imports Prelude
begin

text \<open>
  What a client of an allocator relies on, for the memory manager of \<open>mm/mm_heap\<close> and the granule
  allocator of \<open>mm/mm_gran\<close> alike: a state that represents the list of live blocks (address and
  number of bytes asked for), a request and a release. That a client which only releases
  what it holds never ends up with overlapping blocks, and that every call returns, is proved once
  here; the interpretations are in \<open>Gran\<close> and \<open>Mm_Client\<close>.
\<close>

section \<open>Clients\<close>

text \<open>A client asks for \<open>n\<close> bytes, or releases the \<open>k\<close>-th of the blocks it holds.\<close>

datatype alloc_op = Request nat | Release nat

fun alloc_step :: "('h \<Rightarrow> nat \<Rightarrow> (ptr \<times> 'h) option) \<Rightarrow> ('h \<Rightarrow> ptr \<Rightarrow> nat \<Rightarrow> 'h option) \<Rightarrow>
    alloc_op \<Rightarrow> 'h \<times> (ptr \<times> nat) list \<Rightarrow> ('h \<times> (ptr \<times> nat) list) option" where
  "alloc_step alloc rel (Request n) (h, live) =
     Option.bind (alloc h n) (\<lambda>(p, h). Some (h, if p = NULL then live else (p, n) # live))"
| "alloc_step alloc rel (Release k) (h, live) =
     (if k < length live
      then Option.bind (rel h (fst (live ! k)) (snd (live ! k))) (\<lambda>h. Some (h, take k live @ drop (Suc k) live))
      else Some (h, live))"

fun alloc_run :: "('h \<Rightarrow> nat \<Rightarrow> (ptr \<times> 'h) option) \<Rightarrow> ('h \<Rightarrow> ptr \<Rightarrow> nat \<Rightarrow> 'h option) \<Rightarrow>
    alloc_op list \<Rightarrow> 'h \<times> (ptr \<times> nat) list \<Rightarrow> ('h \<times> (ptr \<times> nat) list) option" where
  "alloc_run alloc rel [] st = Some st"
| "alloc_run alloc rel (e # es) st = Option.bind (alloc_step alloc rel e st) (alloc_run alloc rel es)"

fun request_in :: "(nat \<Rightarrow> bool) \<Rightarrow> alloc_op \<Rightarrow> bool" where
  "request_in ok (Request n) \<longleftrightarrow> ok n"
| "request_in ok (Release k) \<longleftrightarrow> True"

definition apart :: "(ptr \<times> nat) list \<Rightarrow> bool" where
  "apart live \<longleftrightarrow> sorted_wrt (\<lambda>b c. {fst b..<fst b + snd b} \<inter> {fst c..<fst c + snd c} = {}) live"

section \<open>The interface\<close>

locale allocator =
  fixes rep :: "'h \<Rightarrow> (ptr \<times> nat) list \<Rightarrow> bool"
    and alloc :: "'h \<Rightarrow> nat \<Rightarrow> (ptr \<times> 'h) option"
    and rel :: "'h \<Rightarrow> ptr \<Rightarrow> nat \<Rightarrow> 'h option"
    and accepts :: "nat \<Rightarrow> bool"
  assumes alloc_rep: "rep h live \<Longrightarrow> accepts n \<Longrightarrow>
      \<exists>p h'. alloc h n = Some (p, h') \<and> rep h' (if p = NULL then live else (p, n) # live)"
    and rel_rep: "rep h (xs @ (p, n) # ys) \<Longrightarrow> \<exists>h'. rel h p n = Some h' \<and> rep h' (xs @ ys)"
    and rep_apart: "rep h live \<Longrightarrow> apart live"
begin

lemma step_rep:
  assumes "rep h live" "request_in accepts e"
  shows "\<exists>h' live'. alloc_step alloc rel e (h, live) = Some (h', live') \<and> rep h' live'"
proof (cases e)
  case (Request n)
  then show ?thesis using alloc_rep [OF assms(1), of n] assms(2) by auto
next
  case (Release k)
  show ?thesis
  proof (cases "k < length live")
    case True
    then have "live = take k live @ (fst (live ! k), snd (live ! k)) # drop (Suc k) live"
      by (simp add: id_take_nth_drop)
    then obtain h' where "rel h (fst (live ! k)) (snd (live ! k)) = Some h'" "rep h' (take k live @ drop (Suc k) live)"
      using rel_rep assms(1) by metis
    then show ?thesis using True Release by simp
  qed (use assms Release in auto)
qed

lemma run_rep:
  "rep h live \<Longrightarrow> list_all (request_in accepts) es \<Longrightarrow>
     \<exists>h' live'. alloc_run alloc rel es (h, live) = Some (h', live') \<and> rep h' live' \<and> apart live'"
proof (induction es arbitrary: h live)
  case Nil
  then show ?case using rep_apart by auto
next
  case (Cons e es)
  then obtain h1 live1 where "alloc_step alloc rel e (h, live) = Some (h1, live1)" "rep h1 live1"
    using step_rep [of h live e] by auto
  then show ?case using Cons.IH [of h1 live1] Cons.prems(2) by simp
qed

end

end
