(* ===== verification/Gran.thy ===== *)
theory Gran
  imports Alloc_Interface
begin

unbundle bit_operations_syntax

text \<open>
  The granule allocator of \<open>mm/mm_gran\<close> and the page allocator on top of it. A heap is an
  array of granules with a bit per granule in the granule allocation table (GAT), an array of
  32 bit words. Addresses, sizes and granule numbers are natural numbers; the bounds that
  keep them below \<open>2 ^ 32\<close> are hypotheses where they matter. The word after the last table entry,
  which \<open>gran_alloc\<close> reads, is the parameter \<open>past\<close>; the result of \<open>gran_enter_critical\<close> is
  the parameter \<open>ret\<close>. The report on a heap, \<open>gran_info\<close>, is in \<open>Gran_Info\<close>.
\<close>

section \<open>The code\<close>

record gran_s =
  gr_log2gran :: nat
  gr_ngranules :: nat
  gr_heapstart :: nat
  gr_gat :: "32 word list"

text \<open>\<open>(x + mask) & ~mask\<close> and \<open>x & ~mask\<close> for \<open>mask = (1 << k) - 1\<close>.\<close>

definition align_up :: "nat \<Rightarrow> nat \<Rightarrow> nat" where
  "align_up k x = ((x + (2 ^ k - 1)) div 2 ^ k) * 2 ^ k"

definition align_down :: "nat \<Rightarrow> nat \<Rightarrow> nat" where
  "align_down k x = (x div 2 ^ k) * 2 ^ k"

definition SIZEOF_GAT :: "nat \<Rightarrow> nat" where
  "SIZEOF_GAT n = (n + 31) div 32"

text \<open>
  \<open>gran_initialize\<close>; the flag tells whether \<open>kmm_zalloc\<close> returned a block, which is all zero.
  The field \<open>ngranules\<close> has 16 bits.
\<close>

definition gran_initialize :: "nat \<Rightarrow> nat \<Rightarrow> nat \<Rightarrow> nat \<Rightarrow> bool \<Rightarrow> gran_s option" where
  "gran_initialize start heapsize log2gran log2align zalloced =
     (let alignedstart = align_up log2align start;
          heapend = start + heapsize;
          alignedsize = align_down log2gran ((heapend + 2 ^ 32 - alignedstart) mod 2 ^ 32);
          n = alignedsize div 2 ^ log2gran
      in if zalloced
         then Some \<lparr>gr_log2gran = log2gran, gr_ngranules = n mod 2 ^ 16, gr_heapstart = alignedstart,
                    gr_gat = replicate (SIZEOF_GAT n) 0\<rparr>
         else None)"

definition gran_mark_allocated :: "gran_s \<Rightarrow> nat \<Rightarrow> nat \<Rightarrow> gran_s" where
  "gran_mark_allocated priv alloc n =
     (let granno = (alloc - gr_heapstart priv) div 2 ^ gr_log2gran priv;
          gatidx = granno div 32;
          gatbit = granno mod 32;
          avail = 32 - gatbit
      in if n > avail
         then let gatmask = push_bit gatbit 0xffffffff;
                  g = (gr_gat priv)[gatidx := gr_gat priv ! gatidx OR gatmask];
                  gatmask = drop_bit (32 - (n - avail)) 0xffffffff
              in priv\<lparr>gr_gat := g[gatidx + 1 := g ! (gatidx + 1) OR gatmask]\<rparr>
         else let gatmask = push_bit gatbit (drop_bit (32 - n) 0xffffffff)
              in priv\<lparr>gr_gat := (gr_gat priv)[gatidx := gr_gat priv ! gatidx OR gatmask]\<rparr>)"

text \<open>
  One round of the bit loop of \<open>gran_alloc\<close>: how far to move on, 0 when the allocation can
  be made here. The caller has handled \<open>curr == 0xffffffff\<close>.
\<close>

definition gran_shift :: "32 word \<Rightarrow> 32 word \<Rightarrow> nat" where
  "gran_shift cur msk =
     (if cur AND 0x0000ffff = 0x0000ffff then 16
      else if cur AND 0x0000ff = 0x000000ff then 8
      else if cur AND 0x00000f = 0x0000000f then 4
      else if cur AND 0x000003 = 0x00000003 then 2
      else if cur AND msk = 0 then 0
      else 1)"

text \<open>The bit loop; the result is the allocation address when there is one.\<close>

function gran_scan ::
  "gran_s \<Rightarrow> nat \<Rightarrow> 32 word \<Rightarrow> nat \<Rightarrow> nat \<Rightarrow> 32 word \<Rightarrow> 32 word \<Rightarrow> nat \<Rightarrow> nat option" where
  "gran_scan priv n msk granidx alloc cur next bitidx =
     (if bitidx < 32 \<and> granidx + bitidx + n \<le> gr_ngranules priv
      then if cur = 0xffffffff then None
           else let shift = gran_shift cur msk
                in if shift = 0 then Some alloc
                   else gran_scan priv n msk granidx
                          (alloc + shift * 2 ^ gr_log2gran priv)
                          (drop_bit shift cur OR push_bit (32 - shift) next)
                          (drop_bit shift next)
                          (bitidx + shift)
      else None)"
  by pat_completeness auto
termination
  by (relation "measure (\<lambda>(priv, n, msk, granidx, alloc, cur, next, bitidx). 32 - bitidx)") auto

declare gran_scan.simps [simp del]

text \<open>The loop over the table, 32 granules at a time.\<close>

function gran_search :: "32 word \<Rightarrow> gran_s \<Rightarrow> nat \<Rightarrow> 32 word \<Rightarrow> nat \<Rightarrow> nat option" where
  "gran_search past priv n msk granidx =
     (if granidx < gr_ngranules priv
      then let gatidx = granidx div 32;
               cur = gr_gat priv ! gatidx
           in if cur = 0xffffffff then gran_search past priv n msk (granidx + 32)
              else let next = (if granidx < gr_ngranules priv
                               then if gatidx + 1 < length (gr_gat priv) then gr_gat priv ! (gatidx + 1)
                                    else past
                               else 0xffffffff)
                   in case gran_scan priv n msk granidx
                             (gr_heapstart priv + granidx * 2 ^ gr_log2gran priv) cur next 0 of
                        Some alloc \<Rightarrow> Some alloc
                      | None \<Rightarrow> gran_search past priv n msk (granidx + 32)
      else None)"
  by pat_completeness auto
termination
  by (relation "measure (\<lambda>(past, priv, n, msk, granidx). gr_ngranules priv - granidx)") auto

declare gran_search.simps [simp del]

definition gran_count :: "gran_s \<Rightarrow> nat \<Rightarrow> nat" where
  "gran_count priv sz = (sz + (2 ^ gr_log2gran priv - 1)) div 2 ^ gr_log2gran priv"

definition gran_alloc :: "32 word \<Rightarrow> int \<Rightarrow> gran_s \<Rightarrow> nat \<Rightarrow> nat \<times> gran_s" where
  "gran_alloc past ret priv sz =
     (if sz > 0
      then if ret < 0 then (NULL, priv)
           else let n = gran_count priv sz;
                    msk = drop_bit (32 - n) 0xffffffff
                in case gran_search past priv n msk 0 of
                     Some alloc \<Rightarrow> (alloc, gran_mark_allocated priv alloc n)
                   | None \<Rightarrow> (NULL, priv)
      else (NULL, priv))"

text \<open>\<open>gran_free\<close>, from the point where the lock has been obtained.\<close>

definition gran_free :: "gran_s \<Rightarrow> nat \<Rightarrow> nat \<Rightarrow> gran_s" where
  "gran_free priv memory sz =
     (let granno = (memory - gr_heapstart priv) div 2 ^ gr_log2gran priv;
          gatidx = granno div 32;
          gatbit = granno mod 32;
          n = gran_count priv sz;
          avail = 32 - gatbit
      in if n > avail
         then let gatmask = push_bit gatbit 0xffffffff;
                  g = (gr_gat priv)[gatidx := gr_gat priv ! gatidx AND NOT gatmask];
                  gatmask = drop_bit (32 - (n - avail)) 0xffffffff
              in priv\<lparr>gr_gat := g[gatidx + 1 := g ! (gatidx + 1) AND NOT gatmask]\<rparr>
         else let gatmask = push_bit gatbit (drop_bit (32 - n) 0xffffffff)
              in priv\<lparr>gr_gat := (gr_gat priv)[gatidx := gr_gat priv ! gatidx AND NOT gatmask]\<rparr>)"

definition gran_reserve :: "gran_s \<Rightarrow> nat \<Rightarrow> nat \<Rightarrow> gran_s" where
  "gran_reserve priv start sz =
     (if sz > 0
      then let fin = start + sz - 1;
               start = align_down (gr_log2gran priv) start;
               fin = align_up (gr_log2gran priv) fin;
               n = (fin - start) div 2 ^ gr_log2gran priv + 1
           in gran_mark_allocated priv start n
      else priv)"

text \<open>The page allocator; \<open>pgshift\<close> is \<open>MM_PGSHIFT\<close>.\<close>

definition mm_pginitialize :: "nat \<Rightarrow> nat \<Rightarrow> nat \<Rightarrow> bool \<Rightarrow> gran_s option" where
  "mm_pginitialize pgshift heap_start heap_size zalloced =
     gran_initialize heap_start heap_size pgshift pgshift zalloced"

definition mm_pgreserve :: "gran_s \<Rightarrow> nat \<Rightarrow> nat \<Rightarrow> gran_s" where
  "mm_pgreserve g_pgalloc start sz = gran_reserve g_pgalloc start sz"

definition mm_pgalloc :: "nat \<Rightarrow> 32 word \<Rightarrow> int \<Rightarrow> gran_s \<Rightarrow> nat \<Rightarrow> nat \<times> gran_s" where
  "mm_pgalloc pgshift past ret g_pgalloc npages = gran_alloc past ret g_pgalloc (npages * 2 ^ pgshift)"

definition mm_pgfree :: "nat \<Rightarrow> gran_s \<Rightarrow> nat \<Rightarrow> nat \<Rightarrow> gran_s" where
  "mm_pgfree pgshift g_pgalloc paddr npages = gran_free g_pgalloc paddr (npages * 2 ^ pgshift)"

section \<open>The table as a set of granules\<close>

definition gat_bit :: "32 word list \<Rightarrow> nat \<Rightarrow> bool" where
  "gat_bit g i \<longleftrightarrow> bit (g ! (i div 32)) (i mod 32)"

definition granule_of :: "gran_s \<Rightarrow> nat \<Rightarrow> nat" where
  "granule_of priv a = (a - gr_heapstart priv) div 2 ^ gr_log2gran priv"

definition granule_addr :: "gran_s \<Rightarrow> nat \<Rightarrow> nat" where
  "granule_addr priv i = gr_heapstart priv + i * 2 ^ gr_log2gran priv"

text \<open>The table covers all granules.\<close>

definition gran_wf :: "gran_s \<Rightarrow> bool" where
  "gran_wf priv \<longleftrightarrow> gr_ngranules priv \<le> 32 * length (gr_gat priv)"

lemma granule_of_addr [simp]: "granule_of priv (granule_addr priv i) = i"
  by (simp add: granule_of_def granule_addr_def)

lemma bit_ones: "bit (0xffffffff :: 32 word) j \<longleftrightarrow> j < 32"
proof -
  have "(0xffffffff :: 32 word) = - 1" by simp
  then show ?thesis by (simp only: bit_minus_1_iff) simp
qed

lemma bit_low_ones: "n \<le> 32 \<Longrightarrow> bit (drop_bit (32 - n) (0xffffffff :: 32 word)) j \<longleftrightarrow> j < n"
  unfolding bit_drop_bit_eq comp_apply bit_ones by auto

lemma bit_push32: "bit (push_bit k w) j \<longleftrightarrow> k \<le> j \<and> j < 32 \<and> bit w (j - k)" for w :: "32 word"
  by (auto simp: bit_push_bit_iff)

text \<open>
  Where granules \<open>g\<close> to \<open>g + n - 1\<close> lie in the table, in the one-word and in the two-word
  case of \<open>gran_mark_allocated\<close> and \<open>gran_free\<close>.
\<close>

lemma granules_one_word:
  fixes g i n :: nat
  assumes "n \<le> 32 - g mod 32"
  shows "g \<le> i \<and> i < g + n \<longleftrightarrow> i div 32 = g div 32 \<and> g mod 32 \<le> i mod 32 \<and> i mod 32 - g mod 32 < n"
proof -
  have e: "i = 32 * (i div 32) + i mod 32" "i mod 32 < 32" "g = 32 * (g div 32) + g mod 32" "g mod 32 < 32"
    by simp_all
  consider "i div 32 < g div 32" | "i div 32 = g div 32" | "i div 32 > g div 32" by linarith
  then show ?thesis
  proof cases
    case 1
    then have "i < g" using e by linarith
    with 1 show ?thesis by simp
  next
    case 2
    then have i: "i + g mod 32 = g + i mod 32" using e by linarith
    then have "g \<le> i \<longleftrightarrow> g mod 32 \<le> i mod 32" by linarith
    moreover have "i < g + n \<longleftrightarrow> i mod 32 - g mod 32 < n" if "g mod 32 \<le> i mod 32"
      using i that by linarith
    ultimately show ?thesis using 2 by auto
  next
    case 3
    then have "g + n \<le> i" using e assms by linarith
    with 3 show ?thesis by simp
  qed
qed

lemma granules_two_words:
  fixes g i n :: nat
  assumes "n > 32 - g mod 32" "n \<le> 32"
  shows "g \<le> i \<and> i < g + n \<longleftrightarrow> i div 32 = g div 32 \<and> g mod 32 \<le> i mod 32 \<or>
    i div 32 = g div 32 + 1 \<and> i mod 32 < n - (32 - g mod 32)"
proof -
  have e: "i = 32 * (i div 32) + i mod 32" "i mod 32 < 32" "g = 32 * (g div 32) + g mod 32" "g mod 32 < 32"
    by simp_all
  consider "i div 32 < g div 32" | "i div 32 = g div 32" | "i div 32 = g div 32 + 1"
    | "i div 32 > g div 32 + 1" by linarith
  then show ?thesis
  proof cases
    case 1
    then have "i < g" using e by linarith
    with 1 show ?thesis by simp
  next
    case 2
    then have i: "i + g mod 32 = g + i mod 32" using e by linarith
    then have "g \<le> i \<longleftrightarrow> g mod 32 \<le> i mod 32" by linarith
    moreover have "i < g + n" using i e(2) assms(1) by linarith
    ultimately show ?thesis using 2 by simp
  next
    case 3
    then have i: "i = g + (i mod 32 + (32 - g mod 32))" using e by linarith
    then have "g \<le> i" by linarith
    moreover have "i < g + n \<longleftrightarrow> i mod 32 + (32 - g mod 32) < n" by (subst i) (rule nat_add_left_cancel_less)
    moreover have "i mod 32 + (32 - g mod 32) < n \<longleftrightarrow> i mod 32 < n - (32 - g mod 32)" by linarith
    ultimately show ?thesis using 3 by simp
  next
    case 4
    then have "g + n \<le> i" using e assms by linarith
    with 4 show ?thesis by simp
  qed
qed

lemma granules_in_table:
  fixes g n len :: nat
  assumes "g + n \<le> 32 * len" "0 < n"
  shows "g div 32 < len" "n > 32 - g mod 32 \<Longrightarrow> g div 32 + 1 < len"
proof -
  have "g = 32 * (g div 32) + g mod 32" "g mod 32 < 32" by simp_all
  with assms show "g div 32 < len" "n > 32 - g mod 32 \<Longrightarrow> g div 32 + 1 < len" by linarith+
qed

lemma gran_mark_allocated_bits:
  assumes "granule_of priv a + n \<le> 32 * length (gr_gat priv)" "0 < n" "n \<le> 32"
  defines "g \<equiv> granule_of priv a"
  shows "gat_bit (gr_gat (gran_mark_allocated priv a n)) i \<longleftrightarrow>
    gat_bit (gr_gat priv) i \<or> g \<le> i \<and> i < g + n"
proof (cases "n > 32 - g mod 32")
  case True
  note r = granules_in_table [OF assms(1,2), folded g_def]
  define m1 m2 :: "32 word" where "m1 = push_bit (g mod 32) 0xffffffff"
    and "m2 = drop_bit (32 - (n - (32 - g mod 32))) 0xffffffff"
  have "bit m1 j \<longleftrightarrow> g mod 32 \<le> j" if "j < 32" for j
    using that unfolding m1_def bit_push32 bit_ones by auto
  moreover have "bit m2 j \<longleftrightarrow> j < n - (32 - g mod 32)" for j
    using assms(3) unfolding m2_def by (intro bit_low_ones) simp
  moreover have e: "gr_gat (gran_mark_allocated priv a n) = (gr_gat priv)
      [g div 32 := gr_gat priv ! (g div 32) OR m1, g div 32 + 1 := gr_gat priv ! (g div 32 + 1) OR m2]"
    using True by (simp add: gran_mark_allocated_def Let_def granule_of_def g_def m1_def m2_def)
  ultimately show ?thesis
    unfolding e gat_bit_def granules_two_words [OF True assms(3)] using r True
    by (auto simp: nth_list_update bit_or_iff)
next
  case False
  note r = granules_in_table [OF assms(1,2), folded g_def]
  define m :: "32 word" where "m = push_bit (g mod 32) (drop_bit (32 - n) 0xffffffff)"
  have "bit m j \<longleftrightarrow> g mod 32 \<le> j \<and> j - g mod 32 < n" if "j < 32" for j
    using that unfolding m_def bit_push32 bit_low_ones [OF assms(3)] by auto
  moreover have e: "gr_gat (gran_mark_allocated priv a n) = (gr_gat priv)
      [g div 32 := gr_gat priv ! (g div 32) OR m]"
    using False by (simp add: gran_mark_allocated_def Let_def granule_of_def g_def m_def)
  moreover have one: "n \<le> 32 - g mod 32" using False by simp
  ultimately show ?thesis
    unfolding e gat_bit_def granules_one_word [OF one] using r
    by (auto simp: nth_list_update bit_or_iff)
qed

lemma gran_free_bits:
  assumes "granule_of priv a + n \<le> 32 * length (gr_gat priv)" "0 < n" "n \<le> 32" "gran_count priv sz = n"
  defines "g \<equiv> granule_of priv a"
  shows "gat_bit (gr_gat (gran_free priv a sz)) i \<longleftrightarrow>
    gat_bit (gr_gat priv) i \<and> \<not> (g \<le> i \<and> i < g + n)"
proof (cases "n > 32 - g mod 32")
  case True
  note r = granules_in_table [OF assms(1,2), folded g_def]
  define m1 m2 :: "32 word" where "m1 = push_bit (g mod 32) 0xffffffff"
    and "m2 = drop_bit (32 - (n - (32 - g mod 32))) 0xffffffff"
  have "bit m1 j \<longleftrightarrow> g mod 32 \<le> j" if "j < 32" for j
    using that unfolding m1_def bit_push32 bit_ones by auto
  moreover have "bit m2 j \<longleftrightarrow> j < n - (32 - g mod 32)" for j
    using assms(3) unfolding m2_def by (intro bit_low_ones) simp
  moreover have e: "gr_gat (gran_free priv a sz) = (gr_gat priv)
      [g div 32 := gr_gat priv ! (g div 32) AND NOT m1, g div 32 + 1 := gr_gat priv ! (g div 32 + 1) AND NOT m2]"
    using True assms(4) by (simp add: gran_free_def Let_def granule_of_def g_def m1_def m2_def)
  ultimately show ?thesis
    unfolding e gat_bit_def granules_two_words [OF True assms(3)] using r True
    by (auto simp: nth_list_update bit_and_iff bit_not_iff)
next
  case False
  note r = granules_in_table [OF assms(1,2), folded g_def]
  define m :: "32 word" where "m = push_bit (g mod 32) (drop_bit (32 - n) 0xffffffff)"
  have "bit m j \<longleftrightarrow> g mod 32 \<le> j \<and> j - g mod 32 < n" if "j < 32" for j
    using that unfolding m_def bit_push32 bit_low_ones [OF assms(3)] by auto
  moreover have e: "gr_gat (gran_free priv a sz) = (gr_gat priv)
      [g div 32 := gr_gat priv ! (g div 32) AND NOT m]"
    using False assms(4) by (simp add: gran_free_def Let_def granule_of_def g_def m_def)
  moreover have one: "n \<le> 32 - g mod 32" using False by simp
  ultimately show ?thesis
    unfolding e gat_bit_def granules_one_word [OF one] using r
    by (auto simp: nth_list_update bit_and_iff bit_not_iff)
qed

section \<open>The search is first fit\<close>

definition gran_fits :: "gran_s \<Rightarrow> nat \<Rightarrow> nat \<Rightarrow> bool" where
  "gran_fits priv n p \<longleftrightarrow> p + n \<le> gr_ngranules priv \<and> (\<forall>j < n. \<not> gat_bit (gr_gat priv) (p + j))"

lemma find_upt_skip:
  "a \<le> b \<Longrightarrow> (\<And>p. a \<le> p \<Longrightarrow> p < b \<Longrightarrow> \<not> P p) \<Longrightarrow> find P [a..<c] = find P [b..<c]"
proof (induction "b - a" arbitrary: a)
  case (Suc d)
  then have "find P [Suc a..<c] = find P [b..<c]" by (intro Suc.hyps(1)) auto
  moreover have "\<not> P a" using Suc.hyps(2) Suc.prems by simp
  moreover have "find P [a..<c] = find P [b..<c]" if "c \<le> a" using that Suc.prems(1) by simp
  ultimately show ?case by (cases "a < c") (auto simp: upt_conv_Cons)
qed simp

lemma find_None_upt: "find P [a..<b] = None \<longleftrightarrow> (\<forall>p. a \<le> p \<and> p < b \<longrightarrow> \<not> P p)"
  by (auto simp: find_None_iff)

lemma find_upt_shift:
  "map_option ((+) g) (find (\<lambda>p. P (g + p)) [a..<b]) = find P [g + a..<g + b]"
proof -
  have "find P (map ((+) g) xs) = map_option ((+) g) (find (\<lambda>p. P (g + p)) xs)" for xs
    by (induction xs) auto
  moreover have "map ((+) g) [a..<b] = [g + a..<g + b]" by (intro nth_equalityI) auto
  ultimately show ?thesis by metis
qed

lemma find_append_case:
  "find P (xs @ ys) = (case find P xs of None \<Rightarrow> find P ys | Some x \<Rightarrow> Some x)"
  by (induction xs) auto

lemma and_mask_ones:
  "k \<le> 32 \<Longrightarrow> w AND mask k = mask k \<longleftrightarrow> (\<forall>j < k. bit w j)" for w :: "32 word"
  by (auto simp: bit_eq_iff bit_and_iff bit_mask_iff) (meson le_trans less_le_trans)

lemma gran_masks:
  "(0xffff :: 32 word) = mask 16" "(0xff :: 32 word) = mask 8" "(0xf :: 32 word) = mask 4"
  "(3 :: 32 word) = mask 2"
  by (simp_all add: mask_eq_exp_minus_1)

lemma gran_shift_cases:
  shows "gran_shift cur msk = 0 \<Longrightarrow> cur AND msk = 0"
    "gran_shift cur msk \<noteq> 0 \<Longrightarrow> cur AND msk \<noteq> 0 \<and> gran_shift cur msk = 1 \<or>
       (\<forall>j < gran_shift cur msk. bit cur j)"
    "gran_shift cur msk \<le> 16"
proof -
  have and3: "cur AND 3 = 3 \<longleftrightarrow> (\<forall>j < 2. bit cur j)" "cur AND 0xf = 0xf \<longleftrightarrow> (\<forall>j < 4. bit cur j)"
    "cur AND 0xff = 0xff \<longleftrightarrow> (\<forall>j < 8. bit cur j)" "cur AND 0xffff = 0xffff \<longleftrightarrow> (\<forall>j < 16. bit cur j)"
    unfolding gran_masks by (rule and_mask_ones, simp)+
  show "gran_shift cur msk = 0 \<Longrightarrow> cur AND msk = 0"
    "gran_shift cur msk \<noteq> 0 \<Longrightarrow> cur AND msk \<noteq> 0 \<and> gran_shift cur msk = 1 \<or>
       (\<forall>j < gran_shift cur msk. bit cur j)"
    "gran_shift cur msk \<le> 16"
    unfolding gran_shift_def and3 by (auto split: if_splits)
qed

lemma and_low_ones_0:
  fixes w :: "32 word"
  assumes "n \<le> 32"
  shows "w AND drop_bit (32 - n) 0xffffffff = 0 \<longleftrightarrow> (\<forall>j < n. \<not> bit w j)"
proof -
  define m :: "32 word" where "m = drop_bit (32 - n) 0xffffffff"
  have "bit m j \<longleftrightarrow> j < n" for j unfolding m_def by (rule bit_low_ones [OF assms])
  then have "w AND m = 0 \<longleftrightarrow> (\<forall>j < 32. bit w j \<longrightarrow> \<not> j < n)"
    by (simp add: bit_eq_iff bit_and_iff)
  also have "\<dots> \<longleftrightarrow> (\<forall>j < n. \<not> bit w j)" using assms order.strict_trans2 by blast
  finally have "w AND m = 0 \<longleftrightarrow> (\<forall>j < n. \<not> bit w j)" .
  then show ?thesis by (simp add: m_def)
qed

text \<open>The 64 bit shift moves the window.\<close>

lemma window_shift:
  fixes cur nxt :: "32 word"
  assumes "0 < sh" "sh \<le> 16"
  shows "j < 32 \<Longrightarrow> bit (drop_bit sh cur OR push_bit (32 - sh) nxt) j \<longleftrightarrow>
      (if sh + j < 32 then bit cur (sh + j) else bit nxt (sh + j - 32))"
    "bit (drop_bit sh nxt) j = bit nxt (sh + j)"
proof -
  have big: "\<not> bit cur i" if "32 \<le> i" for i using bit_imp_le_length [of cur i] that by auto
  show "j < 32 \<Longrightarrow> bit (drop_bit sh cur OR push_bit (32 - sh) nxt) j \<longleftrightarrow>
      (if sh + j < 32 then bit cur (sh + j) else bit nxt (sh + j - 32))"
    using assms big [of "sh + j"] by (auto simp: bit_or_iff bit_drop_bit_eq bit_push32 add.commute)
  show "bit (drop_bit sh nxt) j = bit nxt (sh + j)" by (simp add: bit_drop_bit_eq)
qed

lemma gran_fitsD:
  assumes "gran_fits priv n p" "0 < n"
  shows "p < gr_ngranules priv" "\<not> gat_bit (gr_gat priv) p"
proof -
  have "\<not> gat_bit (gr_gat priv) (p + 0)" using assms unfolding gran_fits_def by blast
  then show "p < gr_ngranules priv" "\<not> gat_bit (gr_gat priv) p"
    using assms by (auto simp: gran_fits_def)
qed

text \<open>
  \<open>gran_window\<close>: the word \<open>w\<close> holds the table from granule \<open>p\<close> on, as far as the first
  \<open>lim\<close> granules from there are part of the heap.
\<close>

definition gran_window :: "gran_s \<Rightarrow> nat \<Rightarrow> nat \<Rightarrow> 32 word \<Rightarrow> bool" where
  "gran_window priv p lim w \<longleftrightarrow>
     (\<forall>j < 32. j < lim \<and> p + j < gr_ngranules priv \<longrightarrow> bit w j = gat_bit (gr_gat priv) (p + j))"

lemma gran_window_busy:
  assumes "gran_window priv p lim w" "j < 32" "j < lim" "bit w j" "0 < n"
  shows "\<not> gran_fits priv n (p + j)"
  using assms gran_fitsD [OF _ assms(5), of priv "p + j"] by (auto simp: gran_window_def)

lemma gran_window_fits:
  assumes "gran_window priv p lim w" "0 < n" "n \<le> 32" "n \<le> lim" "p + n \<le> gr_ngranules priv"
  shows "gran_fits priv n p \<longleftrightarrow> w AND drop_bit (32 - n) 0xffffffff = 0"
  using assms unfolding and_low_ones_0 [OF assms(3)] by (auto simp: gran_window_def gran_fits_def)

text \<open>A shift passes over positions where the request does not fit.\<close>

lemma gran_shift_skips:
  assumes win: "gran_window priv p lim w" "32 \<le> lim" and n: "0 < n" "n \<le> 32" "p + n \<le> gr_ngranules priv"
    and msk: "msk = drop_bit (32 - n) 0xffffffff" and sh: "gran_shift w msk \<noteq> 0" "j < gran_shift w msk"
  shows "\<not> gran_fits priv n (p + j)"
proof (cases "\<forall>j < gran_shift w msk. bit w j")
  case True
  then show ?thesis using gran_window_busy [OF win(1) _ _ _ n(1), of j] win(2) gran_shift_cases(3) [of w msk] sh(2) by auto
next
  case False
  then have "w AND msk \<noteq> 0" "j = 0" using gran_shift_cases(2) [OF sh(1)] sh(2) by auto
  then show ?thesis using gran_window_fits [OF win(1) n(1,2) _ n(3)] n(2) win(2) msk by simp
qed

lemma gran_window_shift:
  assumes "gran_window priv p lim w" "gran_window priv (p + 32) (lim - 32) v" "0 < sh" "sh \<le> 16" "lim \<le> 64"
  shows "gran_window priv (p + sh) (lim - sh) (drop_bit sh w OR push_bit (32 - sh) v)"
    "gran_window priv (p + sh + 32) (lim - sh - 32) (drop_bit sh v)"
proof -
  have "bit (drop_bit sh w OR push_bit (32 - sh) v) j = gat_bit (gr_gat priv) (p + sh + j)"
    if "j < 32" "j < lim - sh" "p + sh + j < gr_ngranules priv" for j
  proof (cases "sh + j < 32")
    case True
    then show ?thesis using window_shift(1) [OF assms(3,4) that(1)] assms(1) that
      by (auto simp: gran_window_def add.assoc)
  next
    case False
    then have "sh + j - 32 < 32" "p + 32 + (sh + j - 32) = p + sh + j" using that(1) assms(4) by auto
    then show ?thesis using window_shift(1) [OF assms(3,4) that(1)] assms(2) that False
      by (auto simp: gran_window_def add.assoc)
  qed
  then show "gran_window priv (p + sh) (lim - sh) (drop_bit sh w OR push_bit (32 - sh) v)"
    by (simp add: gran_window_def)
  have "bit (drop_bit sh v) j = gat_bit (gr_gat priv) (p + sh + 32 + j)"
    if "j < lim - sh - 32" "j < 32" "p + sh + 32 + j < gr_ngranules priv"  for j
  proof -
    have "sh + j < 32" "sh + j < lim - 32" using that(1) assms(5) by auto
    then show ?thesis using window_shift(2) [OF assms(3,4), of v j] assms(2) that
      by (auto simp: gran_window_def add_ac)
  qed
  then show "gran_window priv (p + sh + 32) (lim - sh - 32) (drop_bit sh v)"
    by (simp add: gran_window_def)
qed

lemma gran_scan_first:
  assumes "0 < n" "n \<le> 32" "msk = drop_bit (32 - n) 0xffffffff"
    "alloc = granule_addr priv (granidx + bitidx)"
    "gran_window priv (granidx + bitidx) (64 - bitidx) cur"
    "gran_window priv (granidx + bitidx + 32) (64 - bitidx - 32) nxt"
  shows "gran_scan priv n msk granidx alloc cur nxt bitidx =
    map_option (\<lambda>p. granule_addr priv (granidx + p)) (find (\<lambda>p. gran_fits priv n (granidx + p)) [bitidx..<32])"
  using assms
proof (induction priv n msk granidx alloc cur nxt bitidx rule: gran_scan.induct)
  case (1 priv n msk granidx alloc cur nxt bitidx)
  let ?fits = "\<lambda>p. gran_fits priv n (granidx + p)" and ?sh = "gran_shift cur msk"
  note n = "1.prems"(1,2) and msk = "1.prems"(3) and alloc = "1.prems"(4)
    and cur = "1.prems"(5) and nxt = "1.prems"(6)
  consider (stop) "\<not> (bitidx < 32 \<and> granidx + bitidx + n \<le> gr_ngranules priv)"
    | (full) "bitidx < 32" "granidx + bitidx + n \<le> gr_ngranules priv" "cur = 0xffffffff"
    | (found) "bitidx < 32" "granidx + bitidx + n \<le> gr_ngranules priv" "cur \<noteq> 0xffffffff" "?sh = 0"
    | (shift) "bitidx < 32" "granidx + bitidx + n \<le> gr_ngranules priv" "cur \<noteq> 0xffffffff" "?sh \<noteq> 0"
    by blast
  then show ?case
  proof cases
    case stop
    then have "find ?fits [bitidx..<32] = None" by (auto simp: find_None_upt gran_fits_def)
    with stop show ?thesis by (subst gran_scan.simps) auto
  next
    case full
    have "\<not> ?fits p" if "bitidx \<le> p" "p < 32" for p
      using gran_window_busy [OF cur, of "p - bitidx" n] n(1) that unfolding full(3) bit_ones by simp
    then have "find ?fits [bitidx..<32] = None" by (auto simp: find_None_upt)
    then show ?thesis using full by (subst gran_scan.simps) simp
  next
    case found
    then have "?fits bitidx"
      using gran_window_fits [OF cur n] gran_shift_cases(1) [of cur msk] n(2) msk by simp
    then have "find ?fits [bitidx..<32] = Some bitidx" using found(1) by (simp add: upt_conv_Cons)
    then show ?thesis using found alloc by (subst gran_scan.simps) (simp add: Let_def)
  next
    case shift
    have sh: "0 < ?sh" "?sh \<le> 16" using shift(4) gran_shift_cases(3) by auto
    have skip: "\<not> ?fits p" if "bitidx \<le> p" "p < bitidx + ?sh" for p
      using gran_shift_skips [OF cur _ n shift(2) msk shift(4), of "p - bitidx"] that shift(1) by simp
    note w = gran_window_shift [OF cur nxt sh]
    have "gran_scan priv n msk granidx (alloc + ?sh * 2 ^ gr_log2gran priv)
        (drop_bit ?sh cur OR push_bit (32 - ?sh) nxt) (drop_bit ?sh nxt) (bitidx + ?sh) =
        map_option (\<lambda>p. granule_addr priv (granidx + p)) (find ?fits [bitidx + ?sh..<32])"
      using w alloc by (intro "1.IH" [OF conjI [OF shift(1,2)] shift(3) refl shift(4) n msk])
        (simp_all add: granule_addr_def algebra_simps)
    also have "find ?fits [bitidx + ?sh..<32] = find ?fits [bitidx..<32]"
      using skip by (intro find_upt_skip [symmetric]) auto
    finally show ?thesis using shift by (subst gran_scan.simps) (simp add: Let_def)
  qed
qed

lemma upt_split: "i \<le> j \<Longrightarrow> j \<le> k \<Longrightarrow> [i..<k] = [i..<j] @ [j..<k]"
  using upt_add_eq_append [of i j "k - j"] by simp

lemma find_fits_split:
  assumes "0 < n" "g \<le> gr_ngranules priv"
  shows "find (gran_fits priv n) [g..<gr_ngranules priv] =
    (case find (gran_fits priv n) [g..<g + 32] of
       None \<Rightarrow> find (gran_fits priv n) [g + 32..<gr_ngranules priv] | Some p \<Rightarrow> Some p)"
proof (cases "g + 32 \<le> gr_ngranules priv")
  case True
  then have "[g..<gr_ngranules priv] = [g..<g + 32] @ [g + 32..<gr_ngranules priv]"
    by (intro upt_split) auto
  then show ?thesis by (simp add: find_append_case)
next
  case False
  let ?N = "gr_ngranules priv"
  have "[g..<g + 32] = [g..<?N] @ [?N..<g + 32]"
    using False assms(2) by (intro upt_split) auto
  moreover have "find (gran_fits priv n) [?N..<g + 32] = None"
    using assms(1) by (auto simp: find_None_upt gran_fits_def)
  ultimately show ?thesis using False by (auto simp: find_append_case split: option.splits)
qed

lemma gran_search_first:
  assumes wf: "gran_wf priv" and n: "0 < n" "n \<le> 32" and msk: "msk = drop_bit (32 - n) 0xffffffff"
    and g: "granidx mod 32 = 0"
  shows "gran_search past priv n msk granidx =
    map_option (granule_addr priv) (find (gran_fits priv n) [granidx..<gr_ngranules priv])"
  using assms
proof (induction past priv n msk granidx rule: gran_search.induct)
  case (1 past priv n msk granidx)
  let ?N = "gr_ngranules priv" and ?gat = "gr_gat priv" and ?fits = "gran_fits priv n"
  let ?cur = "?gat ! (granidx div 32)"
  let ?nxt = "if granidx div 32 + 1 < length ?gat then ?gat ! (granidx div 32 + 1) else past"
  note wf = "1.prems"(1) and n = "1.prems"(2,3) and msk = "1.prems"(4) and g = "1.prems"(5)
  show ?case
  proof (cases "granidx < ?N")
    case False
    then show ?thesis by (subst gran_search.simps) simp
  next
    case True
    have pos: "(granidx + j) div 32 = granidx div 32" "(granidx + j) mod 32 = j"
        "(granidx + 32 + j) div 32 = granidx div 32 + 1" "(granidx + 32 + j) mod 32 = j"
      if "j < 32" for j using g that by (auto simp: div_add1_eq mod_add_eq [symmetric])
    have cur: "bit ?cur j = gat_bit ?gat (granidx + j)" if "j < 32" for j
      using pos [OF that] by (simp add: gat_bit_def)
    have "granidx div 32 + 1 < length ?gat" if "j < 32" "granidx + 32 + j < ?N" for j
      using wf that g by (auto simp: gran_wf_def)
    then have nxt: "bit ?nxt j = gat_bit ?gat (granidx + 32 + j)" if "j < 32" "granidx + 32 + j < ?N" for j
      using pos [OF that(1)] that by (simp add: gat_bit_def)
    have scan: "gran_scan priv n msk granidx (gr_heapstart priv + granidx * 2 ^ gr_log2gran priv) ?cur ?nxt 0 =
        map_option (granule_addr priv) (find ?fits [granidx..<granidx + 32])"
      using gran_scan_first [OF n msk, of _ priv granidx 0 ?cur ?nxt] cur nxt
        find_upt_shift [of granidx ?fits 0 32, symmetric]
      by (simp add: granule_addr_def gran_window_def option.map_comp comp_def)
    have step: "gran_search past priv n msk (granidx + 32) =
        map_option (granule_addr priv) (find ?fits [granidx + 32..<?N])"
      if "?cur = 0xffffffff \<or> find ?fits [granidx..<granidx + 32] = None"
    proof (cases "?cur = 0xffffffff")
      case t: True
      show ?thesis by (rule "1.IH"(1) [OF True refl refl t wf n msk]) (use g in simp)
    next
      case f: False
      then have "find ?fits [granidx..<granidx + 32] = None" using that by simp
      then show ?thesis
        using g True scan by (intro "1.IH"(2) [OF True refl refl f refl _ wf n msk]) simp_all
    qed
    have full: "find ?fits [granidx..<granidx + 32] = None" if "?cur = 0xffffffff"
    proof -
      have "\<not> ?fits p" if "granidx \<le> p" "p < granidx + 32" for p
        using cur [of "p - granidx"] that gran_fitsD(2) [OF _ n(1), of priv p]
        unfolding \<open>?cur = 0xffffffff\<close> bit_ones by auto
      then show ?thesis by (auto simp: find_None_upt)
    qed
    show ?thesis
      using True scan step full find_fits_split [OF n(1), of granidx priv]
      by (subst gran_search.simps) (auto simp: Let_def split: option.splits)
  qed
qed

section \<open>Allocation and release\<close>

lemma gran_count_pos: "0 < sz \<Longrightarrow> 0 < gran_count priv sz"
  by (simp add: gran_count_def div_greater_zero_iff)

lemma gran_count_covers: "sz \<le> gran_count priv sz * 2 ^ gr_log2gran priv"
proof -
  let ?G = "2 ^ gr_log2gran priv :: nat"
  have "(sz + (?G - 1)) mod ?G < ?G" by (rule mod_less_divisor) simp
  moreover have "(sz + (?G - 1)) div ?G * ?G + (sz + (?G - 1)) mod ?G = sz + (?G - 1)"
    by (rule div_mult_mod_eq)
  ultimately show ?thesis unfolding gran_count_def by linarith
qed

lemma gran_mark_fields [simp]:
  "gr_log2gran (gran_mark_allocated priv a n) = gr_log2gran priv"
  "gr_ngranules (gran_mark_allocated priv a n) = gr_ngranules priv"
  "gr_heapstart (gran_mark_allocated priv a n) = gr_heapstart priv"
  "length (gr_gat (gran_mark_allocated priv a n)) = length (gr_gat priv)"
  by (simp_all add: gran_mark_allocated_def Let_def)

lemma gran_free_fields [simp]:
  "gr_log2gran (gran_free priv a sz) = gr_log2gran priv"
  "gr_ngranules (gran_free priv a sz) = gr_ngranules priv"
  "gr_heapstart (gran_free priv a sz) = gr_heapstart priv"
  "length (gr_gat (gran_free priv a sz)) = length (gr_gat priv)"
  by (simp_all add: gran_free_def Let_def)

lemma gran_alloc_find:
  assumes "gran_wf priv" "0 < sz" "gran_count priv sz \<le> 32" "0 \<le> ret"
  shows "gran_alloc past ret priv sz =
    (case find (gran_fits priv (gran_count priv sz)) [0..<gr_ngranules priv] of
       None \<Rightarrow> (NULL, priv)
     | Some p \<Rightarrow> (granule_addr priv p, gran_mark_allocated priv (granule_addr priv p) (gran_count priv sz)))"
  using gran_search_first [OF assms(1) gran_count_pos [OF assms(2)] assms(3) refl, of 0 past] assms(2,4)
  by (simp add: gran_alloc_def Let_def split: option.splits)

text \<open>A client: it allocates, and it frees allocations it has not freed yet.\<close>

datatype gran_op = GAlloc nat | GFree nat

type_synonym gran_client = "gran_s \<times> (nat \<times> nat) list"

fun gran_step :: "32 word \<Rightarrow> gran_op \<Rightarrow> gran_client \<Rightarrow> gran_client" where
  "gran_step past (GAlloc sz) (priv, live) =
     (let (a, priv') = gran_alloc past OK priv sz
      in (priv', if a = NULL then live else (a, sz) # live))"
| "gran_step past (GFree k) (priv, live) =
     (if k < length live
      then (gran_free priv (fst (live ! k)) (snd (live ! k)), take k live @ drop (Suc k) live)
      else (priv, live))"

fun gran_op_ok :: "gran_s \<Rightarrow> gran_op \<Rightarrow> bool" where
  "gran_op_ok priv (GAlloc sz) \<longleftrightarrow> gran_count priv sz \<le> 32"
| "gran_op_ok priv (GFree k) \<longleftrightarrow> True"

text \<open>The granules of an allocation, and the invariant of a heap with its live allocations.\<close>

definition gran_block :: "gran_s \<Rightarrow> nat \<times> nat \<Rightarrow> nat set" where
  "gran_block priv b = {granule_of priv (fst b)..<granule_of priv (fst b) + gran_count priv (snd b)}"

definition gran_block_ok :: "gran_s \<Rightarrow> nat \<times> nat \<Rightarrow> bool" where
  "gran_block_ok priv b \<longleftrightarrow> 0 < snd b \<and> gran_count priv (snd b) \<le> 32 \<and>
     fst b = granule_addr priv (granule_of priv (fst b)) \<and>
     granule_of priv (fst b) + gran_count priv (snd b) \<le> gr_ngranules priv"

definition gran_inv :: "gran_client \<Rightarrow> bool" where
  "gran_inv st \<longleftrightarrow> (let (priv, live) = st in
     gran_wf priv \<and> 0 < gr_heapstart priv \<and> list_all (gran_block_ok priv) live \<and>
     sorted_wrt (\<lambda>b c. gran_block priv b \<inter> gran_block priv c = {}) live \<and>
     (\<forall>i < 32 * length (gr_gat priv). gat_bit (gr_gat priv) i \<longleftrightarrow> (\<exists>b \<in> set live. i \<in> gran_block priv b)))"

lemma gran_block_same [simp]:
  "gran_block (gran_mark_allocated priv a n) = gran_block priv"
  "gran_block (gran_free priv a sz) = gran_block priv"
  "gran_block_ok (gran_mark_allocated priv a n) = gran_block_ok priv"
  "gran_block_ok (gran_free priv a sz) = gran_block_ok priv"
  "gran_count (gran_mark_allocated priv a n) = gran_count priv"
  "gran_count (gran_free priv a sz) = gran_count priv"
  by (auto simp: fun_eq_iff gran_block_def gran_block_ok_def granule_of_def granule_addr_def gran_count_def)

lemma gran_alloc_inv:
  assumes inv: "gran_inv (priv, live)" and cnt: "gran_count priv sz \<le> 32"
    and st: "gran_step past (GAlloc sz) (priv, live) = (priv', live')"
  shows "gran_inv (priv', live')" "gran_count priv' = gran_count priv"
proof -
  have wf: "gran_wf priv" and hs: "0 < gr_heapstart priv" using inv by (auto simp: gran_inv_def)
  let ?n = "gran_count priv sz"
  have "gran_inv (priv', live') \<and> gran_count priv' = gran_count priv"
  proof (cases "0 < sz \<and> find (gran_fits priv ?n) [0..<gr_ngranules priv] \<noteq> None")
    case False
    then have "gran_alloc past OK priv sz = (NULL, priv)"
      using gran_alloc_find [OF wf _ cnt, of OK past] by (cases "0 < sz") (auto simp: OK_def gran_alloc_def)
    with st inv show ?thesis by simp
  next
    case True
    then obtain p where p: "find (gran_fits priv ?n) [0..<gr_ngranules priv] = Some p" by auto
    then have fits: "gran_fits priv ?n p" by (auto simp: find_Some_iff)
    let ?a = "granule_addr priv p"
    have n: "0 < ?n" using True gran_count_pos by simp
    have st': "priv' = gran_mark_allocated priv ?a ?n" "live' = (?a, sz) # live"
      using st p hs True gran_alloc_find [OF wf _ cnt, of OK past] by (auto simp: OK_def granule_addr_def)
    have blk: "gran_block priv (?a, sz) = {p..<p + ?n}" by (simp add: gran_block_def)
    have bound: "p + ?n \<le> gr_ngranules priv" "p + ?n \<le> 32 * length (gr_gat priv)"
      using fits wf by (auto simp: gran_fits_def gran_wf_def)
    have bits: "gat_bit (gr_gat priv') i \<longleftrightarrow> gat_bit (gr_gat priv) i \<or> p \<le> i \<and> i < p + ?n" for i
      using gran_mark_allocated_bits [of priv ?a ?n i] bound n cnt st'(1) by simp
    have free: "\<not> gat_bit (gr_gat priv) i" if "p \<le> i" "i < p + ?n" for i
    proof -
      have "i - p < ?n" "p + (i - p) = i" using that by auto
      then show ?thesis using fits unfolding gran_fits_def by metis
    qed
    have "gran_block priv (?a, sz) \<inter> gran_block priv b = {}" if "b \<in> set live" for b
    proof -
      have "gat_bit (gr_gat priv) i" if "i \<in> gran_block priv b" "i < p + ?n" for i
        using inv that \<open>b \<in> set live\<close> bound by (auto simp: gran_inv_def)
      then show ?thesis using free unfolding blk by fastforce
    qed
    moreover have "gran_block_ok priv (?a, sz)" using True cnt bound by (simp add: gran_block_ok_def)
    ultimately show ?thesis
      using inv st' bits blk by (auto simp: gran_inv_def gran_wf_def)
  qed
  then show "gran_inv (priv', live')" "gran_count priv' = gran_count priv" by auto
qed

lemma gran_free_inv:
  assumes inv: "gran_inv (priv, live)" and st: "gran_step past (GFree k) (priv, live) = (priv', live')"
  shows "gran_inv (priv', live')" "gran_count priv' = gran_count priv"
proof -
  have "gran_inv (priv', live') \<and> gran_count priv' = gran_count priv"
  proof (cases "k < length live")
    case True
    let ?b = "live ! k" and ?xs = "take k live" and ?ys = "drop (Suc k) live"
    have live: "live = ?xs @ ?b # ?ys" using True by (simp add: id_take_nth_drop)
    have st': "priv' = gran_free priv (fst ?b) (snd ?b)" "live' = ?xs @ ?ys" using st True by auto
    have ok: "gran_block_ok priv ?b" and wf: "gran_wf priv" using inv True by (auto simp: gran_inv_def list_all_length)
    then have bits: "gat_bit (gr_gat priv') i \<longleftrightarrow> gat_bit (gr_gat priv) i \<and> i \<notin> gran_block priv ?b" for i
      using gran_free_bits [of priv "fst ?b" "gran_count priv (snd ?b)" "snd ?b" i] st'(1)
        gran_count_pos [of "snd ?b" priv]
      by (simp add: gran_block_ok_def gran_wf_def gran_block_def)
    have old: "gat_bit (gr_gat priv) i \<longleftrightarrow> (\<exists>b \<in> set (?xs @ ?b # ?ys). i \<in> gran_block priv b)"
      if "i < 32 * length (gr_gat priv)" for i using inv that live by (simp add: gran_inv_def)
    have "sorted_wrt (\<lambda>b c. gran_block priv b \<inter> gran_block priv c = {}) (?xs @ ?b # ?ys)"
      using inv live by (simp add: gran_inv_def)
    then have sorted: "sorted_wrt (\<lambda>b c. gran_block priv b \<inter> gran_block priv c = {}) (?xs @ ?ys)"
      and disj: "\<And>c i. c \<in> set ?xs \<union> set ?ys \<Longrightarrow> i \<in> gran_block priv c \<Longrightarrow> i \<notin> gran_block priv ?b"
      by (auto simp: sorted_wrt_append)
    have "gat_bit (gr_gat priv') i \<longleftrightarrow> (\<exists>b \<in> set (?xs @ ?ys). i \<in> gran_block priv b)"
      if "i < 32 * length (gr_gat priv)" for i
      using bits [of i] old [OF that] disj [of _ i] unfolding set_append set_simps by blast
    moreover have "list_all (gran_block_ok priv) (?xs @ ?ys)"
      using inv by (auto simp: gran_inv_def list_all_iff dest: in_set_takeD in_set_dropD)
    ultimately show ?thesis
      using inv st' sorted by (simp add: gran_inv_def gran_wf_def)
  qed (use st inv in auto)
  then show "gran_inv (priv', live')" "gran_count priv' = gran_count priv" by auto
qed

lemma gran_alloc_fields:
  "gr_log2gran (snd (gran_alloc past ret priv sz)) = gr_log2gran priv"
  "gr_ngranules (snd (gran_alloc past ret priv sz)) = gr_ngranules priv"
  "gr_heapstart (snd (gran_alloc past ret priv sz)) = gr_heapstart priv"
  by (simp_all add: gran_alloc_def Let_def split: option.split)

lemma gran_step_inv:
  assumes "gran_inv (priv, live)" "gran_op_ok priv e" "gran_step past e (priv, live) = (priv', live')"
  shows "gran_inv (priv', live') \<and> gran_count priv' = gran_count priv \<and> gr_heapstart priv' = gr_heapstart priv \<and>
    gr_log2gran priv' = gr_log2gran priv \<and> gr_ngranules priv' = gr_ngranules priv"
proof (cases e)
  case (GAlloc sz)
  moreover have "gr_heapstart priv' = gr_heapstart priv \<and> gr_log2gran priv' = gr_log2gran priv \<and>
      gr_ngranules priv' = gr_ngranules priv"
    using assms(3) GAlloc gran_alloc_fields [of past OK priv sz]
    by (cases "gran_alloc past OK priv sz") auto
  ultimately show ?thesis using gran_alloc_inv [of priv live sz past priv' live'] assms by simp
next
  case (GFree k)
  then show ?thesis using gran_free_inv [of priv live past k priv' live'] assms by (auto split: if_splits)
qed

lemma gran_op_ok_cong:
  "gran_count priv' = gran_count priv \<Longrightarrow> gran_op_ok priv' = gran_op_ok priv"
proof
  show "gran_count priv' = gran_count priv \<Longrightarrow> gran_op_ok priv' e = gran_op_ok priv e" for e by (cases e) auto
qed

lemma gran_run_inv:
  assumes "gran_inv (priv, live)" "list_all (gran_op_ok priv) es" "fold (gran_step past) es (priv, live) = (priv', live')"
  shows "gran_inv (priv', live') \<and> gr_heapstart priv' = gr_heapstart priv \<and>
    gr_log2gran priv' = gr_log2gran priv \<and> gr_ngranules priv' = gr_ngranules priv"
  using assms
proof (induction es arbitrary: priv live)
  case (Cons e es)
  obtain p1 l1 where 1: "gran_step past e (priv, live) = (p1, l1)" by (metis surj_pair)
  note s = gran_step_inv [OF Cons.prems(1) _ 1]
  have "list_all (gran_op_ok p1) es"
    using s Cons.prems(2) gran_op_ok_cong [of p1 priv] by simp
  then show ?case using Cons.IH [of p1 l1] s Cons.prems(2,3) 1 by simp
qed simp

lemma align_up_props:
  "x \<le> align_up k x" "2 ^ k dvd align_up k x" "align_up k x < x + 2 ^ k"
proof -
  let ?G = "2 ^ k :: nat" and ?y = "x + (2 ^ k - 1)"
  have "?y div ?G * ?G + ?y mod ?G = ?y" "?y mod ?G < ?G" by (rule div_mult_mod_eq, rule mod_less_divisor) simp
  then show "x \<le> align_up k x" "align_up k x < x + 2 ^ k" unfolding align_up_def by linarith+
qed (simp add: align_up_def)

lemma align_up_value: "align_up k x = (x div 2 ^ k + (if 2 ^ k dvd x then 0 else 1)) * 2 ^ k"
proof -
  let ?G = "2 ^ k :: nat"
  define q r where qr: "q = x div ?G" "r = x mod ?G"
  have r: "r < ?G" by (simp add: qr)
  have "(r + (?G - 1)) div ?G = (if r = 0 then 0 else 1)"
  proof (cases "r = 0")
    case False
    then show ?thesis using r by (auto intro!: div_nat_eqI)
  qed simp
  moreover have "(q * ?G + (r + (?G - 1))) div ?G = q + (r + (?G - 1)) div ?G"
    by (rule div_mult_self3) simp
  moreover have "x + (?G - 1) = q * ?G + (r + (?G - 1))" using div_mult_mod_eq [of x ?G] unfolding qr by linarith
  ultimately show ?thesis by (simp only: align_up_def qr dvd_eq_mod_eq_0)
qed

lemma gran_initialize_fields:
  assumes "gran_initialize start hsz l al True = Some priv" "align_up al start \<le> start + hsz" "start + hsz < 2 ^ 32"
  shows "gr_log2gran priv = l" "gr_heapstart priv = align_up al start"
    "gr_heapstart priv + gr_ngranules priv * 2 ^ l \<le> start + hsz"
    "0 < start \<Longrightarrow> gran_inv (priv, [])"
proof -
  let ?sz = "start + hsz - align_up al start"
  have "(start + hsz + 2 ^ 32 - align_up al start) mod 2 ^ 32 = ?sz"
    using assms(2,3) by (simp add: le_mod_geq)
  then have p: "priv = \<lparr>gr_log2gran = l, gr_ngranules = ?sz div 2 ^ l mod 2 ^ 16, gr_heapstart = align_up al start,
      gr_gat = replicate (SIZEOF_GAT (?sz div 2 ^ l)) 0\<rparr>"
    using assms(1) by (simp add: gran_initialize_def Let_def align_down_def)
  then show "gr_log2gran priv = l" "gr_heapstart priv = align_up al start" by simp_all
  have "?sz div 2 ^ l mod 2 ^ 16 \<le> ?sz div 2 ^ l" by (rule mod_less_eq_dividend)
  then have "?sz div 2 ^ l mod 2 ^ 16 * 2 ^ l \<le> ?sz"
    by (meson div_times_less_eq_dividend mult_le_mono1 order_trans)
  then show "gr_heapstart priv + gr_ngranules priv * 2 ^ l \<le> start + hsz" using assms(2) p by simp
  assume "0 < start"
  then have "0 < align_up al start" using align_up_props(1) [of start al] by simp
  moreover have "?sz div 2 ^ l mod 2 ^ 16 \<le> 32 * SIZEOF_GAT (?sz div 2 ^ l)"
    using \<open>?sz div 2 ^ l mod 2 ^ 16 \<le> ?sz div 2 ^ l\<close> unfolding SIZEOF_GAT_def by linarith
  ultimately show "gran_inv (priv, [])"
    using p by (auto simp: gran_inv_def gran_wf_def gat_bit_def less_mult_imp_div_less mult.commute)
qed

lemma gran_block_bytes:
  assumes "gran_block_ok priv b" "fst b \<le> x" "x < fst b + snd b"
  shows "(x - gr_heapstart priv) div 2 ^ gr_log2gran priv \<in> gran_block priv b"
proof -
  let ?g = "granule_of priv (fst b)" and ?n = "gran_count priv (snd b)" and ?G = "2 ^ gr_log2gran priv :: nat"
  have "fst b = gr_heapstart priv + ?g * ?G" using assms(1) by (simp add: gran_block_ok_def granule_addr_def)
  moreover have "snd b \<le> ?n * ?G" by (rule gran_count_covers)
  ultimately have "?g * ?G \<le> x - gr_heapstart priv" "x - gr_heapstart priv < (?g + ?n) * ?G"
    using assms(2,3) by (auto simp: algebra_simps)
  then show ?thesis
    by (simp add: gran_block_def div_less_iff_less_mult less_eq_div_iff_mult_less_eq)
qed

lemma gran_block_range:
  assumes "gran_block_ok priv (a, sz)" "gr_heapstart priv + gr_ngranules priv * 2 ^ gr_log2gran priv \<le> heapend"
  shows "gr_heapstart priv \<le> a" "a + sz \<le> heapend" "2 ^ gr_log2gran priv dvd a - gr_heapstart priv"
proof -
  let ?G = "2 ^ gr_log2gran priv :: nat"
  have b: "a = gr_heapstart priv + granule_of priv a * ?G" "granule_of priv a + gran_count priv sz \<le> gr_ngranules priv"
    using assms(1) by (auto simp: gran_block_ok_def granule_addr_def)
  have "(granule_of priv a + gran_count priv sz) * ?G \<le> gr_ngranules priv * ?G"
    using b(2) by (rule mult_le_mono1)
  then show "a + sz \<le> heapend"
    using b(1) gran_count_covers [of sz priv] assms(2) by (simp add: algebra_simps)
  show "gr_heapstart priv \<le> a" "?G dvd a - gr_heapstart priv" using b(1) by (simp, metis add_diff_cancel_left' dvd_triv_right)
qed

section \<open>The granule allocator as an allocator\<close>

text \<open>
  \<open>gran_alloc\<close> and \<open>gran_free\<close> meet the contract of \<open>Alloc_Interface\<close> for requests of at most 32 granules
  of \<open>2 ^ l\<close> bytes.
\<close>

definition gran_rep :: "nat \<Rightarrow> gran_s \<Rightarrow> (nat \<times> nat) list \<Rightarrow> bool" where
  "gran_rep l priv live \<longleftrightarrow> gran_inv (priv, live) \<and> gr_log2gran priv = l"

lemma gran_inv_apart:
  assumes "gran_inv (priv, live)"
  shows "apart live"
proof -
  have disj: "{fst b..<fst b + snd b} \<inter> {fst c..<fst c + snd c} = {}"
    if "gran_block priv b \<inter> gran_block priv c = {}" "b \<in> set live" "c \<in> set live" for b c
    using that assms gran_block_bytes [of priv b] gran_block_bytes [of priv c]
    by (fastforce simp: gran_inv_def list_all_iff)
  have "sorted_wrt (\<lambda>b c. gran_block priv b \<inter> gran_block priv c = {}) live"
    using assms by (simp add: gran_inv_def)
  then show ?thesis
    unfolding apart_def by (rule sorted_wrt_mono_rel [rotated]) (rule disj)
qed

interpretation gran: allocator "gran_rep l" "\<lambda>priv n. Some (gran_alloc past OK priv n)"
  "\<lambda>priv a n. Some (gran_free priv a n)" "\<lambda>n. (n + (2 ^ l - 1)) div 2 ^ l \<le> 32" for l past
proof
  fix priv :: gran_s and live :: "(nat \<times> nat) list" and n :: nat
  assume r: "gran_rep l priv live" and n: "(n + (2 ^ l - 1)) div 2 ^ l \<le> 32"
  obtain a priv' where a: "gran_alloc past OK priv n = (a, priv')" by (metis surj_pair)
  have "gran_op_ok priv (GAlloc n)" using r n by (simp add: gran_rep_def gran_count_def)
  then have "gran_rep l priv' (if a = NULL then live else (a, n) # live)"
    using gran_step_inv [of priv live "GAlloc n" past priv'] r a by (simp add: gran_rep_def)
  then show "\<exists>p h'. Some (gran_alloc past OK priv n) = Some (p, h') \<and> gran_rep l h' (if p = NULL then live else (p, n) # live)"
    using a by auto
next
  fix priv xs a n ys
  assume r: "gran_rep l priv (xs @ (a, n) # ys)"
  show "\<exists>h'. Some (gran_free priv a n) = Some h' \<and> gran_rep l h' (xs @ ys)"
    using gran_step_inv [of priv "xs @ (a, n) # ys" "GFree (length xs)" past] r
    by (simp add: gran_rep_def nth_append)
next
  fix priv live
  show "gran_rep l priv live \<Longrightarrow> apart live" by (auto simp: gran_rep_def intro: gran_inv_apart)
qed

section \<open>Properties\<close>

text \<open>
  C14. \<open>gran_alloc\<close> is first fit and complete: it returns NULL, with the table unchanged, only
  when no sequence of free granules is long enough; otherwise it returns the lowest address at
  which the request fits and marks exactly its granules. This holds whatever the word behind
  the table contains, which \<open>gran_alloc\<close> reads when it examines the last entry.
\<close>

theorem gran_alloc_first_fit:
  assumes "gran_wf priv" "0 < gr_heapstart priv" "0 < sz" "gran_count priv sz \<le> 32" "0 \<le> ret"
    and "gran_alloc past ret priv sz = (a, priv')"
  shows "if a = NULL then priv' = priv \<and> (\<forall>p. \<not> gran_fits priv (gran_count priv sz) p)
    else \<exists>p. a = granule_addr priv p \<and> gran_fits priv (gran_count priv sz) p \<and>
      (\<forall>q < p. \<not> gran_fits priv (gran_count priv sz) q) \<and>
      (\<forall>i. gat_bit (gr_gat priv') i \<longleftrightarrow> gat_bit (gr_gat priv) i \<or> p \<le> i \<and> i < p + gran_count priv sz)"
proof (cases "find (gran_fits priv (gran_count priv sz)) [0..<gr_ngranules priv]")
  case None
  have "\<not> gran_fits priv (gran_count priv sz) p" for p
    using None gran_fitsD(1) [OF _ gran_count_pos [OF assms(3)]] by (auto simp: find_None_upt)
  then show ?thesis using gran_alloc_find [OF assms(1,3-5)] assms(6) None by simp
next
  case (Some p)
  let ?n = "gran_count priv sz"
  have fits: "gran_fits priv ?n p" using Some by (auto simp: find_Some_iff)
  moreover have "\<not> gran_fits priv ?n q" if "q < p" for q
    using Some that by (auto simp: find_Some_iff)
  moreover have "gat_bit (gr_gat (gran_mark_allocated priv (granule_addr priv p) ?n)) i \<longleftrightarrow>
      gat_bit (gr_gat priv) i \<or> p \<le> i \<and> i < p + ?n" for i
    using gran_mark_allocated_bits [of priv "granule_addr priv p" ?n i] fits assms(1,3,4) gran_count_pos
    by (simp add: gran_fits_def gran_wf_def)
  moreover have "a = granule_addr priv p" "priv' = gran_mark_allocated priv (granule_addr priv p) ?n" "a \<noteq> NULL"
    using gran_alloc_find [OF assms(1,3-5)] assms(2,6) Some by (auto simp: granule_addr_def)
  ultimately show ?thesis by auto
qed

definition demo_gran :: gran_s where
  "demo_gran = \<lparr>gr_log2gran = 4, gr_ngranules = 40, gr_heapstart = 0x1000, gr_gat = [mask 31, 0]\<rparr>"

theorem gran_alloc_first_fit_witness:
  "fst (gran_alloc 0 OK demo_gran 33) = granule_addr demo_gran 31"
proof -
  obtain a priv' where r: "gran_alloc 0 OK demo_gran 33 = (a, priv')" by (metis surj_pair)
  have n: "gran_count demo_gran 33 = 3" by (simp add: gran_count_def demo_gran_def)
  have gat: "gat_bit (gr_gat demo_gran) i \<longleftrightarrow> i < 31" if "i < 64" for i
  proof (cases "i < 32")
    case True
    then show ?thesis by (simp add: gat_bit_def demo_gran_def bit_mask_iff)
  next
    case False
    then have "i div 32 = 1" using that by simp
    with False show ?thesis by (simp add: gat_bit_def demo_gran_def)
  qed
  have fits: "gran_fits demo_gran 3 31" using gat by (auto simp: gran_fits_def demo_gran_def)
  have low: "\<not> gran_fits demo_gran 3 q" if "q < 31" for q
    using gat [of q] that gran_fitsD(2) [of demo_gran 3 q] by auto
  have ok: "gran_wf demo_gran" "0 < gr_heapstart demo_gran" "(0::nat) < 33" "gran_count demo_gran 33 \<le> 32" "0 \<le> OK"
    using n by (simp_all add: gran_wf_def demo_gran_def OK_def)
  from gran_alloc_first_fit [OF ok r] fits low n have "a = granule_addr demo_gran 31"
    by (auto split: if_splits) (metis linorder_neqE_nat)
  then show ?thesis using r by simp
qed

text \<open>
  C15. Whatever sequence of requests of at most 32 granules and of releases of live
  allocations a client makes on a heap set up by \<open>gran_initialize\<close>, its live allocations never
  overlap, lie within the memory given to the heap and have the alignment asked for, and
  a granule is marked in the table exactly when it belongs to a live allocation.
\<close>

theorem gran_client_safe:
  assumes "gran_initialize start hsz l al True = Some priv" "0 < start" "align_up al start \<le> start + hsz"
    "start + hsz < 2 ^ 32" "al \<le> l" "list_all (gran_op_ok priv) es"
    and run: "fold (gran_step past) es (priv, []) = (priv', live)"
  shows "(\<forall>j < length live. \<forall>k < j. {fst (live ! k)..<fst (live ! k) + snd (live ! k)} \<inter>
        {fst (live ! j)..<fst (live ! j) + snd (live ! j)} = {}) \<and>
    (\<forall>(a, sz) \<in> set live. start \<le> a \<and> a + sz \<le> start + hsz \<and> 2 ^ al dvd a) \<and>
    (\<forall>i < gr_ngranules priv. gat_bit (gr_gat priv') i \<longleftrightarrow> (\<exists>b \<in> set live. i \<in> gran_block priv' b))"
proof (intro conjI)
  note f = gran_initialize_fields [OF assms(1,3,4)]
  have inv: "gran_inv (priv', live)" and same: "gr_heapstart priv' = align_up al start" "gr_log2gran priv' = l"
    "gr_ngranules priv' = gr_ngranules priv"
    using gran_run_inv [OF f(4) [OF assms(2)] assms(6) run] f by auto
  have ok: "gran_block_ok priv' b" if "b \<in> set live" for b
    using inv that by (auto simp: gran_inv_def list_all_iff)
  show "\<forall>j < length live. \<forall>k < j. {fst (live ! k)..<fst (live ! k) + snd (live ! k)} \<inter>
      {fst (live ! j)..<fst (live ! j) + snd (live ! j)} = {}"
  proof (intro allI impI)
    fix j k assume "j < length live" "k < j"
    then have "gran_block priv' (live ! k) \<inter> gran_block priv' (live ! j) = {}"
      using inv by (simp add: gran_inv_def sorted_wrt_iff_nth_less)
    then show "{fst (live ! k)..<fst (live ! k) + snd (live ! k)} \<inter> {fst (live ! j)..<fst (live ! j) + snd (live ! j)} = {}"
      using gran_block_bytes [of priv' "live ! k"] gran_block_bytes [of priv' "live ! j"] ok
        \<open>j < length live\<close> \<open>k < j\<close> by fastforce
  qed
  show "\<forall>(a, sz) \<in> set live. start \<le> a \<and> a + sz \<le> start + hsz \<and> 2 ^ al dvd a"
  proof clarify
    fix a sz assume "(a, sz) \<in> set live"
    note r = gran_block_range [OF ok [OF this], of "start + hsz"]
    have le: "align_up al start \<le> a" "a + sz \<le> start + hsz" "2 ^ l dvd a - align_up al start"
      using r f same by auto
    then have "2 ^ al dvd a - align_up al start" using le_imp_power_dvd [OF assms(5), of "2::nat"] by (meson dvd_trans)
    then have "2 ^ al dvd a" using align_up_props(2) [of al start] le(1) by (metis dvd_diffD)
    then show "start \<le> a \<and> a + sz \<le> start + hsz \<and> 2 ^ al dvd a"
      using le align_up_props(1) [of start al] by simp
  qed
  show "\<forall>i < gr_ngranules priv. gat_bit (gr_gat priv') i \<longleftrightarrow> (\<exists>b \<in> set live. i \<in> gran_block priv' b)"
    using inv same by (simp add: gran_inv_def gran_wf_def)
qed

theorem gran_client_safe_witness:
  "\<exists>priv priv' live. gran_initialize 0x1004 0x200 6 4 True = Some priv \<and>
     fold (gran_step 0) [GAlloc 100, GAlloc 64, GFree 1, GAlloc 65] (priv, []) = (priv', live) \<and>
     (\<forall>(a, sz) \<in> set live. 0x1004 \<le> a \<and> a + sz \<le> 0x1204 \<and> 2 ^ 4 dvd a)"
proof -
  let ?es = "[GAlloc 100, GAlloc 64, GFree 1, GAlloc 65]"
  obtain priv where p: "gran_initialize 0x1004 0x200 6 4 True = Some priv"
    by (simp add: gran_initialize_def Let_def)
  then have "gr_log2gran priv = 6" by (auto simp: gran_initialize_def Let_def)
  then have "list_all (gran_op_ok priv) ?es" by (simp add: gran_count_def)
  moreover obtain priv' live where "fold (gran_step 0) ?es (priv, []) = (priv', live)" by (metis surj_pair)
  ultimately show ?thesis
    using gran_client_safe [OF p, of ?es 0 priv' live] p by (auto simp: align_up_def)
qed

text \<open>
  C16. \<open>gran_reserve\<close> takes every granule that the region touches out of the heap, and one
  granule more unless the last byte of the region is the first byte of a granule: the end is
  rounded up and the granule it then lies in is counted as well.
\<close>

theorem gran_reserve_marks:
  assumes "0 < sz" "gr_heapstart priv \<le> start" "2 ^ gr_log2gran priv dvd gr_heapstart priv"
    and "granule_of priv (start + sz - 1) + 2 \<le> 32 * length (gr_gat priv)"
    and "granule_of priv (start + sz - 1) + 2 \<le> granule_of priv start + 32"
  shows "gat_bit (gr_gat (gran_reserve priv start sz)) i \<longleftrightarrow>
    gat_bit (gr_gat priv) i \<or> granule_of priv start \<le> i \<and>
      i \<le> granule_of priv (start + sz - 1) +
        (if 2 ^ gr_log2gran priv dvd start + sz - 1 then 0 else 1)"
proof -
  let ?G = "2 ^ gr_log2gran priv :: nat" and ?fin = "start + sz - 1"
  obtain h where h: "gr_heapstart priv = h * ?G" using assms(3) by (auto elim: dvdE)
  have g: "granule_of priv x = x div ?G - h" if x: "h * ?G \<le> x" for x
  proof -
    obtain y where "x = h * ?G + y" using le_Suc_ex [OF x] by blast
    then show ?thesis by (simp add: granule_of_def h)
  qed
  define n where "n = (align_up (gr_log2gran priv) ?fin - align_down (gr_log2gran priv) start) div ?G + 1"
  note up = align_up_value [of "gr_log2gran priv" ?fin]
  have mono: "start div ?G \<le> ?fin div ?G" using assms(1) by (intro div_le_mono) simp
  have n: "n = ?fin div ?G + (if ?G dvd ?fin then 0 else 1) - start div ?G + 1"
    unfolding n_def up align_down_def by (simp flip: diff_mult_distrib)
  have hs: "h \<le> start div ?G" using assms(2) h by (simp add: less_eq_div_iff_mult_less_eq)
  have gs: "granule_of priv start = start div ?G - h" "granule_of priv ?fin = ?fin div ?G - h"
    using assms(1,2) h by (auto intro!: g)
  have ga: "granule_of priv (align_down (gr_log2gran priv) start) = granule_of priv start"
    using hs gs(1) by (subst g) (auto simp: align_down_def)
  have r: "gran_reserve priv start sz = gran_mark_allocated priv (align_down (gr_log2gran priv) start) n"
    using assms(1) by (simp add: gran_reserve_def Let_def n_def)
  define more where "more = (if ?G dvd ?fin then 0 else 1 :: nat)"
  have n': "granule_of priv start + n = granule_of priv ?fin + more + 1" "more \<le> 1"
    unfolding n gs more_def [symmetric] using hs mono by (linarith, simp add: more_def)
  have bound: "granule_of priv start + n \<le> 32 * length (gr_gat priv)" "n \<le> 32" "0 < n"
    using n' assms(4,5) n by linarith+
  show ?thesis
    unfolding more_def [symmetric] r gran_mark_allocated_bits [of priv "align_down (gr_log2gran priv) start" n i,
        unfolded ga, OF bound(1,3,2)] n'(1) by auto
qed

theorem gran_reserve_marks_witness:
  "gat_bit (gr_gat (gran_reserve \<lparr>gr_log2gran = 4, gr_ngranules = 8, gr_heapstart = 0x100, gr_gat = [0]\<rparr> 0x100 18)) 2"
  using gran_reserve_marks [where sz = 18 and start = "0x100" and i = 2
      and priv = "\<lparr>gr_log2gran = 4, gr_ngranules = 8, gr_heapstart = 0x100, gr_gat = [0]\<rparr>"]
  by (simp add: granule_of_def dvd_eq_mod_eq_0)

end
