(* ===== verification/Gran_Info.thy ===== *)
theory Gran_Info
  imports Gran
begin

unbundle bit_operations_syntax

text \<open>
  \<open>gran_info\<close> of \<open>mm/mm_gran/mm_graninfo.c\<close>: the number of free granules and the longest
  sequence of free granules, computed from the table a word, a half word, a byte and a nibble
  at a time, with precomputed tables for the nibbles and a rule that combines what is known
  of two adjacent pieces. The counters fit their types, since a heap has at most 65535
  granules, and are natural numbers here.
\<close>

section \<open>The code\<close>

record nibble_info_s =
  ni_nfree :: nat
  ni_nlsfree :: nat
  ni_nmsfree :: nat
  ni_mxfree :: nat

record valinfo_s =
  vi_nfree :: nat
  vi_nlsfree :: nat
  vi_nmsfree :: nat
  vi_mxfree :: nat

definition nib :: "nat \<Rightarrow> nat \<Rightarrow> nat \<Rightarrow> nat \<Rightarrow> nibble_info_s" where
  "nib a b c d = \<lparr>ni_nfree = a, ni_nlsfree = b, ni_nmsfree = c, ni_mxfree = d\<rparr>"

definition g_0bit_info :: "nibble_info_s list" where
  "g_0bit_info = [nib 0 0 0 0]"

definition g_1bit_info :: "nibble_info_s list" where
  "g_1bit_info = [nib 1 1 0 0, nib 0 0 0 0]"

definition g_2bit_info :: "nibble_info_s list" where
  "g_2bit_info = [nib 2 2 0 0, nib 1 0 1 0, nib 1 1 0 0, nib 0 0 0 0]"

definition g_3bit_info :: "nibble_info_s list" where
  "g_3bit_info =
     [nib 3 3 0 0, nib 2 0 2 0, nib 2 1 1 0, nib 1 0 1 0,
      nib 2 2 0 0, nib 1 0 0 1, nib 1 1 0 0, nib 0 0 0 0]"

definition g_4bit_info :: "nibble_info_s list" where
  "g_4bit_info =
     [nib 4 4 0 0, nib 3 0 3 0, nib 3 1 2 0, nib 2 0 2 0,
      nib 3 2 1 0, nib 2 0 1 1, nib 2 1 1 0, nib 1 0 1 0,
      nib 3 3 0 0, nib 2 0 0 2, nib 2 1 0 1, nib 1 0 0 1,
      nib 2 2 0 0, nib 1 0 0 1, nib 1 1 0 0, nib 0 0 0 0]"

definition g_info_table :: "nibble_info_s list list" where
  "g_info_table = [g_0bit_info, g_1bit_info, g_2bit_info, g_3bit_info, g_4bit_info]"

definition valinfo_of :: "nibble_info_s \<Rightarrow> valinfo_s" where
  "valinfo_of n = \<lparr>vi_nfree = ni_nfree n, vi_nlsfree = ni_nlsfree n, vi_nmsfree = ni_nmsfree n,
     vi_mxfree = ni_mxfree n\<rparr>"

definition gran_nibble_info :: "8 word \<Rightarrow> nat \<Rightarrow> valinfo_s" where
  "gran_nibble_info v nbits =
     (let table = g_info_table ! nbits;
          msk = push_bit nbits 1 - 1;
          v = v AND msk
      in valinfo_of (table ! unat v))"

definition gran_info_combine :: "valinfo_s \<Rightarrow> nat \<Rightarrow> valinfo_s \<Rightarrow> nat \<Rightarrow> valinfo_s" where
  "gran_info_combine msinfo msbits lsinfo lsbits =
     (let midfree = (if vi_nlsfree lsinfo < lsbits \<and> vi_nlsfree msinfo < msbits
                     then vi_nmsfree lsinfo + vi_nlsfree msinfo else 0);
          lsinfo = lsinfo\<lparr>vi_nfree := vi_nfree lsinfo + vi_nfree msinfo\<rparr>;
          lsinfo = (if vi_nlsfree msinfo = msbits
                    then if vi_nlsfree lsinfo = lsbits then lsinfo\<lparr>vi_nmsfree := 0\<rparr>
                         else lsinfo\<lparr>vi_nmsfree := vi_nmsfree lsinfo + msbits\<rparr>
                    else lsinfo\<lparr>vi_nmsfree := vi_nmsfree msinfo\<rparr>);
          lsinfo = (if vi_nlsfree lsinfo = lsbits
                    then lsinfo\<lparr>vi_nlsfree := vi_nlsfree lsinfo + vi_nlsfree msinfo\<rparr> else lsinfo);
          lsinfo = (if midfree > vi_mxfree lsinfo then lsinfo\<lparr>vi_mxfree := midfree\<rparr> else lsinfo)
      in if vi_mxfree msinfo > vi_mxfree lsinfo then lsinfo\<lparr>vi_mxfree := vi_mxfree msinfo\<rparr> else lsinfo)"

definition gran_byte_info :: "8 word \<Rightarrow> nat \<Rightarrow> valinfo_s" where
  "gran_byte_info v nbits =
     (let (v, msk) = (if nbits < 8 then let msk = push_bit nbits 1 - 1 in (v AND msk, msk)
                      else (v, 0xff))
      in if v = 0 then \<lparr>vi_nfree = nbits, vi_nlsfree = nbits, vi_nmsfree = 0, vi_mxfree = 0\<rparr>
         else if v = msk then \<lparr>vi_nfree = 0, vi_nlsfree = 0, vi_nmsfree = 0, vi_mxfree = 0\<rparr>
         else let info = gran_nibble_info (v AND 0x0f) (if nbits > 4 then 4 else nbits)
              in if nbits > 4
                 then let msbits = nbits - 4
                      in gran_info_combine (gran_nibble_info (drop_bit 4 v) msbits) msbits info 4
                 else info)"

definition gran_hword_info :: "16 word \<Rightarrow> nat \<Rightarrow> valinfo_s" where
  "gran_hword_info v nbits =
     (let (v, msk) = (if nbits < 16 then let msk = push_bit nbits 1 - 1 in (v AND msk, msk)
                      else (v, 0xffff))
      in if v = 0 then \<lparr>vi_nfree = nbits, vi_nlsfree = nbits, vi_nmsfree = 0, vi_mxfree = 0\<rparr>
         else if v = msk then \<lparr>vi_nfree = 0, vi_nlsfree = 0, vi_nmsfree = 0, vi_mxfree = 0\<rparr>
         else let info = gran_byte_info (ucast (v AND 0xff)) (if nbits > 8 then 8 else nbits)
              in if nbits > 8
                 then let msbits = nbits - 8
                      in gran_info_combine (gran_byte_info (ucast (drop_bit 8 v)) msbits) msbits info 8
                 else info)"

text \<open>The part of \<open>gran_info\<close> for a word that is neither all free nor all allocated.\<close>

definition gran_word_info :: "32 word \<Rightarrow> nat \<Rightarrow> valinfo_s" where
  "gran_word_info v nbits =
     (let info = gran_hword_info (ucast (v AND 0xffff)) (if nbits > 16 then 16 else nbits)
      in if nbits > 16
         then let msbits = nbits - 16
              in gran_info_combine (gran_hword_info (ucast (drop_bit 16 v)) msbits) msbits info 16
         else info)"

record graninfo_s =
  gi_log2gran :: nat
  gi_ngranules :: nat
  gi_nfree :: nat
  gi_mxfree :: nat

text \<open>One round of the loop; \<open>mxfree\<close> is the running sequence of free granules.\<close>

definition gran_info_word :: "32 word \<Rightarrow> 32 word \<Rightarrow> nat \<Rightarrow> nat \<times> graninfo_s \<Rightarrow> nat \<times> graninfo_s" where
  "gran_info_word v msk nbits st =
     (let (mxfree, info) = st
      in if v = msk
         then (0, if mxfree > gi_mxfree info then info\<lparr>gi_mxfree := mxfree\<rparr> else info)
         else if v = 0
         then (mxfree + nbits, info\<lparr>gi_nfree := gi_nfree info + nbits\<rparr>)
         else let hwinfo = gran_word_info v nbits;
                  mxfree = (if vi_nlsfree hwinfo > 0 then mxfree + vi_nlsfree hwinfo else mxfree);
                  (mxfree, info) =
                    (if vi_nlsfree hwinfo < nbits
                     then let mxfree = (if vi_mxfree hwinfo > mxfree then vi_mxfree hwinfo else mxfree);
                              info = (if mxfree > gi_mxfree info then info\<lparr>gi_mxfree := mxfree\<rparr> else info)
                          in (vi_nmsfree hwinfo, info)
                     else (mxfree, info))
              in (mxfree, info\<lparr>gi_nfree := gi_nfree info + vi_nfree hwinfo\<rparr>))"

function gran_info_loop :: "gran_s \<Rightarrow> nat \<Rightarrow> nat \<times> graninfo_s \<Rightarrow> nat \<times> graninfo_s" where
  "gran_info_loop priv granidx st =
     (if granidx < gr_ngranules priv
      then let v = gr_gat priv ! (granidx div 32);
               (nbits, msk, v) =
                 (if granidx + 32 > gr_ngranules priv
                  then let nbits = gr_ngranules priv - granidx; msk = push_bit nbits 1 - 1
                       in (nbits, msk, v AND msk)
                  else (32, 0xffffffff, v))
           in gran_info_loop priv (granidx + 32) (gran_info_word v msk nbits st)
      else st)"
  by pat_completeness auto
termination
  by (relation "measure (\<lambda>(priv, granidx, st). gr_ngranules priv - granidx)") auto

declare gran_info_loop.simps [simp del]

definition gran_info :: "int \<Rightarrow> gran_s \<Rightarrow> graninfo_s" where
  "gran_info ret priv =
     (let info = \<lparr>gi_log2gran = gr_log2gran priv, gi_ngranules = gr_ngranules priv, gi_nfree = 0, gi_mxfree = 0\<rparr>
      in if ret < 0 then info
         else let (mxfree, info) = gran_info_loop priv 0 (0, info)
              in if mxfree > gi_mxfree info then info\<lparr>gi_mxfree := mxfree\<rparr> else info)"

record pginfo_s =
  pg_ntotal :: nat
  pg_nfree :: nat
  pg_mxfree :: nat

definition mm_pginfo :: "int \<Rightarrow> gran_s \<Rightarrow> pginfo_s" where
  "mm_pginfo ret g_pgalloc =
     (let graninfo = gran_info ret g_pgalloc
      in \<lparr>pg_ntotal = gi_ngranules graninfo, pg_nfree = gi_nfree graninfo, pg_mxfree = gi_mxfree graninfo\<rparr>)"

section \<open>Sequences of free granules\<close>

text \<open>
  A list of flags, true for free, least significant first: the length of its leading, trailing
  and longest sequence of free entries.
\<close>

definition lead :: "bool list \<Rightarrow> nat" where
  "lead xs = length (takeWhile id xs)"

definition trail :: "bool list \<Rightarrow> nat" where
  "trail xs = lead (rev xs)"

primrec max_run :: "bool list \<Rightarrow> nat" where
  "max_run [] = 0"
| "max_run (x # xs) = max (lead (x # xs)) (max_run xs)"

primrec all_free :: "bool list \<Rightarrow> bool" where
  "all_free [] \<longleftrightarrow> True"
| "all_free (x # xs) \<longleftrightarrow> x \<and> all_free xs"

definition n_free :: "bool list \<Rightarrow> nat" where
  "n_free xs = length (filter id xs)"

lemma all_free_append [simp]: "all_free (xs @ ys) \<longleftrightarrow> all_free xs \<and> all_free ys"
  by (induction xs) auto

lemma all_free_rev [simp]: "all_free (rev xs) = all_free xs"
  by (induction xs) auto

lemma lead_simps [simp]:
  "lead [] = 0" "lead (x # xs) = (if x then Suc (lead xs) else 0)"
  "lead (xs @ ys) = (if all_free xs then length xs + lead ys else lead xs)"
  by (auto simp: lead_def) (induction xs; auto)+

lemma trail_append [simp]: "trail (xs @ ys) = (if all_free ys then trail xs + length ys else trail ys)"
  by (simp add: trail_def)

lemma lead_all: "lead xs = length xs \<longleftrightarrow> all_free xs" "lead xs < length xs \<longleftrightarrow> \<not> all_free xs" "lead xs \<le> length xs"
  by (induction xs) auto

lemma lead_le_max: "lead xs \<le> max_run xs"
  by (cases xs) auto

lemma trail_simps [simp]: "trail [] = 0" "trail (x # xs) = (if all_free xs then of_bool x + length xs else trail xs)"
  using trail_append [of "[x]" xs] by (auto simp: trail_def)

lemma max_run_all: "all_free xs \<Longrightarrow> max_run xs = length xs"
proof (induction xs)
  case (Cons x xs)
  then show ?case using lead_all(1) [of xs] by auto
qed simp

lemma trail_le_max: "trail xs \<le> max_run xs"
proof (induction xs)
  case (Cons x xs)
  then show ?case using lead_le_max [of xs] lead_all(1) [of xs] by auto
qed simp

lemma trail_all: "all_free xs \<Longrightarrow> trail xs = length xs"
  using lead_all(1) [of "rev xs"] by (simp add: trail_def)

lemma max_run_append: "max_run (xs @ ys) = max (max (max_run xs) (max_run ys)) (trail xs + lead ys)"
proof (induction xs)
  case Nil
  then show ?case using lead_le_max [of ys] by simp
next
  case (Cons x xs)
  show ?case
  proof (cases "all_free xs")
    case True
    then show ?thesis using Cons.IH lead_all(1) [of xs] max_run_all [of xs] trail_all [of xs] lead_le_max [of ys]
      by (cases x) auto
  next
    case False
    then show ?thesis using Cons.IH by (cases x) auto
  qed
qed

lemma runs_replicate [simp]:
  "all_free (replicate n True)" "lead (replicate n True) = n" "max_run (replicate n True) = n"
  "lead (replicate n False) = 0" "trail (replicate n False) = 0" "max_run (replicate n False) = 0"
  "n_free (replicate n b) = (if b then n else 0)" "all_free (replicate n False) \<longleftrightarrow> n = 0"
proof -
  show a: "all_free (replicate n True)" by (induction n) auto
  show "lead (replicate n True) = n" "max_run (replicate n True) = n"
    using lead_all(1) [of "replicate n True"] max_run_all [OF a] a by auto
  show "lead (replicate n False) = 0" by (cases n) auto
  then show "trail (replicate n False) = 0" by (simp add: trail_def)
  show "max_run (replicate n False) = 0" by (induction n) auto
  show "all_free (replicate n False) \<longleftrightarrow> n = 0" by (cases n) auto
qed (simp add: n_free_def)

lemma n_free_append [simp]: "n_free (xs @ ys) = n_free xs + n_free ys"
  by (simp add: n_free_def)

text \<open>What a \<open>valinfo_s\<close> says of a piece of the table.\<close>

definition valinfo_for :: "bool list \<Rightarrow> valinfo_s \<Rightarrow> bool" where
  "valinfo_for xs info \<longleftrightarrow> vi_nfree info = n_free xs \<and> vi_nlsfree info = lead xs \<and>
     vi_nmsfree info = (if all_free xs then 0 else trail xs) \<and>
     max_run xs = max (lead xs) (max (if all_free xs then 0 else trail xs) (vi_mxfree info))"

lemma gran_info_combine_fields:
  "vi_nfree (gran_info_combine ms msbits ls lsbits) = vi_nfree ls + vi_nfree ms"
  "vi_nlsfree (gran_info_combine ms msbits ls lsbits) =
     (if vi_nlsfree ls = lsbits then vi_nlsfree ls + vi_nlsfree ms else vi_nlsfree ls)"
  "vi_nmsfree (gran_info_combine ms msbits ls lsbits) =
     (if vi_nlsfree ms = msbits then if vi_nlsfree ls = lsbits then 0 else vi_nmsfree ls + msbits
      else vi_nmsfree ms)"
  "vi_mxfree (gran_info_combine ms msbits ls lsbits) =
     max (vi_mxfree ls) (max (vi_mxfree ms)
       (if vi_nlsfree ls < lsbits \<and> vi_nlsfree ms < msbits then vi_nmsfree ls + vi_nlsfree ms else 0))"
  by (auto simp: gran_info_combine_def Let_def)

lemma max_pieces_2: "a \<le> n \<Longrightarrow> max (max n (max l (max t b))) (n + l) = max (n + l) (max t (max a (max b 0)))" for a b l t n :: nat
  by (rule antisym; intro max.boundedI; simp add: le_max_iff_disj)

lemma max_pieces_3: "b \<le> n \<Longrightarrow> max (max (max l (max t a)) n) (t + n) = max l (max (t + n) (max a (max b 0)))" for a b l t n :: nat
  by (rule antisym; intro max.boundedI; simp add: le_max_iff_disj)

lemma max_pieces_4:
  "max (max (max a (max c b)) (max f (max d e))) (c + f) = max a (max d (max b (max e (c + f))))" for a b c d e f :: nat
  by (rule antisym; intro max.boundedI; simp add: le_max_iff_disj)

text \<open>The longest sequence of two adjacent pieces, from what is known of each of them.\<close>

lemma max_run_pieces:
  assumes "max_run xs = max (lead xs) (max (if all_free xs then 0 else trail xs) a)"
    "max_run ys = max (lead ys) (max (if all_free ys then 0 else trail ys) b)"
  shows "max_run (xs @ ys) = max (lead (xs @ ys)) (max (if all_free (xs @ ys) then 0 else trail (xs @ ys))
    (max a (max b (if \<not> all_free xs \<and> \<not> all_free ys then trail xs + lead ys else 0))))"
proof -
  consider "all_free xs" "all_free ys" | "all_free xs" "\<not> all_free ys" | "\<not> all_free xs" "all_free ys"
    | "\<not> all_free xs" "\<not> all_free ys" by blast
  then show ?thesis
  proof cases
    case 1
    then have "a \<le> length xs" "b \<le> length ys"
      using assms max_run_all [of xs] max_run_all [of ys] by (metis max.cobounded2 max.coboundedI2)+
    with 1 show ?thesis using max_run_all [of "xs @ ys"] lead_all(1) [of "xs @ ys"]
      by (simp add: max_absorb1 del: lead_simps)
  next
    case 2
    then have "a \<le> length xs" using assms(1) max_run_all [of xs] by (metis max.cobounded2 max.coboundedI2)
    note le = this
    have "max_run (xs @ ys) = max (max (length xs) (max (lead ys) (max (trail ys) b))) (length xs + lead ys)"
      using 2 assms(2) by (simp only: max_run_append max_run_all trail_all if_False)
    then show ?thesis using 2 by (simp only: max_pieces_2 [OF le]) simp
  next
    case 3
    then have "b \<le> length ys" using assms(2) max_run_all [of ys] by (metis max.cobounded2 max.coboundedI2)
    note le = this
    have "lead ys = length ys" using 3 lead_all(1) by blast
    then have "max_run (xs @ ys) = max (max (max (lead xs) (max (trail xs) a)) (length ys)) (trail xs + length ys)"
      using 3 assms(1) by (simp only: max_run_append max_run_all if_False)
    then show ?thesis using 3 by (simp only: max_pieces_3 [OF le]) simp
  next
    case 4
    then have "max_run (xs @ ys) = max (max (max (lead xs) (max (trail xs) a)) (max (lead ys) (max (trail ys) b)))
        (trail xs + lead ys)"
      using assms by (simp only: max_run_append if_False)
    then show ?thesis using 4 by (simp only: max_pieces_4) simp
  qed
qed

lemma gran_info_combine_for:
  assumes ms: "valinfo_for ys msinfo" and ls: "valinfo_for xs lsinfo"
  shows "valinfo_for (xs @ ys) (gran_info_combine msinfo (length ys) lsinfo (length xs))" (is "valinfo_for _ ?c")
proof -
  have f: "vi_nfree lsinfo = n_free xs" "vi_nlsfree lsinfo = lead xs" "vi_nmsfree lsinfo = (if all_free xs then 0 else trail xs)"
    "vi_nfree msinfo = n_free ys" "vi_nlsfree msinfo = lead ys" "vi_nmsfree msinfo = (if all_free ys then 0 else trail ys)"
    and mx: "max_run xs = max (lead xs) (max (if all_free xs then 0 else trail xs) (vi_mxfree lsinfo))"
    "max_run ys = max (lead ys) (max (if all_free ys then 0 else trail ys) (vi_mxfree msinfo))"
    using ms ls unfolding valinfo_for_def by blast+
  have "vi_nfree ?c = n_free (xs @ ys)" by (simp add: gran_info_combine_fields f)
  moreover have "vi_nlsfree ?c = lead (xs @ ys)" by (simp add: gran_info_combine_fields f lead_all)
  moreover have "vi_nmsfree ?c = (if all_free (xs @ ys) then 0 else trail (xs @ ys))"
    by (simp add: gran_info_combine_fields f lead_all)
  moreover have "vi_mxfree ?c = max (vi_mxfree lsinfo) (max (vi_mxfree msinfo)
      (if \<not> all_free xs \<and> \<not> all_free ys then trail xs + lead ys else 0))"
    by (simp add: gran_info_combine_fields f lead_all)
  moreover have "max_run (xs @ ys) = max (lead (xs @ ys)) (max (if all_free (xs @ ys) then 0 else trail (xs @ ys))
      (max (vi_mxfree lsinfo) (max (vi_mxfree msinfo)
        (if \<not> all_free xs \<and> \<not> all_free ys then trail xs + lead ys else 0))))"
    by (rule max_run_pieces [OF mx])
  ultimately show ?thesis by (simp only: valinfo_for_def simp_thms)
qed

section \<open>Nibbles, bytes, half words and words\<close>

definition wbits :: "nat \<Rightarrow> 'a::len word \<Rightarrow> bool list" where
  "wbits n w = map (\<lambda>i. \<not> bit w i) [0..<n]"

lemma length_wbits [simp]: "length (wbits n w) = n"
  by (simp add: wbits_def)

lemma wbits_cong: "(\<And>i. i < n \<Longrightarrow> bit v i = bit w i) \<Longrightarrow> wbits n v = wbits n w"
  by (simp add: wbits_def)

lemma wbits_split: "k \<le> n \<Longrightarrow> wbits n w = wbits k w @ wbits (n - k) (drop_bit k w)"
  by (rule nth_equalityI) (auto simp: wbits_def nth_append bit_drop_bit_eq)

lemma wbits_take [simp]: "wbits n (take_bit n w) = wbits n w"
  by (rule wbits_cong) (simp add: bit_take_bit_iff)

lemma wbits_drop_take: "wbits (n - k) (drop_bit k (take_bit n w)) = wbits (n - k) (drop_bit k w)"
  by (rule wbits_cong) (auto simp: bit_take_bit_iff bit_drop_bit_eq)

lemma wbits_all:
  "take_bit n w = 0 \<Longrightarrow> wbits n w = replicate n True"
  "n \<le> LENGTH('a) \<Longrightarrow> take_bit n w = mask n \<Longrightarrow> wbits n w = replicate n False" for w :: "'a::len word"
proof -
  have "wbits n w = wbits n (take_bit n w)" by simp
  moreover assume "take_bit n w = 0"
  ultimately show "wbits n w = replicate n True" by (simp add: wbits_def map_replicate_const)
next
  have "wbits n w = wbits n (take_bit n w)" by simp
  moreover assume "take_bit n w = mask n" "n \<le> LENGTH('a)"
  ultimately have "wbits n w = map (\<lambda>i. \<not> bit (mask n :: 'a word) i) [0..<n]" by (simp only: wbits_def)
  also have "\<dots> = replicate n False"
    using \<open>n \<le> LENGTH('a)\<close> by (intro nth_equalityI) (auto simp: bit_mask_iff)
  finally show "wbits n w = replicate n False" .
qed

lemma low_mask: "push_bit n 1 - 1 = (mask n :: 'a::len word)"
  by (simp add: mask_eq_exp_minus_1 push_bit_of_1)

lemma and_mask: "w AND mask n = take_bit n w" for w :: "'a::len word"
  by (simp add: take_bit_eq_mask)

lemma valinfo_all_free: "valinfo_for (replicate n True) \<lparr>vi_nfree = n, vi_nlsfree = n, vi_nmsfree = 0, vi_mxfree = 0\<rparr>"
  by (simp add: valinfo_for_def)

lemma valinfo_none_free: "valinfo_for (replicate n False) \<lparr>vi_nfree = 0, vi_nlsfree = 0, vi_nmsfree = 0, vi_mxfree = 0\<rparr>"
  by (simp add: valinfo_for_def)

text \<open>The tables, entry by entry.\<close>

lemma nibble_tables:
  "list_all (\<lambda>n. list_all (\<lambda>u. valinfo_for (map (\<lambda>i. even (u div 2 ^ i)) [0..<n])
     (valinfo_of (g_info_table ! n ! u))) [0..<2 ^ n]) [0..<5]"
  by code_simp

lemma gran_nibble_info_for:
  assumes "n \<le> 4"
  shows "valinfo_for (wbits n v) (gran_nibble_info v n)"
proof -
  let ?u = "take_bit n (unat v)"
  have "bit v i \<longleftrightarrow> bit ?u i" if "i < n" for i using that by (simp add: bit_take_bit_iff bit_unsigned_iff)
  then have "wbits n v = map (\<lambda>i. even (?u div 2 ^ i)) [0..<n]"
    by (simp add: wbits_def bit_iff_odd)
  moreover have "gran_nibble_info v n = valinfo_of (g_info_table ! n ! ?u)"
    unfolding gran_nibble_info_def Let_def low_mask and_mask unsigned_take_bit_eq ..
  moreover have "?u < 2 ^ n" by simp
  ultimately show ?thesis using nibble_tables assms by (simp add: list_all_iff)
qed

text \<open>
  A byte and a half word are handled alike: what is known of the low and of the high
  part gives what is known of the whole.
\<close>

lemma valinfo_parts:
  assumes low: "valinfo_for (wbits (min k n) w) lo"
    and high: "k < n \<Longrightarrow> valinfo_for (wbits (n - k) (drop_bit k w)) hi"
  shows "valinfo_for (wbits n w) (if n > k then gran_info_combine hi (n - k) lo k else lo)"
proof (cases "k < n")
  case True
  then show ?thesis
    using gran_info_combine_for [OF high [OF True], of "wbits k w" lo] low wbits_split [of k n w] by simp
qed (use low in simp)

lemma gran_byte_info_for:
  assumes "n \<le> 8"
  shows "valinfo_for (wbits n v) (gran_byte_info v n)"
proof -
  let ?v = "take_bit n v"
  have e: "(if n < 8 then let msk = push_bit n 1 - 1 in (v AND msk, msk) else (v, 0xff)) = (?v, mask n)"
  proof (cases "n < 8")
    case False
    then have "n = 8" using assms by simp
    moreover have "take_bit 8 v = v" by (rule take_bit_word_eq_self) simp
    ultimately show ?thesis by (simp add: mask_eq_exp_minus_1)
  qed (simp only: low_mask and_mask Let_def if_True)
  have b: "gran_byte_info v n = (if ?v = 0 then \<lparr>vi_nfree = n, vi_nlsfree = n, vi_nmsfree = 0, vi_mxfree = 0\<rparr>
      else if ?v = mask n then \<lparr>vi_nfree = 0, vi_nlsfree = 0, vi_nmsfree = 0, vi_mxfree = 0\<rparr>
      else if n > 4 then gran_info_combine (gran_nibble_info (drop_bit 4 ?v) (n - 4)) (n - 4)
          (gran_nibble_info (?v AND 0x0f) (min 4 n)) 4
        else gran_nibble_info (?v AND 0x0f) (min 4 n))"
    unfolding gran_byte_info_def e by (simp add: Let_def min_def)
  have "wbits (min 4 n) (?v AND 0x0f) = wbits (min 4 n) v"
    using and_mask [of ?v 4] by (intro wbits_cong) (auto simp: mask_eq_exp_minus_1 bit_take_bit_iff)
  then have "valinfo_for (wbits (min 4 n) v) (gran_nibble_info (?v AND 0x0f) (min 4 n))"
    using gran_nibble_info_for [of "min 4 n" "?v AND 0x0f"] by simp
  moreover have "valinfo_for (wbits (n - 4) (drop_bit 4 v)) (gran_nibble_info (drop_bit 4 ?v) (n - 4))"
    using gran_nibble_info_for [of "n - 4" "drop_bit 4 ?v"] assms wbits_drop_take [of n 4 v] by simp
  ultimately have "valinfo_for (wbits n v) (if n > 4 then gran_info_combine (gran_nibble_info (drop_bit 4 ?v) (n - 4)) (n - 4)
      (gran_nibble_info (?v AND 0x0f) (min 4 n)) 4 else gran_nibble_info (?v AND 0x0f) (min 4 n))"
    by (rule valinfo_parts)
  then show ?thesis
    unfolding b using wbits_all [of n v] assms valinfo_all_free [of n] valinfo_none_free [of n] by simp
qed

lemma gran_hword_info_for:
  assumes "n \<le> 16"
  shows "valinfo_for (wbits n v) (gran_hword_info v n)"
proof -
  let ?v = "take_bit n v"
  let ?lo = "gran_byte_info (ucast (?v AND 0xff)) (min 8 n)" and ?hi = "gran_byte_info (ucast (drop_bit 8 ?v)) (n - 8)"
  have e: "(if n < 16 then let msk = push_bit n 1 - 1 in (v AND msk, msk) else (v, 0xffff)) = (?v, mask n)"
  proof (cases "n < 16")
    case False
    then have "n = 16" using assms by simp
    moreover have "take_bit 16 v = v" by (rule take_bit_word_eq_self) simp
    ultimately show ?thesis by (simp add: mask_eq_exp_minus_1)
  qed (simp only: low_mask and_mask Let_def if_True)
  have b: "gran_hword_info v n = (if ?v = 0 then \<lparr>vi_nfree = n, vi_nlsfree = n, vi_nmsfree = 0, vi_mxfree = 0\<rparr>
      else if ?v = mask n then \<lparr>vi_nfree = 0, vi_nlsfree = 0, vi_nmsfree = 0, vi_mxfree = 0\<rparr>
      else if n > 8 then gran_info_combine ?hi (n - 8) ?lo 8 else ?lo)"
    unfolding gran_hword_info_def e by (simp add: Let_def min_def)
  have m: "(0xff :: 16 word) = mask 8" by (simp add: mask_eq_exp_minus_1)
  have "wbits (min 8 n) (ucast (?v AND 0xff) :: 8 word) = wbits (min 8 n) v"
    unfolding m and_mask wbits_def by (auto simp: bit_take_bit_iff bit_unsigned_iff)
  then have "valinfo_for (wbits (min 8 n) v) ?lo"
    using gran_byte_info_for [of "min 8 n" "ucast (?v AND 0xff)"] by simp
  moreover have "wbits (n - 8) (ucast (drop_bit 8 ?v) :: 8 word) = wbits (n - 8) (drop_bit 8 v)"
    using assms unfolding wbits_def by (auto simp: bit_take_bit_iff bit_unsigned_iff bit_drop_bit_eq)
  then have "valinfo_for (wbits (n - 8) (drop_bit 8 v)) ?hi"
    using gran_byte_info_for [of "n - 8" "ucast (drop_bit 8 ?v)"] assms by simp
  ultimately have "valinfo_for (wbits n v) (if n > 8 then gran_info_combine ?hi (n - 8) ?lo 8 else ?lo)"
    by (rule valinfo_parts)
  then show ?thesis
    unfolding b using wbits_all [of n v] assms valinfo_all_free [of n] valinfo_none_free [of n] by simp
qed

lemma gran_word_info_for:
  assumes "n \<le> 32"
  shows "valinfo_for (wbits n v) (gran_word_info v n)"
proof -
  let ?lo = "gran_hword_info (ucast (v AND 0xffff)) (min 16 n)" and ?hi = "gran_hword_info (ucast (drop_bit 16 v)) (n - 16)"
  have b: "gran_word_info v n = (if n > 16 then gran_info_combine ?hi (n - 16) ?lo 16 else ?lo)"
    unfolding gran_word_info_def by (simp add: Let_def min_def)
  have m: "(0xffff :: 32 word) = mask 16" by (simp add: mask_eq_exp_minus_1)
  have "wbits (min 16 n) (ucast (v AND 0xffff) :: 16 word) = wbits (min 16 n) v"
    unfolding m and_mask wbits_def by (auto simp: bit_take_bit_iff bit_unsigned_iff)
  then have "valinfo_for (wbits (min 16 n) v) ?lo"
    using gran_hword_info_for [of "min 16 n" "ucast (v AND 0xffff)"] by simp
  moreover have "wbits (n - 16) (ucast (drop_bit 16 v) :: 16 word) = wbits (n - 16) (drop_bit 16 v)"
    using assms unfolding wbits_def by (auto simp: bit_unsigned_iff bit_drop_bit_eq)
  then have "valinfo_for (wbits (n - 16) (drop_bit 16 v)) ?hi"
    using gran_hword_info_for [of "n - 16" "ucast (drop_bit 16 v)"] assms by simp
  ultimately show ?thesis unfolding b by (rule valinfo_parts)
qed

section \<open>The whole table\<close>

text \<open>What the loop of \<open>gran_info\<close> knows after the granules \<open>xs\<close>.\<close>

definition graninfo_for :: "gran_s \<Rightarrow> bool list \<Rightarrow> nat \<times> graninfo_s \<Rightarrow> bool" where
  "graninfo_for priv xs st \<longleftrightarrow> fst st = trail xs \<and> max (gi_mxfree (snd st)) (trail xs) = max_run xs \<and>
     gi_nfree (snd st) = n_free xs \<and> gi_log2gran (snd st) = gr_log2gran priv \<and>
     gi_ngranules (snd st) = gr_ngranules priv"

lemma max_steps:
  fixes b t n l m u :: nat
  shows "max (max b t) 0 = max (max (max b t) 0) t"
    "max b (t + n) = max (max (max b t) n) (t + n)"
    "max (max b (max (t + l) m)) u = max (max (max b t) (max l (max u m))) (t + l)"
  by (rule antisym; intro max.boundedI; simp add: le_max_iff_disj)+

lemma gran_info_word_for:
  assumes st: "graninfo_for priv xs st" and n: "0 < n" "n \<le> 32"
  shows "graninfo_for priv (xs @ wbits n v) (gran_info_word (take_bit n v) (mask n) n st)"
proof -
  obtain t info where sti: "st = (t, info)" by (cases st)
  have t: "t = trail xs" and best: "max_run xs = max (gi_mxfree info) t" and nf: "gi_nfree info = n_free xs"
    and rest: "gi_log2gran info = gr_log2gran priv" "gi_ngranules info = gr_ngranules priv"
    using st by (simp_all add: graninfo_for_def sti)
  consider "take_bit n v = mask n" | "take_bit n v \<noteq> mask n" "take_bit n v = 0"
    | "take_bit n v \<noteq> mask n" "take_bit n v \<noteq> 0" by blast
  then show ?thesis
  proof cases
    case 1
    have ws: "wbits n v = replicate n False" using wbits_all(2) [of n v] 1 n by simp
    have "max_run (xs @ wbits n v) = max (max (max (gi_mxfree info) t) 0) t"
      unfolding ws max_run_append best using t n by simp
    then show ?thesis
      using 1 n rest nf by (simp add: graninfo_for_def gran_info_word_def sti ws max_steps(1) [symmetric] del: max_0R)
  next
    case 2
    have ws: "wbits n v = replicate n True" using wbits_all(1) [of n v] 2 by simp
    have "max_run (xs @ wbits n v) = max (max (max (gi_mxfree info) t) n) (t + n)"
      unfolding ws max_run_append best using t by simp
    then show ?thesis
      using 2 rest nf t by (simp add: graninfo_for_def gran_info_word_def sti ws max_steps(2) [symmetric])
  next
    case 3
    let ?hw = "gran_word_info (take_bit n v) n"
    have hw: "valinfo_for (wbits n v) ?hw" using gran_word_info_for [OF n(2), of "take_bit n v"] by simp
    have f: "vi_nfree ?hw = n_free (wbits n v)" "vi_nlsfree ?hw = lead (wbits n v)"
      "vi_nmsfree ?hw = (if all_free (wbits n v) then 0 else trail (wbits n v))"
      "max_run (wbits n v) = max (lead (wbits n v)) (max (if all_free (wbits n v) then 0 else trail (wbits n v)) (vi_mxfree ?hw))"
      using hw unfolding valinfo_for_def by blast+
    have "\<not> all_free (wbits n v)"
    proof
      assume "all_free (wbits n v)"
      then have "\<not> bit v i" if "i < n" for i
        using that by (induction n arbitrary: i) (auto simp: wbits_def less_Suc_eq)
      then have "take_bit n v = 0" by (intro bit_eqI) (simp add: bit_take_bit_iff)
      with 3(2) show False by simp
    qed
    note na = this
    have "lead (wbits n v) < n" using lead_all(2) [of "wbits n v"] na by simp
    moreover have "max_run (xs @ wbits n v) =
        max (max (max (gi_mxfree info) t) (max (lead (wbits n v)) (max (trail (wbits n v)) (vi_mxfree ?hw))))
          (t + lead (wbits n v))"
      using f(4) na t best by (simp only: max_run_append if_False)
    ultimately show ?thesis
      using 3 na rest nf f(1-3) t
      by (simp add: graninfo_for_def gran_info_word_def sti max_steps(3) [symmetric] max_def [symmetric] Let_def)
  qed
qed

text \<open>The granules of a heap in order, true for free.\<close>

definition gran_free_map :: "gran_s \<Rightarrow> nat \<Rightarrow> bool list" where
  "gran_free_map priv n = map (\<lambda>i. \<not> gat_bit (gr_gat priv) i) [0..<n]"

lemma gran_free_map_extend:
  assumes "g mod 32 = 0" "n \<le> 32"
  shows "gran_free_map priv (g + n) = gran_free_map priv g @ wbits n (gr_gat priv ! (g div 32))"
proof -
  have "(g + j) div 32 = g div 32" "(g + j) mod 32 = j" if "j < n" for j
    using assms that by (auto simp: div_add1_eq mod_add_eq [symmetric])
  then have "wbits n (gr_gat priv ! (g div 32)) = map (\<lambda>i. \<not> gat_bit (gr_gat priv) i) [g..<g + n]"
    by (intro nth_equalityI) (auto simp: wbits_def gat_bit_def)
  then show ?thesis by (simp add: gran_free_map_def upt_add_eq_append [symmetric] map_append [symmetric] del: map_append)
qed

lemma gran_info_loop_for:
  assumes "g mod 32 = 0" "graninfo_for priv (gran_free_map priv (min g (gr_ngranules priv))) st"
  shows "graninfo_for priv (gran_free_map priv (gr_ngranules priv)) (gran_info_loop priv g st)"
  using assms
proof (induction priv g st rule: gran_info_loop.induct)
  case (1 priv g st)
  let ?N = "gr_ngranules priv" and ?v = "gr_gat priv ! (g div 32)"
  show ?case
  proof (cases "g < ?N")
    case False
    then show ?thesis using "1.prems"(2) by (subst gran_info_loop.simps) (simp add: min_absorb2)
  next
    case True
    define n where "n = min 32 (?N - g)"
    have n: "0 < n" "n \<le> 32" using True by (auto simp: n_def)
    have parts: "(if g + 32 > ?N then let nbits = ?N - g; msk = push_bit nbits 1 - 1 in (nbits, msk, ?v AND msk)
        else (32, 0xffffffff, ?v)) = (n, mask n, take_bit n ?v)"
    proof (cases "g + 32 > ?N")
      case True
      then have "n = ?N - g" by (simp add: n_def)
      then show ?thesis using True by (simp only: Let_def low_mask and_mask if_True)
    next
      case False
      then have "n = 32" by (simp add: n_def)
      moreover have "take_bit 32 ?v = ?v" by (rule take_bit_word_eq_self) simp
      ultimately show ?thesis using False by (simp add: mask_eq_exp_minus_1)
    qed
    have "min (g + 32) ?N = g + n" using True by (auto simp: n_def)
    then have "graninfo_for priv (gran_free_map priv (min (g + 32) ?N)) (gran_info_word (take_bit n ?v) (mask n) n st)"
      using gran_info_word_for [OF _ n, of priv "gran_free_map priv g" st ?v] "1.prems" True
        gran_free_map_extend [OF "1.prems"(1) n(2), of priv] by simp
    then have "graninfo_for priv (gran_free_map priv ?N)
        (gran_info_loop priv (g + 32) (gran_info_word (take_bit n ?v) (mask n) n st))"
      using "1.prems"(1) by (intro "1.IH" [OF True refl parts [symmetric] refl refl]) simp_all
    then show ?thesis using True parts by (subst gran_info_loop.simps) (simp add: Let_def)
  qed
qed

lemma gran_info_exact_core:
  assumes "0 \<le> ret"
  shows "gran_info ret priv = \<lparr>gi_log2gran = gr_log2gran priv, gi_ngranules = gr_ngranules priv,
    gi_nfree = n_free (gran_free_map priv (gr_ngranules priv)),
    gi_mxfree = max_run (gran_free_map priv (gr_ngranules priv))\<rparr>"
proof -
  let ?i0 = "\<lparr>gi_log2gran = gr_log2gran priv, gi_ngranules = gr_ngranules priv, gi_nfree = 0, gi_mxfree = 0\<rparr>"
  obtain t info where r: "gran_info_loop priv 0 (0, ?i0) = (t, info)" by (metis surj_pair)
  have "graninfo_for priv (gran_free_map priv (min 0 (gr_ngranules priv))) (0, ?i0)"
    by (simp add: graninfo_for_def gran_free_map_def n_free_def)
  from gran_info_loop_for [OF _ this] r
  have "t = trail (gran_free_map priv (gr_ngranules priv))"
    "max (gi_mxfree info) t = max_run (gran_free_map priv (gr_ngranules priv))"
    "gi_nfree info = n_free (gran_free_map priv (gr_ngranules priv))"
    "gi_log2gran info = gr_log2gran priv" "gi_ngranules info = gr_ngranules priv"
    by (auto simp: graninfo_for_def)
  then show ?thesis using assms r by (auto simp: gran_info_def max_def split: if_splits)
qed

text \<open>A sequence of \<open>n\<close> free granules exists exactly when the longest one has \<open>n\<close>.\<close>

lemma lead_ge: "n \<le> lead xs \<longleftrightarrow> n \<le> length xs \<and> (\<forall>j < n. xs ! j)"
proof (induction xs arbitrary: n)
  case (Cons x xs)
  show ?case
  proof (cases n)
    case (Suc m)
    then show ?thesis using Cons.IH [of m] by (auto simp: less_Suc_eq_0_disj)
  qed simp
qed auto

lemma ex_nat_split: "(\<exists>p. P p) \<longleftrightarrow> P 0 \<or> (\<exists>p. P (Suc p))" for P :: "nat \<Rightarrow> bool"
  by (metis not0_implies_Suc)

lemma max_run_ge: "n \<le> max_run xs \<longleftrightarrow> (\<exists>p. p + n \<le> length xs \<and> (\<forall>j < n. xs ! (p + j)))"
proof (induction xs)
  case Nil
  then show ?case by auto
next
  case (Cons x xs)
  have "(\<exists>p. p + n \<le> length (x # xs) \<and> (\<forall>j < n. (x # xs) ! (p + j))) \<longleftrightarrow>
      n \<le> lead (x # xs) \<or> (\<exists>p. Suc p + n \<le> length (x # xs) \<and> (\<forall>j < n. (x # xs) ! (Suc p + j)))"
    unfolding lead_ge ex_nat_split [of "\<lambda>p. p + n \<le> length (x # xs) \<and> (\<forall>j < n. (x # xs) ! (p + j))"] by simp
  then show ?case using Cons.IH by (simp add: le_max_iff_disj del: lead_simps)
qed

section \<open>Properties\<close>

text \<open>
  C17. \<open>gran_info\<close> reports exactly the number of free granules of the heap and the length of
  its longest sequence of free granules: the word-, byte- and nibble-wise computation
  agrees with looking at the granules one by one.
\<close>

theorem gran_info_exact:
  assumes "0 \<le> ret"
  shows "gran_info ret priv = \<lparr>gi_log2gran = gr_log2gran priv, gi_ngranules = gr_ngranules priv,
    gi_nfree = n_free (gran_free_map priv (gr_ngranules priv)),
    gi_mxfree = max_run (gran_free_map priv (gr_ngranules priv))\<rparr>"
  using assms by (rule gran_info_exact_core)

theorem gran_info_exact_witness:
  "gi_mxfree (gran_info OK demo_gran) = 9 \<and> gi_nfree (gran_info OK demo_gran) = 9"
proof -
  have "gat_bit (gr_gat demo_gran) i \<longleftrightarrow> i < 31" if "i < 40" for i
    using that by (cases "i < 32") (auto simp: gat_bit_def demo_gran_def bit_mask_iff nth_Cons' div_eq_0_iff)
  then have "gran_free_map demo_gran 40 = replicate 31 False @ replicate 9 True"
    by (intro nth_equalityI) (auto simp: gran_free_map_def nth_append)
  moreover have "gr_ngranules demo_gran = 40" by (simp add: demo_gran_def)
  ultimately show ?thesis using gran_info_exact [of OK demo_gran] by (simp add: OK_def max_run_append)
qed

text \<open>
  C18. The report and the allocator agree: a request for as many granules as the reported
  longest sequence succeeds (when it is not larger than the 32 granules the allocator
  supports), and a request for more fails.
\<close>

theorem gran_info_predicts_alloc:
  assumes "gran_wf priv" "0 < gr_heapstart priv" "0 < sz" "gran_count priv sz \<le> 32" "0 \<le> ret"
  shows "fst (gran_alloc past ret priv sz) \<noteq> NULL \<longleftrightarrow> gran_count priv sz \<le> gi_mxfree (gran_info OK priv)"
proof -
  let ?n = "gran_count priv sz" and ?N = "gr_ngranules priv"
  have "fst (gran_alloc past ret priv sz) \<noteq> NULL \<longleftrightarrow> (\<exists>p < ?N. gran_fits priv ?n p)"
    using gran_alloc_find [OF assms(1,3-5), of past] assms(2)
    by (auto simp: find_None_upt granule_addr_def find_Some_iff split: option.splits)
  also have "\<dots> \<longleftrightarrow> (\<exists>p. gran_fits priv ?n p)"
    using gran_fitsD(1) [OF _ gran_count_pos [OF assms(3)]] by blast
  also have "\<dots> \<longleftrightarrow> ?n \<le> max_run (gran_free_map priv ?N)"
    unfolding max_run_ge gran_fits_def by (auto simp: gran_free_map_def)
  finally show ?thesis using gran_info_exact_core [of OK priv] by (simp add: OK_def)
qed

theorem gran_info_predicts_alloc_witness:
  "fst (gran_alloc 0 OK demo_gran 144) \<noteq> NULL \<longleftrightarrow> 9 \<le> gi_mxfree (gran_info OK demo_gran)"
proof -
  have "gran_count demo_gran 144 = 9" by (simp add: gran_count_def demo_gran_def)
  then show ?thesis
    using gran_info_predicts_alloc [of demo_gran 144 OK 0] by (simp add: gran_wf_def demo_gran_def OK_def)
qed

end
