(* ===== verification/Mm_Heap.thy ===== *)
theory Mm_Heap
  imports Prelude "HOL-Library.Monad_Syntax"
begin

unbundle bit_operations_syntax

text \<open>
  The memory manager of \<open>mm/mm_heap\<close>, for a target with 32 bit pointers and \<open>size_t\<close>, one
  region (\<open>CONFIG_MM_REGIONS = 1\<close>), \<open>CONFIG_MM_SMALL\<close> off and a flat build. A heap is
  the structure \<open>mm_heap_s\<close> together with the memory its nodes and blocks lie in: the four fields
  of a node are maps from the address of the node, the link of a node on the delay list is the word
  the field \<open>flink\<close> of the node has, and the contents of the blocks are the map \<open>mm_bytes\<close>.
  Addresses and sizes are natural numbers; \<open>sz32\<close> is the wrap-around of \<open>size_t\<close>, written where a
  caller supplies the number. Loops over links return \<open>None\<close> if they run forever, and so does
  a task that would block on the semaphore of the heap. Debug assertions are off.
  This theory is the code; the other theories with the prefix \<open>Mm\<close> are about it.
\<close>

section \<open>Constants and state\<close>

definition MM_MIN_SHIFT :: nat where "MM_MIN_SHIFT = 4"

definition MM_MAX_SHIFT :: nat where "MM_MAX_SHIFT = 22"

definition MM_MIN_CHUNK :: nat where "MM_MIN_CHUNK = 2 ^ MM_MIN_SHIFT"

definition MM_MAX_CHUNK :: nat where "MM_MAX_CHUNK = 2 ^ MM_MAX_SHIFT"

definition MM_NNODES :: nat where "MM_NNODES = MM_MAX_SHIFT - MM_MIN_SHIFT + 1"

definition MM_GRAN_MASK :: nat where "MM_GRAN_MASK = MM_MIN_CHUNK - 1"

definition MM_ALLOC_BIT :: nat where "MM_ALLOC_BIT = 0x80000000"

definition SIZEOF_MM_ALLOCNODE :: nat where "SIZEOF_MM_ALLOCNODE = 8"

definition SIZEOF_MM_FREENODE :: nat where "SIZEOF_MM_FREENODE = SIZEOF_MM_ALLOCNODE + 2 * 4"

definition NO_HOLDER :: int where "NO_HOLDER = -1"

definition ESRCH :: int where "ESRCH = 3"

definition ENOSYS :: int where "ENOSYS = 88"

definition sz32 :: "nat \<Rightarrow> nat" where
  "sz32 x = x mod 2 ^ 32"

text \<open>\<open>x & ~m\<close>.\<close>

definition clear_bits :: "nat \<Rightarrow> nat \<Rightarrow> nat" where
  "clear_bits x m = x - (x AND m)"

definition MM_ALIGN_UP :: "nat \<Rightarrow> nat" where
  "MM_ALIGN_UP a = clear_bits (sz32 (a + MM_GRAN_MASK)) MM_GRAN_MASK"

definition MM_ALIGN_DOWN :: "nat \<Rightarrow> nat" where
  "MM_ALIGN_DOWN a = clear_bits a MM_GRAN_MASK"

record mm_heap_s =
  mm_semcount :: int
  mm_holder :: int
  mm_counts_held :: int
  mm_heapsize :: nat
  mm_heapstart :: ptr
  mm_heapend :: ptr
  mm_nodelist :: ptr
  mm_delaylist :: ptr
  nd_size :: "ptr \<Rightarrow> nat"
  nd_preceding :: "ptr \<Rightarrow> nat"
  nd_flink :: "ptr \<Rightarrow> ptr"
  nd_blink :: "ptr \<Rightarrow> ptr"
  mm_bytes :: "ptr \<Rightarrow> byte"

text \<open>The address of \<open>heap->mm_nodelist[ndx]\<close>; the field \<open>mm_nodelist\<close> is that of the array.\<close>

definition nodelist :: "mm_heap_s \<Rightarrow> nat \<Rightarrow> ptr" where
  "nodelist heap ndx = mm_nodelist heap + ndx * SIZEOF_MM_FREENODE"

definition set_size :: "ptr \<Rightarrow> nat \<Rightarrow> mm_heap_s \<Rightarrow> mm_heap_s" where
  [simp]: "set_size p v heap = heap\<lparr>nd_size := (nd_size heap)(p := v)\<rparr>"

definition set_preceding :: "ptr \<Rightarrow> nat \<Rightarrow> mm_heap_s \<Rightarrow> mm_heap_s" where
  [simp]: "set_preceding p v heap = heap\<lparr>nd_preceding := (nd_preceding heap)(p := v)\<rparr>"

definition set_flink :: "ptr \<Rightarrow> ptr \<Rightarrow> mm_heap_s \<Rightarrow> mm_heap_s" where
  [simp]: "set_flink p v heap = heap\<lparr>nd_flink := (nd_flink heap)(p := v)\<rparr>"

definition set_blink :: "ptr \<Rightarrow> ptr \<Rightarrow> mm_heap_s \<Rightarrow> mm_heap_s" where
  [simp]: "set_blink p v heap = heap\<lparr>nd_blink := (nd_blink heap)(p := v)\<rparr>"

text \<open>What the heap asks of its caller: \<open>getpid()\<close>, \<open>up_interrupt_context()\<close> and \<open>sched_idletask()\<close>.\<close>

record mm_env =
  env_pid :: int
  env_isr :: bool
  env_idle :: bool

section \<open>The semaphore of a heap\<close>

text \<open>
  The count of the semaphore as \<open>nxsem_trywait\<close>, \<open>nxsem_wait\<close> and \<open>nxsem_post\<close> change it; a caller
  that finds no count waits, which is \<open>None\<close> here, as no other task runs meanwhile.
\<close>

definition count_trywait :: "int \<Rightarrow> int \<times> int" where
  "count_trywait semcount = (if semcount > 0 then (OK, semcount - 1) else (- EAGAIN, semcount))"

definition count_wait :: "int \<Rightarrow> int option" where
  "count_wait semcount = (if semcount > 0 then Some (semcount - 1) else None)"

definition count_post :: "int \<Rightarrow> int" where
  "count_post semcount = (if semcount \<ge> SEM_VALUE_MAX then semcount else semcount + 1)"

definition mm_seminitialize :: "mm_heap_s \<Rightarrow> mm_heap_s" where
  "mm_seminitialize heap = heap\<lparr>mm_semcount := 1, mm_holder := NO_HOLDER, mm_counts_held := 0\<rparr>"

definition mm_trysemaphore :: "mm_env \<Rightarrow> mm_heap_s \<Rightarrow> int \<times> mm_heap_s" where
  "mm_trysemaphore env heap =
     (let my_pid = env_pid env
      in if my_pid < 0 then (my_pid, heap)
         else if mm_holder heap = my_pid
         then (OK, heap\<lparr>mm_counts_held := mm_counts_held heap + 1\<rparr>)
         else let (ret, c) = count_trywait (mm_semcount heap)
              in if ret < 0 then (ret, heap)
                 else (OK, heap\<lparr>mm_semcount := c, mm_holder := my_pid, mm_counts_held := 1\<rparr>))"

definition mm_takesemaphore :: "mm_env \<Rightarrow> mm_heap_s \<Rightarrow> mm_heap_s option" where
  "mm_takesemaphore env heap =
     (let my_pid = env_pid env
      in if mm_holder heap = my_pid
         then Some (heap\<lparr>mm_counts_held := mm_counts_held heap + 1\<rparr>)
         else do { c \<leftarrow> count_wait (mm_semcount heap);
                   Some (heap\<lparr>mm_semcount := c, mm_holder := my_pid, mm_counts_held := 1\<rparr>) })"

definition mm_givesemaphore :: "mm_heap_s \<Rightarrow> mm_heap_s" where
  "mm_givesemaphore heap =
     (if mm_counts_held heap > 1
      then heap\<lparr>mm_counts_held := mm_counts_held heap - 1\<rparr>
      else heap\<lparr>mm_holder := NO_HOLDER, mm_counts_held := 0, mm_semcount := count_post (mm_semcount heap)\<rparr>)"

section \<open>The list of free nodes\<close>

function mm_size2ndx_loop :: "nat \<Rightarrow> nat \<Rightarrow> nat" where
  "mm_size2ndx_loop sz ndx =
     (if sz > 1 then mm_size2ndx_loop (drop_bit 1 sz) (ndx + 1) else ndx)"
  by pat_completeness auto

termination mm_size2ndx_loop
  by (relation "measure fst") (auto simp: drop_bit_eq_div)

declare mm_size2ndx_loop.simps [simp del]

definition mm_size2ndx :: "nat \<Rightarrow> nat" where
  "mm_size2ndx sz =
     (if sz \<ge> MM_MAX_CHUNK then MM_NNODES - 1
      else mm_size2ndx_loop (drop_bit MM_MIN_SHIFT sz) 0)"

partial_function (option) mm_addfree_loop :: "mm_heap_s \<Rightarrow> nat \<Rightarrow> ptr \<Rightarrow> ptr \<Rightarrow> (ptr \<times> ptr) option" where
  "mm_addfree_loop heap sz prev next =
     (if next \<noteq> NULL \<and> nd_size heap next \<noteq> 0 \<and> nd_size heap next < sz
      then mm_addfree_loop heap sz next (nd_flink heap next)
      else Some (prev, next))"

definition mm_addfreechunk :: "mm_heap_s \<Rightarrow> ptr \<Rightarrow> mm_heap_s option" where
  "mm_addfreechunk heap node =
     do { let ndx = mm_size2ndx (nd_size heap node);
          (prev, next) \<leftarrow> mm_addfree_loop heap (nd_size heap node)
                            (nodelist heap ndx) (nd_flink heap (nodelist heap ndx));
          let heap = set_flink prev node heap;
          let heap = set_blink node prev heap;
          let heap = set_flink node next heap;
          Some (if next \<noteq> NULL then set_blink next node heap else heap) }"

text \<open>The statements with which every operation takes a node off the list.\<close>

definition mm_unlink :: "mm_heap_s \<Rightarrow> ptr \<Rightarrow> mm_heap_s" where
  "mm_unlink heap node =
     (let heap = set_flink (nd_blink heap node) (nd_flink heap node) heap
      in if nd_flink heap node \<noteq> NULL
         then set_blink (nd_flink heap node) (nd_blink heap node) heap
         else heap)"

section \<open>Releasing memory\<close>

text \<open>
  \<open>mm_free\<close> once it holds the semaphore: merging a free chunk that follows \<open>node\<close> (the result
  is the node that then follows), merging \<open>node\<close> into a free chunk before it (the result is the
  merged node), and the whole.
\<close>

definition mm_free_next :: "mm_heap_s \<Rightarrow> ptr \<Rightarrow> ptr \<times> mm_heap_s" where
  "mm_free_next heap node =
     (let next = node + nd_size heap node
      in if nd_preceding heap next AND MM_ALLOC_BIT = 0
         then let andbeyond = next + nd_size heap next;
                  heap = mm_unlink heap next;
                  heap = set_size node (nd_size heap node + nd_size heap next) heap;
                  heap = set_preceding andbeyond
                    (nd_size heap node OR (nd_preceding heap andbeyond AND MM_ALLOC_BIT)) heap
              in (andbeyond, heap)
         else (next, heap))"

definition mm_free_prev :: "mm_heap_s \<Rightarrow> ptr \<Rightarrow> ptr \<Rightarrow> ptr \<times> mm_heap_s" where
  "mm_free_prev heap node next =
     (let prev = node - nd_preceding heap node
      in if nd_preceding heap prev AND MM_ALLOC_BIT = 0
         then let heap = mm_unlink heap prev;
                  heap = set_size prev (nd_size heap prev + nd_size heap node) heap;
                  heap = set_preceding next
                    (nd_size heap prev OR (nd_preceding heap next AND MM_ALLOC_BIT)) heap
              in (prev, heap)
         else (node, heap))"

definition mm_free_node :: "mm_heap_s \<Rightarrow> ptr \<Rightarrow> mm_heap_s option" where
  "mm_free_node heap mem =
     (let node = mem - SIZEOF_MM_ALLOCNODE;
          heap = set_preceding node (clear_bits (nd_preceding heap node) MM_ALLOC_BIT) heap;
          (next, heap) = mm_free_next heap node;
          (node, heap) = mm_free_prev heap node next
      in mm_addfreechunk heap node)"

definition mm_add_delaylist :: "mm_heap_s \<Rightarrow> ptr \<Rightarrow> mm_heap_s" where
  "mm_add_delaylist heap mem =
     (let heap = set_flink (mem - SIZEOF_MM_ALLOCNODE) (mm_delaylist heap) heap
      in heap\<lparr>mm_delaylist := mem\<rparr>)"

definition mm_free :: "mm_env \<Rightarrow> mm_heap_s \<Rightarrow> ptr \<Rightarrow> mm_heap_s option" where
  "mm_free env heap mem =
     (if mem = NULL then Some heap
      else if env_isr env then Some (mm_add_delaylist heap mem)
      else let (ret, heap) = mm_trysemaphore env heap
           in if ret \<noteq> 0 \<and> (ret = - ESRCH \<or> env_idle env) then Some (mm_add_delaylist heap mem)
              else do { heap \<leftarrow> (if ret = 0 then Some heap else mm_takesemaphore env heap);
                        heap \<leftarrow> mm_free_node heap mem;
                        Some (mm_givesemaphore heap) })"

partial_function (option) mm_free_delayed :: "mm_env \<Rightarrow> mm_heap_s \<Rightarrow> ptr \<Rightarrow> mm_heap_s option" where
  "mm_free_delayed env heap tmp =
     (if tmp \<noteq> NULL
      then let address = tmp;
               tmp = nd_flink heap (tmp - SIZEOF_MM_ALLOCNODE)
           in Option.bind (mm_free env heap address) (\<lambda>heap. mm_free_delayed env heap tmp)
      else Some heap)"

definition mm_free_delaylist :: "mm_env \<Rightarrow> mm_heap_s \<Rightarrow> mm_heap_s option" where
  "mm_free_delaylist env heap =
     (let tmp = mm_delaylist heap;
          heap = heap\<lparr>mm_delaylist := NULL\<rparr>
      in mm_free_delayed env heap tmp)"

section \<open>Allocating memory\<close>

partial_function (option) mm_malloc_search :: "mm_heap_s \<Rightarrow> nat \<Rightarrow> ptr \<Rightarrow> ptr option" where
  "mm_malloc_search heap alignsize node =
     (if node \<noteq> NULL \<and> nd_size heap node < alignsize
      then mm_malloc_search heap alignsize (nd_flink heap node)
      else Some node)"

text \<open>What \<open>mm_malloc\<close> does with the node it found.\<close>

definition mm_malloc_take :: "mm_heap_s \<Rightarrow> nat \<Rightarrow> ptr \<Rightarrow> (ptr \<times> mm_heap_s) option" where
  "mm_malloc_take heap alignsize node =
     do { let heap = mm_unlink heap node;
          let remaining = nd_size heap node - alignsize;
          heap \<leftarrow> (if remaining \<ge> SIZEOF_MM_FREENODE
                   then let next = node + nd_size heap node;
                            remainder = node + alignsize;
                            heap = set_size remainder remaining heap;
                            heap = set_preceding remainder alignsize heap;
                            heap = set_size node alignsize heap;
                            heap = set_preceding next (remaining OR (nd_preceding heap next AND MM_ALLOC_BIT)) heap
                        in mm_addfreechunk heap remainder
                   else Some heap);
          let heap = set_preceding node (nd_preceding heap node OR MM_ALLOC_BIT) heap;
          Some (node + SIZEOF_MM_ALLOCNODE, heap) }"

definition mm_malloc :: "mm_env \<Rightarrow> mm_heap_s \<Rightarrow> nat \<Rightarrow> (ptr \<times> mm_heap_s) option" where
  "mm_malloc env heap sz =
     do { heap \<leftarrow> mm_free_delaylist env heap;
          if sz < 1 then Some (NULL, heap)
          else do {
            let alignsize = MM_ALIGN_UP (sz32 (sz + SIZEOF_MM_ALLOCNODE));
            heap \<leftarrow> mm_takesemaphore env heap;
            let ndx = (if alignsize \<ge> MM_MAX_CHUNK then MM_NNODES - 1 else mm_size2ndx alignsize);
            node \<leftarrow> mm_malloc_search heap alignsize (nd_flink heap (nodelist heap ndx));
            (ret, heap) \<leftarrow> (if node \<noteq> NULL then mm_malloc_take heap alignsize node
                             else Some (NULL, heap));
            Some (ret, mm_givesemaphore heap) } }"

text \<open>\<open>memset\<close> and \<open>memcpy\<close> on the contents of blocks; the copy goes upwards, byte by byte.\<close>

definition mem_set :: "(ptr \<Rightarrow> byte) \<Rightarrow> ptr \<Rightarrow> byte \<Rightarrow> nat \<Rightarrow> ptr \<Rightarrow> byte" where
  "mem_set m s c n = (\<lambda>a. if s \<le> a \<and> a < s + n then c else m a)"

fun mem_cpy :: "(ptr \<Rightarrow> byte) \<Rightarrow> ptr \<Rightarrow> ptr \<Rightarrow> nat \<Rightarrow> ptr \<Rightarrow> byte" where
  "mem_cpy m pout pin 0 = m"
| "mem_cpy m pout pin (Suc n) = mem_cpy (m(pout := m pin)) (pout + 1) (pin + 1) n"

definition mm_zalloc :: "mm_env \<Rightarrow> mm_heap_s \<Rightarrow> nat \<Rightarrow> (ptr \<times> mm_heap_s) option" where
  "mm_zalloc env heap sz =
     do { (alloc, heap) \<leftarrow> mm_malloc env heap sz;
          Some (alloc, if alloc \<noteq> NULL
                       then heap\<lparr>mm_bytes := mem_set (mm_bytes heap) alloc 0 sz\<rparr> else heap) }"

definition SIZE_MAX :: nat where "SIZE_MAX = 2 ^ 32 - 1"

definition mm_calloc :: "mm_env \<Rightarrow> mm_heap_s \<Rightarrow> nat \<Rightarrow> nat \<Rightarrow> (ptr \<times> mm_heap_s) option" where
  "mm_calloc env heap n elem_size =
     (if n > 0 \<and> elem_size > 0
      then if n \<le> SIZE_MAX div elem_size
           then mm_zalloc env heap (sz32 (n * elem_size)) else Some (NULL, heap)
      else Some (NULL, heap))"

section \<open>Setting up and extending a heap\<close>

definition mm_addregion :: "mm_env \<Rightarrow> mm_heap_s \<Rightarrow> ptr \<Rightarrow> nat \<Rightarrow> mm_heap_s option" where
  "mm_addregion env heap heapstart heapsize =
     do { heap \<leftarrow> mm_takesemaphore env heap;
          let heapbase = MM_ALIGN_UP heapstart;
          let heapend = MM_ALIGN_DOWN (sz32 (heapstart + heapsize));
          let heapsize = sz32 (heapend + 2 ^ 32 - heapbase);
          let heap = heap\<lparr>mm_heapsize := sz32 (mm_heapsize heap + heapsize)\<rparr>;
          let heap = heap\<lparr>mm_heapstart := heapbase\<rparr>;
          let heap = set_size heapbase SIZEOF_MM_ALLOCNODE heap;
          let heap = set_preceding heapbase MM_ALLOC_BIT heap;
          let node = heapbase + SIZEOF_MM_ALLOCNODE;
          let heap = set_size node (sz32 (heapsize + 2 ^ 32 - 2 * SIZEOF_MM_ALLOCNODE)) heap;
          let heap = set_preceding node SIZEOF_MM_ALLOCNODE heap;
          let heap = heap\<lparr>mm_heapend := heapend - SIZEOF_MM_ALLOCNODE\<rparr>;
          let heap = set_size (mm_heapend heap) SIZEOF_MM_ALLOCNODE heap;
          let heap = set_preceding (mm_heapend heap) (nd_size heap node OR MM_ALLOC_BIT) heap;
          heap \<leftarrow> mm_addfreechunk heap node;
          Some (mm_givesemaphore heap) }"

text \<open>The \<open>memset\<close> of the array \<open>mm_nodelist\<close> and the loop that links its elements.\<close>

definition mm_clear_nodelist :: "mm_heap_s \<Rightarrow> mm_heap_s" where
  "mm_clear_nodelist heap =
     fold (\<lambda>i heap. let p = nodelist heap i
                   in set_size p 0 (set_preceding p 0 (set_flink p NULL (set_blink p NULL heap))))
       [0..<MM_NNODES] heap"

definition mm_link_nodelist :: "mm_heap_s \<Rightarrow> mm_heap_s" where
  "mm_link_nodelist heap =
     fold (\<lambda>i heap. let heap = set_flink (nodelist heap (i - 1)) (nodelist heap i) heap
                   in set_blink (nodelist heap i) (nodelist heap (i - 1)) heap)
       [1..<MM_NNODES] heap"

definition mm_initialize :: "mm_env \<Rightarrow> mm_heap_s \<Rightarrow> ptr \<Rightarrow> nat \<Rightarrow> mm_heap_s option" where
  "mm_initialize env heap heapstart heapsize =
     (let heap = heap\<lparr>mm_heapsize := 0\<rparr>;
          heap = heap\<lparr>mm_delaylist := NULL\<rparr>;
          heap = mm_clear_nodelist heap;
          heap = mm_link_nodelist heap;
          heap = mm_seminitialize heap
      in mm_addregion env heap heapstart heapsize)"

definition mm_extend :: "mm_env \<Rightarrow> mm_heap_s \<Rightarrow> ptr \<Rightarrow> nat \<Rightarrow> mm_heap_s option" where
  "mm_extend env heap mem sz =
     do { let blockstart = mem;
          let blockend = blockstart + sz;
          heap \<leftarrow> mm_takesemaphore env heap;
          let oldnode = mm_heapend heap;
          let heap = set_size oldnode sz heap;
          let newnode = blockend - SIZEOF_MM_ALLOCNODE;
          let heap = set_size newnode SIZEOF_MM_ALLOCNODE heap;
          let heap = set_preceding newnode (nd_size heap oldnode OR MM_ALLOC_BIT) heap;
          let heap = heap\<lparr>mm_heapend := newnode\<rparr>;
          let heap = mm_givesemaphore heap;
          mm_free env heap mem }"

section \<open>Changing the size of a block\<close>

definition mm_shrinkchunk :: "mm_heap_s \<Rightarrow> ptr \<Rightarrow> nat \<Rightarrow> mm_heap_s option" where
  "mm_shrinkchunk heap node sz =
     (let next = node + nd_size heap node
      in if nd_preceding heap next AND MM_ALLOC_BIT = 0
         then let andbeyond = next + nd_size heap next;
                  heap = mm_unlink heap next;
                  newnode = node + sz;
                  heap = set_size newnode (nd_size heap next + nd_size heap node - sz) heap;
                  heap = set_preceding newnode sz heap;
                  heap = set_size node sz heap;
                  heap = set_preceding andbeyond
                    (nd_size heap newnode OR (nd_preceding heap andbeyond AND MM_ALLOC_BIT)) heap
              in mm_addfreechunk heap newnode
         else if nd_size heap node \<ge> sz + SIZEOF_MM_FREENODE
         then let newnode = node + sz;
                  heap = set_size newnode (nd_size heap node - sz) heap;
                  heap = set_preceding newnode sz heap;
                  heap = set_size node sz heap;
                  heap = set_preceding next (nd_size heap newnode OR MM_ALLOC_BIT) heap
              in mm_addfreechunk heap newnode
         else Some heap)"

text \<open>
  \<open>mm_memalign\<close> from the block \<open>mm_malloc\<close> returned on: the part that gives the leading
  space back, which returns the node that is left, the aligned address and the size left.
\<close>

definition mm_memalign_lead ::
  "mm_heap_s \<Rightarrow> nat \<Rightarrow> nat \<Rightarrow> ptr \<Rightarrow> (ptr \<times> ptr \<times> nat \<times> mm_heap_s) option" where
  "mm_memalign_lead heap alignment allocsize rawchunk =
     (let msk = alignment - 1;
          node = rawchunk - SIZEOF_MM_ALLOCNODE;
          alignedchunk = clear_bits (sz32 (rawchunk + msk)) msk
      in if alignedchunk \<noteq> rawchunk
         then do {
           let next = node + nd_size heap node;
           let newnode = alignedchunk - SIZEOF_MM_ALLOCNODE;
           let precedingsize = newnode - node;
           let (alignedchunk, newnode, precedingsize) =
             (if precedingsize < SIZEOF_MM_FREENODE
              then let alignedchunk = alignedchunk + alignment;
                       newnode = alignedchunk - SIZEOF_MM_ALLOCNODE
                   in (alignedchunk, newnode, newnode - node)
              else (alignedchunk, newnode, precedingsize));
           let heap = set_size newnode (next - newnode) heap;
           let heap = set_preceding newnode (precedingsize OR MM_ALLOC_BIT) heap;
           let heap = set_size node precedingsize heap;
           let heap = set_preceding node (clear_bits (nd_preceding heap node) MM_ALLOC_BIT) heap;
           let heap = set_preceding next
             (nd_size heap newnode OR (nd_preceding heap next AND MM_ALLOC_BIT)) heap;
           let allocsize = nd_size heap newnode - SIZEOF_MM_ALLOCNODE;
           heap \<leftarrow> mm_addfreechunk heap node;
           Some (newnode, alignedchunk, allocsize, heap) }
         else Some (node, alignedchunk, allocsize, heap))"

definition mm_memalign :: "mm_env \<Rightarrow> mm_heap_s \<Rightarrow> nat \<Rightarrow> nat \<Rightarrow> (ptr \<times> mm_heap_s) option" where
  "mm_memalign env heap alignment sz =
     (if alignment \<le> MM_MIN_CHUNK then mm_malloc env heap sz
      else do {
        let sz = MM_ALIGN_UP sz;
        let allocsize = sz32 (sz + 2 * alignment);
        (rawchunk, heap) \<leftarrow> mm_malloc env heap allocsize;
        if rawchunk = 0 then Some (NULL, heap)
        else do {
          heap \<leftarrow> mm_takesemaphore env heap;
          (node, alignedchunk, allocsize, heap) \<leftarrow> mm_memalign_lead heap alignment allocsize rawchunk;
          let sz = MM_ALIGN_UP (sz32 (sz + SIZEOF_MM_ALLOCNODE));
          heap \<leftarrow> (if allocsize > sz then mm_shrinkchunk heap node sz else Some heap);
          Some (alignedchunk, mm_givesemaphore heap) } })"

text \<open>
  \<open>mm_realloc\<close> in parts: how much to take from the free neighbours, the extension into the
  previous chunk (with the copy of the contents) and the one into the next chunk.
\<close>

definition mm_realloc_takes :: "nat \<Rightarrow> nat \<Rightarrow> nat \<Rightarrow> nat \<Rightarrow> nat \<times> nat" where
  "mm_realloc_takes newsize oldsize prevsize nextsize =
     (let needed = newsize - oldsize;
          (needed, takeprev, takenext) =
            (if prevsize > 0 \<and> (nextsize \<ge> prevsize \<or> nextsize < 1)
             then if needed > prevsize then (0, prevsize, needed - prevsize) else (0, needed, 0)
             else (needed, 0, 0))
      in if nextsize > 0 \<and> needed \<noteq> 0
         then if needed > nextsize then (needed - nextsize, nextsize) else (0, needed)
         else (takeprev, takenext))"

definition mm_realloc_prev ::
  "mm_heap_s \<Rightarrow> ptr \<Rightarrow> ptr \<Rightarrow> nat \<Rightarrow> ptr \<Rightarrow> nat \<Rightarrow> nat \<Rightarrow> (ptr \<times> ptr \<times> nat \<times> mm_heap_s) option" where
  "mm_realloc_prev heap oldmem oldnode oldsize prev prevsize takeprev =
     do { let next = oldnode + oldsize;
          let heap = mm_unlink heap prev;
          let newnode = oldnode - takeprev;
          heap \<leftarrow>
            (if takeprev < prevsize
             then let heap = set_size prev (nd_size heap prev - takeprev) heap;
                      heap = set_size newnode (oldsize + takeprev) heap;
                      heap = set_preceding newnode (nd_size heap prev OR MM_ALLOC_BIT) heap;
                      heap = set_preceding next
                        (nd_size heap newnode OR (nd_preceding heap next AND MM_ALLOC_BIT)) heap
                  in mm_addfreechunk heap prev
             else let heap = set_size newnode (nd_size heap newnode + oldsize) heap;
                      heap = set_preceding newnode (nd_preceding heap newnode OR MM_ALLOC_BIT) heap;
                      heap = set_preceding next
                        (nd_size heap newnode OR (nd_preceding heap next AND MM_ALLOC_BIT)) heap
                  in Some heap);
          let newmem = newnode + SIZEOF_MM_ALLOCNODE;
          let heap = heap\<lparr>mm_bytes := mem_cpy (mm_bytes heap) newmem oldmem (oldsize - SIZEOF_MM_ALLOCNODE)\<rparr>;
          Some (newmem, newnode, nd_size heap newnode, heap) }"

definition mm_realloc_next ::
  "mm_heap_s \<Rightarrow> ptr \<Rightarrow> nat \<Rightarrow> ptr \<Rightarrow> nat \<Rightarrow> nat \<Rightarrow> mm_heap_s option" where
  "mm_realloc_next heap oldnode oldsize next nextsize takenext =
     (let andbeyond = next + nextsize;
          heap = mm_unlink heap next;
          heap = set_size oldnode (oldsize + takenext) heap;
          newnode = oldnode + nd_size heap oldnode
      in if takenext < nextsize
         then let heap = set_size newnode (nextsize - takenext) heap;
                  heap = set_preceding newnode (nd_size heap oldnode) heap;
                  heap = set_preceding andbeyond
                    (nd_size heap newnode OR (nd_preceding heap andbeyond AND MM_ALLOC_BIT)) heap
              in mm_addfreechunk heap newnode
         else Some (set_preceding andbeyond
                (nd_size heap oldnode OR (nd_preceding heap andbeyond AND MM_ALLOC_BIT)) heap))"

definition mm_realloc :: "mm_env \<Rightarrow> mm_heap_s \<Rightarrow> ptr \<Rightarrow> nat \<Rightarrow> (ptr \<times> mm_heap_s) option" where
  "mm_realloc env heap oldmem sz =
     (if oldmem = NULL then mm_malloc env heap sz
      else if sz < 1 then do { heap \<leftarrow> mm_free env heap oldmem; Some (NULL, heap) }
      else do {
        let newsize = MM_ALIGN_UP (sz32 (sz + SIZEOF_MM_ALLOCNODE));
        let oldnode = oldmem - SIZEOF_MM_ALLOCNODE;
        heap \<leftarrow> mm_takesemaphore env heap;
        let oldsize = nd_size heap oldnode;
        if newsize \<le> oldsize
        then do { heap \<leftarrow> (if newsize < oldsize then mm_shrinkchunk heap oldnode newsize else Some heap);
                  Some (oldmem, mm_givesemaphore heap) }
        else do {
          let next = oldnode + nd_size heap oldnode;
          let nextsize = (if nd_preceding heap next AND MM_ALLOC_BIT = 0 then nd_size heap next else 0);
          let prev = oldnode - clear_bits (nd_preceding heap oldnode) MM_ALLOC_BIT;
          let prevsize = (if nd_preceding heap prev AND MM_ALLOC_BIT = 0 then nd_size heap prev else 0);
          if nextsize + prevsize + oldsize \<ge> newsize
          then do {
            let (takeprev, takenext) = mm_realloc_takes newsize oldsize prevsize nextsize;
            (newmem, oldnode, oldsize, heap) \<leftarrow>
              (if takeprev \<noteq> 0 then mm_realloc_prev heap oldmem oldnode oldsize prev prevsize takeprev
               else Some (oldmem, oldnode, oldsize, heap));
            heap \<leftarrow> (if takenext \<noteq> 0 then mm_realloc_next heap oldnode oldsize next nextsize takenext
                     else Some heap);
            Some (newmem, mm_givesemaphore heap) }
          else do {
            let heap = mm_givesemaphore heap;
            (newmem, heap) \<leftarrow> mm_malloc env heap sz;
            heap \<leftarrow> (if newmem \<noteq> NULL
                     then mm_free env (heap\<lparr>mm_bytes := mem_cpy (mm_bytes heap) newmem oldmem oldsize\<rparr>) oldmem
                     else Some heap);
            Some (newmem, heap) } } })"

section \<open>Questions about a heap\<close>

record mallinfo =
  mi_arena :: nat
  mi_ordblks :: nat
  mi_mxordblk :: nat
  mi_uordblks :: nat
  mi_fordblks :: nat

partial_function (option) mm_mallinfo_loop ::
  "mm_heap_s \<Rightarrow> ptr \<Rightarrow> nat \<Rightarrow> nat \<Rightarrow> nat \<Rightarrow> nat \<Rightarrow> (nat \<times> nat \<times> nat \<times> nat) option" where
  "mm_mallinfo_loop heap node mxordblk ordblks uordblks fordblks =
     (if node < mm_heapend heap
      then if nd_preceding heap node AND MM_ALLOC_BIT \<noteq> 0
           then mm_mallinfo_loop heap (node + nd_size heap node)
                  mxordblk ordblks (uordblks + nd_size heap node) fordblks
           else mm_mallinfo_loop heap (node + nd_size heap node)
                  (if nd_size heap node > mxordblk then nd_size heap node else mxordblk)
                  (ordblks + 1) uordblks (fordblks + nd_size heap node)
      else Some (mxordblk, ordblks, uordblks, fordblks))"

definition mm_mallinfo :: "mm_env \<Rightarrow> mm_heap_s \<Rightarrow> (mallinfo \<times> mm_heap_s) option" where
  "mm_mallinfo env heap =
     do { heap \<leftarrow> mm_takesemaphore env heap;
          (mxordblk, ordblks, uordblks, fordblks) \<leftarrow> mm_mallinfo_loop heap (mm_heapstart heap) 0 0 0 0;
          let heap = mm_givesemaphore heap;
          let uordblks = uordblks + SIZEOF_MM_ALLOCNODE;
          Some (\<lparr>mi_arena = mm_heapsize heap, mi_ordblks = ordblks, mi_mxordblk = mxordblk,
                 mi_uordblks = uordblks, mi_fordblks = fordblks\<rparr>, heap) }"

definition mm_heapmember :: "mm_heap_s \<Rightarrow> ptr \<Rightarrow> bool" where
  "mm_heapmember heap mem \<longleftrightarrow> mem > mm_heapstart heap \<and> mem < mm_heapend heap"

definition malloc_usable_size :: "mm_heap_s \<Rightarrow> ptr \<Rightarrow> nat" where
  "malloc_usable_size heap mem =
     (if mem = NULL then 0
      else nd_size heap (mem - SIZEOF_MM_ALLOCNODE) - SIZEOF_MM_ALLOCNODE)"

definition mm_brkaddr :: "mm_heap_s \<Rightarrow> ptr" where
  "mm_brkaddr heap = (let brkaddr = mm_heapend heap
                      in if brkaddr \<noteq> 0 then brkaddr + SIZEOF_MM_ALLOCNODE else 0)"

text \<open>
  \<open>mm_sbrk\<close>; \<open>pgalloc\<close>, of the architecture, maps pages and returns their address, \<open>pgshift\<close> is
  \<open>MM_PGSHIFT\<close>. An error is \<open>Inl\<close> of the number stored in \<open>errno\<close>, where the code returns \<open>-1\<close>.
\<close>

definition MM_NPAGES :: "nat \<Rightarrow> nat \<Rightarrow> nat" where
  "MM_NPAGES pgshift s = sz32 (s + (2 ^ pgshift - 1)) div 2 ^ pgshift"

definition mm_sbrk ::
  "(ptr \<Rightarrow> nat \<Rightarrow> ptr) \<Rightarrow> nat \<Rightarrow> mm_env \<Rightarrow> mm_heap_s \<Rightarrow> int \<Rightarrow> nat \<Rightarrow> ((int + ptr) \<times> mm_heap_s) option" where
  "mm_sbrk pgalloc pgshift env heap incr maxbreak =
     (if incr < 0 then Some (Inl ENOSYS, heap)
      else let brkaddr = mm_brkaddr heap
           in if incr > 0
              then let pgincr = MM_NPAGES pgshift (nat incr)
                   in if brkaddr > 0 \<and> sz32 (maxbreak + 2 ^ 32 - brkaddr) < sz32 (pgincr * 2 ^ pgshift)
                      then Some (Inl ENOMEM, heap)
                      else let allocbase = pgalloc brkaddr pgincr
                           in if allocbase = 0 then Some (Inl EAGAIN, heap)
                              else let bytesize = sz32 (pgincr * 2 ^ pgshift)
                                   in do { heap \<leftarrow> (if brkaddr = 0 then mm_initialize env heap allocbase bytesize
                                                    else mm_extend env heap allocbase bytesize);
                                           Some (Inr brkaddr, heap) }
              else Some (Inr brkaddr, heap))"

end
