(* ===== verification/Mm_Freelist.thy ===== *)
theory Mm_Freelist
  imports Mm_Heap
begin

unbundle bit_operations_syntax

text \<open>
  The list of free nodes of \<open>mm_nodelist\<close>: one doubly linked chain through the elements of the
  array and the free nodes, ordered by size within and across the classes of \<open>mm_size2ndx\<close>.
  \<open>free_ok heap F\<close> says that the chain is intact and holds the nodes \<open>F\<close>; the lemmas give the
  effect of \<open>mm_unlink\<close>, \<open>mm_addfreechunk\<close> and the search of \<open>mm_malloc\<close> on \<open>F\<close>, and that the
  loops of the last two end.
\<close>

lemmas mm_consts = MM_MIN_SHIFT_def MM_MAX_SHIFT_def MM_MIN_CHUNK_def MM_MAX_CHUNK_def
  MM_NNODES_def MM_GRAN_MASK_def SIZEOF_MM_ALLOCNODE_def SIZEOF_MM_FREENODE_def

section \<open>Classes of sizes\<close>

lemma size2ndx_loop_mono:
  "a \<le> b \<Longrightarrow> m \<le> n \<Longrightarrow> mm_size2ndx_loop a m \<le> mm_size2ndx_loop b n"
proof (induction b arbitrary: a m n rule: less_induct)
  case (less b)
  have acc: "n \<le> mm_size2ndx_loop c n" for c n
    by (induction c n rule: mm_size2ndx_loop.induct) (subst mm_size2ndx_loop.simps, auto)
  show ?case
  proof (cases "a > 1")
    case True
    with less have "mm_size2ndx_loop (drop_bit 1 a) (m + 1) \<le> mm_size2ndx_loop (drop_bit 1 b) (n + 1)"
      by (simp add: drop_bit_eq_div div_le_mono)
    with True less.prems show ?thesis
      by (simp add: mm_size2ndx_loop.simps [of a] mm_size2ndx_loop.simps [of b])
  next
    case False
    then show ?thesis
      using acc [of n b] less.prems by (simp add: mm_size2ndx_loop.simps [of a])
  qed
qed

lemma size2ndx_loop_less: "0 < k \<Longrightarrow> a < 2 ^ k \<Longrightarrow> mm_size2ndx_loop a n < n + k"
proof (induction k arbitrary: a n)
  case (Suc k)
  then show ?case
    using Suc.IH [of "drop_bit 1 a" "n + 1"]
    by (subst mm_size2ndx_loop.simps) (cases k; auto simp: drop_bit_eq_div less_mult_imp_div_less)
qed simp

lemma mm_size2ndx_less: "mm_size2ndx s < MM_NNODES"
  using size2ndx_loop_less [of 18 "drop_bit 4 s" 0]
  by (auto simp: mm_size2ndx_def mm_consts drop_bit_eq_div less_mult_imp_div_less)

lemma mm_size2ndx_mono: "a \<le> b \<Longrightarrow> mm_size2ndx a \<le> mm_size2ndx b"
  using mm_size2ndx_less [of a] size2ndx_loop_mono [of "drop_bit 4 a" "drop_bit 4 b" 0 0]
  by (auto simp: mm_size2ndx_def mm_consts drop_bit_eq_div div_le_mono)

section \<open>The chain\<close>

definition sents :: "ptr \<Rightarrow> ptr set" where
  "sents nl = (\<lambda>i. nl + i * SIZEOF_MM_FREENODE) ` {..<MM_NNODES}"

text \<open>The place of a node in the order of the chain.\<close>

definition fkey :: "ptr \<Rightarrow> (ptr \<Rightarrow> nat) \<Rightarrow> ptr \<Rightarrow> nat" where
  "fkey nl sz n = (if n \<in> sents nl then (n - nl) div SIZEOF_MM_FREENODE * 2 ^ 32
                   else mm_size2ndx (sz n) * 2 ^ 32 + sz n)"

definition free_size :: "nat \<Rightarrow> bool" where
  "free_size s \<longleftrightarrow> SIZEOF_MM_FREENODE \<le> s \<and> s < MM_ALLOC_BIT"

definition flist :: "ptr \<Rightarrow> (ptr \<Rightarrow> nat) \<Rightarrow> (ptr \<Rightarrow> ptr) \<Rightarrow> (ptr \<Rightarrow> ptr) \<Rightarrow> ptr list \<Rightarrow> bool" where
  "flist nl sz fl bl ns \<longleftrightarrow>
     lseg fl nl ns NULL \<and> lseg bl (hd0 (rev ns)) (rev ns) NULL \<and> sents nl \<subseteq> set ns \<and>
     (\<forall>n \<in> sents nl. sz n = 0) \<and> (\<forall>n \<in> set ns - sents nl. free_size (sz n)) \<and>
     sorted (map (fkey nl sz) ns)"

definition free_ok :: "mm_heap_s \<Rightarrow> ptr set \<Rightarrow> bool" where
  "free_ok heap F \<longleftrightarrow>
     (\<exists>ns. flist (mm_nodelist heap) (nd_size heap) (nd_flink heap) (nd_blink heap) ns \<and>
           set ns = sents (mm_nodelist heap) \<union> F \<and> F \<inter> sents (mm_nodelist heap) = {})"

lemma nl_in_sents: "nl \<in> sents nl"
  by (auto simp: sents_def mm_consts intro!: image_eqI [of _ _ 0])

lemma sents_nodelist: "i < MM_NNODES \<Longrightarrow> nodelist heap i \<in> sents (mm_nodelist heap)"
  by (auto simp: sents_def nodelist_def)

lemma fkey_sent: "i < MM_NNODES \<Longrightarrow> fkey nl sz (nl + i * SIZEOF_MM_FREENODE) = i * 2 ^ 32"
  by (auto simp: fkey_def sents_def mm_consts)

lemma flist_size_cong:
  assumes "\<And>n. n \<in> set ns \<union> sents nl \<Longrightarrow> sz' n = sz n"
  shows "flist nl sz' fl bl ns = flist nl sz fl bl ns"
proof -
  have map: "map (fkey nl sz') ns = map (fkey nl sz) ns"
    using assms by (auto simp: fkey_def)
  show ?thesis
    unfolding flist_def map by (intro conj_cong refl ball_cong) (use assms in auto)
qed

lemma flistD:
  assumes "flist nl sz fl bl ns"
  shows "sorted (map (fkey nl sz) ns)" "distinct ns" "NULL \<notin> set ns"
    "\<And>m. m \<in> sents nl \<Longrightarrow> sz m = 0 \<and> m \<in> set ns"
    "\<And>m. m \<in> set ns \<Longrightarrow> m \<notin> sents nl \<Longrightarrow> SIZEOF_MM_FREENODE \<le> sz m \<and> sz m < MM_ALLOC_BIT"
  using assms lseg_distinct [of fl nl ns] lseg_no_null [of fl nl ns NULL]
  by (auto simp: flist_def free_size_def)

lemma free_ok_size_cong:
  assumes "\<And>n. n \<in> F \<union> sents (mm_nodelist heap) \<Longrightarrow> sz' n = nd_size heap n"
  shows "free_ok (heap\<lparr>nd_size := sz'\<rparr>) F = free_ok heap F"
proof -
  have "flist (mm_nodelist heap) sz' fl bl ns = flist (mm_nodelist heap) (nd_size heap) fl bl ns"
    if "set ns = sents (mm_nodelist heap) \<union> F" for fl bl ns
    using that assms by (intro flist_size_cong) auto
  then show ?thesis
    unfolding free_ok_def by (intro ex_cong1) auto
qed

lemma free_ok_set_flink:
  "p \<notin> F \<Longrightarrow> p \<notin> sents (mm_nodelist heap) \<Longrightarrow>
     free_ok (heap\<lparr>nd_flink := (nd_flink heap)(p := v)\<rparr>) F = free_ok heap F"
  unfolding free_ok_def flist_def by (intro ex_cong1) auto

lemma free_ok_other [simp]:
  "free_ok (heap\<lparr>nd_preceding := pr\<rparr>) F = free_ok heap F"
  "free_ok (heap\<lparr>mm_semcount := c\<rparr>) F = free_ok heap F"
  "free_ok (heap\<lparr>mm_holder := p\<rparr>) F = free_ok heap F"
  "free_ok (heap\<lparr>mm_counts_held := c\<rparr>) F = free_ok heap F"
  "free_ok (heap\<lparr>mm_delaylist := d\<rparr>) F = free_ok heap F"
  "free_ok (heap\<lparr>mm_heapsize := n\<rparr>) F = free_ok heap F"
  "free_ok (heap\<lparr>mm_heapstart := d\<rparr>) F = free_ok heap F"
  "free_ok (heap\<lparr>mm_heapend := d\<rparr>) F = free_ok heap F"
  "free_ok (heap\<lparr>mm_bytes := m\<rparr>) F = free_ok heap F"
  by (simp_all add: free_ok_def)

lemma free_ok_not_sent: "free_ok heap F \<Longrightarrow> n \<in> F \<Longrightarrow> n \<notin> sents (mm_nodelist heap)"
  by (auto simp: free_ok_def)

lemma free_ok_size: "free_ok heap F \<Longrightarrow> n \<in> F \<Longrightarrow> free_size (nd_size heap n)"
  by (auto simp: free_ok_def flist_def)


section \<open>Taking a node off the chain\<close>

lemma lseg_rev_remove:
  assumes "lseg f (hd0 (rev (ys @ n # zs))) (rev (ys @ n # zs)) NULL"
  shows "lseg (if zs = [] then f else f(hd zs := hd0 (rev ys))) (hd0 (rev (ys @ zs))) (rev (ys @ zs)) NULL"
proof (cases zs)
  case Nil
  then show ?thesis
    using assms lseg_remove_front [of f _ n "rev ys"] by (cases ys rule: rev_cases) auto
next
  case (Cons z zs')
  then have "lseg (f(z := hd0 (rev ys))) (hd0 (rev (ys @ n # zs))) (rev zs' @ z # rev ys) NULL"
    using assms lseg_remove_after [of f _ "rev zs'" z n "rev ys"] by simp
  moreover have "hd0 (rev (ys @ n # zs)) = hd0 (rev (ys @ zs))"
    using Cons by (simp add: hd0_append)
  ultimately show ?thesis
    using Cons by simp
qed

lemma flist_remove:
  assumes "flist nl sz fl bl (ys @ n # zs)" "n \<notin> sents nl"
  shows "flist nl sz (fl(hd0 (rev ys) := hd0 zs)) (if zs = [] then bl else bl(hd zs := hd0 (rev ys))) (ys @ zs)"
    and "bl n = hd0 (rev ys)" "fl n = hd0 zs" "hd0 (rev ys) \<noteq> n" "hd0 (rev ys) \<noteq> NULL"
proof -
  have f: "lseg fl nl (ys @ n # zs) NULL" and b: "lseg bl (hd0 (rev (ys @ n # zs))) (rev (ys @ n # zs)) NULL"
    using assms by (auto simp: flist_def)
  have ne: "ys \<noteq> []"
    using f assms(2) nl_in_sents [of nl] by (cases ys) auto
  then obtain xs y where ys: "ys = xs @ [y]"
    by (cases ys rule: rev_cases) auto
  have "distinct (ys @ n # zs)" "NULL \<notin> set (ys @ n # zs)"
    using lseg_distinct [OF f] lseg_no_null [OF f] by blast+
  with ys show "hd0 (rev ys) \<noteq> n" "hd0 (rev ys) \<noteq> NULL" by auto
  show "fl n = hd0 zs" using f by (rule lseg_mid(1))
  show "bl n = hd0 (rev ys)" using b lseg_mid(1) [of bl _ "rev zs" n "rev ys"] by simp
  have "sorted (map (fkey nl sz) (ys @ zs))"
    using assms(1) by (auto simp: flist_def sorted_append)
  moreover have "lseg (fl(hd0 (rev ys) := hd0 zs)) nl (ys @ zs) NULL"
    using f ys lseg_remove_after [of fl nl xs y n zs] by simp
  ultimately show "flist nl sz (fl(hd0 (rev ys) := hd0 zs)) (if zs = [] then bl else bl(hd zs := hd0 (rev ys))) (ys @ zs)"
    using assms lseg_rev_remove [OF b] by (auto simp: flist_def)
qed

lemma free_ok_unlink:
  assumes "free_ok heap F" "n \<in> F"
  obtains fl bl where "mm_unlink heap n = heap\<lparr>nd_flink := fl, nd_blink := bl\<rparr>"
    "free_ok (heap\<lparr>nd_flink := fl, nd_blink := bl\<rparr>) (F - {n})"
    "\<And>p. p \<notin> F \<Longrightarrow> p \<notin> sents (mm_nodelist heap) \<Longrightarrow> fl p = nd_flink heap p"
proof -
  let ?nl = "mm_nodelist heap"
  obtain ns where ns: "flist ?nl (nd_size heap) (nd_flink heap) (nd_blink heap) ns"
      "set ns = sents ?nl \<union> F" "F \<inter> sents ?nl = {}"
    using assms by (auto simp: free_ok_def)
  then obtain ys zs where sp: "ns = ys @ n # zs"
    using assms(2) by (metis UnI2 split_list)
  have n: "n \<notin> sents ?nl" using ns assms(2) by blast
  note rm = flist_remove [OF ns(1) [unfolded sp] n]
  have zs: "hd0 zs = (if zs = [] then NULL else hd zs)" "zs \<noteq> [] \<Longrightarrow> hd zs \<noteq> NULL"
    using ns(1) lseg_no_null [of "nd_flink heap" ?nl ns NULL] sp by (cases zs; auto simp: flist_def)+
  let ?fl = "(nd_flink heap)(hd0 (rev ys) := hd0 zs)"
  let ?bl = "if zs = [] then nd_blink heap else (nd_blink heap)(hd zs := hd0 (rev ys))"
  have "distinct ns"
    using ns(1) by (auto simp: flist_def dest: lseg_distinct)
  then have "set (ys @ zs) = sents ?nl \<union> (F - {n})"
    using ns(2,3) sp n by auto
  then have "free_ok (heap\<lparr>nd_flink := ?fl, nd_blink := ?bl\<rparr>) (F - {n})"
    unfolding free_ok_def using rm(1) ns(3) by (intro exI [of _ "ys @ zs"]) auto
  moreover have "mm_unlink heap n = heap\<lparr>nd_flink := ?fl, nd_blink := ?bl\<rparr>"
    using rm(2-5) zs by (auto simp: mm_unlink_def Let_def)
  moreover have "hd0 (rev ys) \<in> F \<union> sents ?nl"
    using sp ns(2) rm(5) hd0_in_set [of "rev ys"] by (cases ys) auto
  ultimately show ?thesis by (intro that [where fl = ?fl and bl = ?bl]) auto
qed


section \<open>Putting a node on the chain\<close>

lemma mm_addfree_loop_walk:
  "lseg (nd_flink heap) (hd0 zs) zs NULL \<Longrightarrow>
     mm_addfree_loop heap s prev (hd0 zs) =
       (let P = (\<lambda>n. nd_size heap n \<noteq> 0 \<and> nd_size heap n < s)
        in Some (last (prev # takeWhile P zs), hd0 (dropWhile P zs)))"
proof (induction zs arbitrary: prev)
  case Nil
  then show ?case by (simp add: mm_addfree_loop.simps)
next
  case (Cons z zs)
  then have "z \<noteq> NULL" "nd_flink heap z = hd0 zs" "lseg (nd_flink heap) (hd0 zs) zs NULL"
    using lseg_ConsD [OF Cons.prems] by auto
  with Cons.IH [of z] show ?case
    by (subst mm_addfree_loop.simps) (auto simp: Let_def)
qed

lemma lseg_rev_insert:
  assumes "lseg f (hd0 (rev (ys @ y # zs))) (rev (ys @ y # zs)) NULL" "n \<noteq> NULL" "n \<notin> set (ys @ y # zs)"
  shows "lseg (if zs = [] then f(n := y) else f(n := y, hd zs := n))
           (hd0 (rev (ys @ y # n # zs))) (rev (ys @ y # n # zs)) NULL"
proof (cases zs)
  case Nil
  then show ?thesis
    using assms lseg_insert_front [of f y "y # rev ys" n] by (auto simp: hd0_append)
next
  case (Cons z zs')
  then have "lseg (f(n := y, z := n)) (hd0 (rev (ys @ y # zs))) (rev zs' @ z # n # y # rev ys) NULL"
    using assms lseg_insert_after [of f _ "rev zs'" z "y # rev ys" n] by simp
  moreover have "hd0 (rev (ys @ y # zs)) = hd0 (rev (ys @ y # n # zs))"
    using Cons by (simp add: hd0_append)
  ultimately show ?thesis
    unfolding Cons by (simp only: rev_append rev.simps append_assoc append.simps list.sel list.distinct if_False)
qed

lemma flist_insert:
  assumes "flist nl sz fl bl (ys @ y # zs)" "n \<notin> set (ys @ y # zs)" "n \<noteq> NULL" "free_size (sz n)"
    and lo: "\<And>x. x \<in> set (ys @ [y]) \<Longrightarrow> fkey nl sz x \<le> fkey nl sz n"
    and hi: "\<And>z. z \<in> set zs \<Longrightarrow> fkey nl sz n \<le> fkey nl sz z"
  shows "flist nl sz (fl(n := hd0 zs, y := n)) (if zs = [] then bl(n := y) else bl(n := y, hd zs := n)) (ys @ y # n # zs)"
proof -
  have "lseg (fl(n := hd0 zs, y := n)) nl (ys @ y # n # zs) NULL"
    using assms by (intro lseg_insert_after) (auto simp: flist_def)
  moreover have "lseg (if zs = [] then bl(n := y) else bl(n := y, hd zs := n))
      (hd0 (rev (ys @ y # n # zs))) (rev (ys @ y # n # zs)) NULL"
    using assms by (intro lseg_rev_insert) (auto simp: flist_def)
  moreover have "sorted (map (fkey nl sz) (ys @ y # n # zs))"
    using assms(1) lo hi by (auto simp: flist_def sorted_append)
  ultimately show ?thesis
    using assms unfolding flist_def by auto
qed

lemma fkey_free_mono:
  "x \<notin> sents nl \<Longrightarrow> n \<notin> sents nl \<Longrightarrow> sz x \<le> sz n \<Longrightarrow> fkey nl sz x \<le> fkey nl sz n"
  unfolding fkey_def by (simp add: add_mono mm_size2ndx_mono)

lemma fkey_after_sent:
  assumes "i < MM_NNODES" "z \<in> sents nl" "z \<noteq> nl + i * SIZEOF_MM_FREENODE"
    and "i * 2 ^ 32 \<le> fkey nl sz z"
  shows "Suc i * 2 ^ 32 \<le> fkey nl sz z"
proof -
  obtain j where j: "j < MM_NNODES" "z = nl + j * SIZEOF_MM_FREENODE"
    using assms(2) by (auto simp: sents_def)
  with assms have "i \<le> j" "i \<noteq> j" by (auto simp: fkey_sent)
  then have "Suc i * 2 ^ 32 \<le> j * 2 ^ 32" by (intro mult_le_mono1) simp
  with j show ?thesis by (simp add: fkey_sent)
qed

text \<open>The keys of the nodes the loop of \<open>mm_addfreechunk\<close> passes over and stops at.\<close>

lemma fkey_around:
  fixes sz :: "ptr \<Rightarrow> nat" and n :: ptr
  defines "i \<equiv> mm_size2ndx (sz n)" and "P \<equiv> \<lambda>x. sz x \<noteq> 0 \<and> sz x < sz n"
  assumes "flist nl sz fl bl (pre @ (nl + i * SIZEOF_MM_FREENODE) # post)"
    and "n \<notin> sents nl" "free_size (sz n)"
  shows "x \<in> set (pre @ (nl + i * SIZEOF_MM_FREENODE) # takeWhile P post) \<Longrightarrow> fkey nl sz x \<le> fkey nl sz n"
    and "z \<in> set (dropWhile P post) \<Longrightarrow> fkey nl sz n \<le> fkey nl sz z"
proof -
  let ?s = "nl + i * SIZEOF_MM_FREENODE"
  have i: "i < MM_NNODES" by (simp add: i_def mm_size2ndx_less)
  have key: "fkey nl sz n = i * 2 ^ 32 + sz n" using assms(4) by (simp add: fkey_def i_def)
  have so: "sorted (map (fkey nl sz) (pre @ ?s # post))" and ds: "distinct (pre @ ?s # post)"
    and zero: "\<And>m. m \<in> sents nl \<Longrightarrow> sz m = 0"
    using flistD [OF assms(3)] by auto
  have pos: "sz m \<noteq> 0" if "m \<in> set post" "m \<notin> sents nl" for m
    using flistD(5) [OF assms(3), of m] that by (auto simp: mm_consts)
  show "fkey nl sz x \<le> fkey nl sz n" if x: "x \<in> set (pre @ ?s # takeWhile P post)"
  proof (cases "x \<in> set (takeWhile P post)")
    case True
    then have "P x" by (auto dest: set_takeWhileD)
    then show ?thesis using zero assms(4) by (intro fkey_free_mono) (auto simp: P_def)
  next
    case False
    then have "fkey nl sz x \<le> fkey nl sz ?s" using x so by (auto simp: sorted_append)
    then show ?thesis using key i by (simp add: fkey_sent)
  qed
  show "fkey nl sz n \<le> fkey nl sz z" if z: "z \<in> set (dropWhile P post)"
  proof -
    obtain y ys where y: "dropWhile P post = y # ys" using z by (cases "dropWhile P post") auto
    then have "\<not> P y" using hd_dropWhile [of P post] by auto
    have post: "post = takeWhile P post @ y # ys" using y by (metis takeWhile_dropWhile_id)
    then have yp: "y \<in> set post" by (metis in_set_conv_decomp)
    have "fkey nl sz n \<le> fkey nl sz y"
    proof (cases "y \<in> sents nl")
      case True
      have "i * 2 ^ 32 \<le> fkey nl sz y" using so yp i by (auto simp: sorted_append fkey_sent)
      then have "Suc i * 2 ^ 32 \<le> fkey nl sz y"
        using ds yp by (intro fkey_after_sent [OF i True]) auto
      then show ?thesis using key assms(5) by (simp add: free_size_def MM_ALLOC_BIT_def)
    next
      case False
      then show ?thesis
        using \<open>\<not> P y\<close> pos [OF yp] assms(4) by (intro fkey_free_mono) (auto simp: P_def)
    qed
    moreover have "fkey nl sz y \<le> fkey nl sz z"
      using so z y post by (metis (no_types, lifting) list.set_intros(1) list.simps(9) map_append order_refl set_ConsD sorted_append sorted_simps(2) image_eqI list.set_map)
    ultimately show ?thesis by simp
  qed
qed


lemma free_ok_add:
  assumes "free_ok heap F" "n \<notin> F" "n \<notin> sents (mm_nodelist heap)" "n \<noteq> NULL" "free_size (nd_size heap n)"
  obtains fl bl where "mm_addfreechunk heap n = Some (heap\<lparr>nd_flink := fl, nd_blink := bl\<rparr>)"
    "free_ok (heap\<lparr>nd_flink := fl, nd_blink := bl\<rparr>) (insert n F)"
    "\<And>p. p \<notin> insert n F \<Longrightarrow> p \<notin> sents (mm_nodelist heap) \<Longrightarrow> fl p = nd_flink heap p"
proof -
  let ?nl = "mm_nodelist heap" and ?fl = "nd_flink heap" and ?bl = "nd_blink heap" and ?sz = "nd_size heap"
  define i where "i = mm_size2ndx (?sz n)"
  define P where "P = (\<lambda>x. ?sz x \<noteq> 0 \<and> ?sz x < ?sz n)"
  let ?s = "?nl + i * SIZEOF_MM_FREENODE"
  obtain ns where ns: "flist ?nl ?sz ?fl ?bl ns" "set ns = sents ?nl \<union> F" "F \<inter> sents ?nl = {}"
    using assms by (auto simp: free_ok_def)
  have s: "?s \<in> sents ?nl"
    using mm_size2ndx_less by (auto simp: i_def sents_def)
  then obtain pre post where sp: "ns = pre @ ?s # post"
    using ns(2) by (metis UnI1 split_list)
  have fl: "?fl ?s = hd0 post" "lseg ?fl (hd0 post) post NULL"
    using ns(1) sp lseg_mid [of ?fl ?nl pre ?s post] by (auto simp: flist_def)
  obtain ys y where y: "pre @ ?s # takeWhile P post = ys @ [y]"
    by (cases "pre @ ?s # takeWhile P post" rule: rev_cases) auto
  define zs where "zs = dropWhile P post"
  have ns': "ns = ys @ y # zs"
    using sp y unfolding zs_def by (metis append_Cons append_assoc append_Nil takeWhile_dropWhile_id)
  have ylast: "y = last (?s # takeWhile P post)"
    using arg_cong [OF y, of last] by simp
  have loop: "mm_addfree_loop heap (?sz n) ?s (hd0 post) = Some (y, hd0 zs)"
    using mm_addfree_loop_walk [OF fl(2), of "?sz n" ?s]
    by (simp only: Let_def P_def [symmetric] zs_def [symmetric] ylast [symmetric])
  have notin: "n \<notin> set ns" using assms ns by auto
  let ?fl' = "?fl(n := hd0 zs, y := n)" and ?bl' = "if zs = [] then ?bl(n := y) else ?bl(n := y, hd zs := n)"
  note around = fkey_around [where sz = ?sz and n = n, folded i_def P_def, OF ns(1) [unfolded sp] assms(3,5)]
  have "flist ?nl ?sz ?fl' ?bl' (ys @ y # n # zs)"
    using ns(1) notin assms(4,5) around y unfolding ns' zs_def
    by (intro flist_insert) (simp_all only: y set_append not_False_eq_True)
  moreover have "set (ys @ y # n # zs) = sents ?nl \<union> insert n F"
    using ns(2) ns' by auto
  ultimately have "free_ok (heap\<lparr>nd_flink := ?fl', nd_blink := ?bl'\<rparr>) (insert n F)"
    unfolding free_ok_def using ns(3) assms(3) by (intro exI [of _ "ys @ y # n # zs"]) auto
  moreover have "hd0 zs = (if zs = [] then NULL else hd zs)" "zs \<noteq> [] \<Longrightarrow> hd zs \<noteq> NULL" "y \<noteq> n"
    using flistD(3) [OF ns(1)] notin ns' by (cases zs; auto)+
  then have "mm_addfreechunk heap n = Some (heap\<lparr>nd_flink := ?fl', nd_blink := ?bl'\<rparr>)"
    using loop fl(1) by (auto simp: mm_addfreechunk_def Let_def nodelist_def i_def [symmetric] fun_upd_twist)
  moreover have "y \<in> F \<union> sents ?nl"
    using ns' ns(2) by auto
  ultimately show ?thesis by (intro that [where fl = ?fl' and bl = ?bl']) auto
qed

section \<open>Looking for a node\<close>

lemma mm_malloc_search_walk:
  "lseg (nd_flink heap) (hd0 zs) zs NULL \<Longrightarrow>
     mm_malloc_search heap a (hd0 zs) = Some (hd0 (dropWhile (\<lambda>n. nd_size heap n < a) zs))"
proof (induction zs)
  case Nil
  then show ?case by (simp add: mm_malloc_search.simps)
next
  case (Cons z zs)
  then have "z \<noteq> NULL" "nd_flink heap z = hd0 zs" "lseg (nd_flink heap) (hd0 zs) zs NULL"
    using lseg_ConsD [OF Cons.prems] by auto
  with Cons.IH show ?case
    by (subst mm_malloc_search.simps) auto
qed

lemma fkey_small:
  assumes "fkey nl sz n \<le> mm_size2ndx a * 2 ^ 32" "n \<notin> sents nl" "free_size (sz n)"
  shows "sz n < a"
proof (rule ccontr)
  assume "\<not> sz n < a"
  then have "mm_size2ndx a * 2 ^ 32 \<le> mm_size2ndx (sz n) * 2 ^ 32"
    by (intro mult_le_mono1 mm_size2ndx_mono) simp
  with assms show False by (simp add: fkey_def free_size_def mm_consts)
qed

lemma fkey_size_mono:
  assumes "fkey nl sz x \<le> fkey nl sz y" "x \<notin> sents nl" "y \<notin> sents nl" "free_size (sz x)"
  shows "sz x \<le> sz y"
proof (rule ccontr)
  assume "\<not> sz x \<le> sz y"
  then have "mm_size2ndx (sz y) * 2 ^ 32 \<le> mm_size2ndx (sz x) * 2 ^ 32"
    by (intro mult_le_mono1 mm_size2ndx_mono) simp
  with assms \<open>\<not> sz x \<le> sz y\<close> show False by (simp add: fkey_def)
qed

text \<open>The search returns a smallest node that is large enough, and \<open>NULL\<close> only if there is none.\<close>

lemma free_ok_search:
  assumes "free_ok heap F" "0 < a"
  obtains n where "mm_malloc_search heap a (nd_flink heap (nodelist heap (mm_size2ndx a))) = Some n"
    "n = NULL \<Longrightarrow> \<forall>f \<in> F. nd_size heap f < a"
    "n \<noteq> NULL \<Longrightarrow> n \<in> F \<and> a \<le> nd_size heap n \<and> (\<forall>f \<in> F. a \<le> nd_size heap f \<longrightarrow> nd_size heap n \<le> nd_size heap f)"
proof -
  let ?nl = "mm_nodelist heap" and ?fl = "nd_flink heap" and ?sz = "nd_size heap"
  let ?s = "nodelist heap (mm_size2ndx a)" and ?Q = "\<lambda>n. ?sz n < a"
  obtain ns where ns: "flist ?nl ?sz ?fl (nd_blink heap) ns" "set ns = sents ?nl \<union> F" "F \<inter> sents ?nl = {}"
    using assms by (auto simp: free_ok_def)
  have s: "?s \<in> sents ?nl" by (rule sents_nodelist [OF mm_size2ndx_less])
  then obtain pre post where sp: "ns = pre @ ?s # post"
    using ns(2) by (metis UnI1 split_list)
  have fl: "?fl ?s = hd0 post" "lseg ?fl (hd0 post) post NULL"
    using ns(1) sp lseg_mid [of ?fl ?nl pre ?s post] by (auto simp: flist_def)
  note D = flistD [OF ns(1)]
  have key: "fkey ?nl ?sz ?s = mm_size2ndx a * 2 ^ 32"
    by (simp add: nodelist_def fkey_sent mm_size2ndx_less)
  have small: "?sz f < a" if "f \<in> F" "f \<in> set (pre @ [?s])" for f
  proof (rule fkey_small [where nl = ?nl and sz = ?sz and n = f])
    show "fkey ?nl ?sz f \<le> mm_size2ndx a * 2 ^ 32"
      using D(1) that(2) key sp by (auto simp: sorted_append)
    show "f \<notin> sents ?nl" "free_size (?sz f)"
      using that ns assms(1) free_ok_size by auto
  qed
  let ?d = "dropWhile ?Q post"
  have post: "post = takeWhile ?Q post @ ?d" by simp
  show ?thesis
  proof (rule that [of "hd0 ?d"])
    show "mm_malloc_search heap a (?fl ?s) = Some (hd0 ?d)"
      using mm_malloc_search_walk [OF fl(2)] fl(1) by simp
    have inF: "f \<in> set (pre @ [?s]) \<or> f \<in> set (takeWhile ?Q post) \<or> f \<in> set ?d" if "f \<in> F" for f
      using that ns(2) sp post by (metis UnI2 Un_iff append_Cons append_Nil append_assoc set_append)
    show "\<forall>f \<in> F. ?sz f < a" if "hd0 ?d = NULL"
    proof -
      have "?d = []" using that D(3) sp post by (metis UnCI hd0_in_set list.set_intros(2) set_append)
      then show ?thesis using inF small by (metis empty_iff list.set(1) set_takeWhileD)
    qed
    show "hd0 ?d \<in> F \<and> a \<le> ?sz (hd0 ?d) \<and> (\<forall>f \<in> F. a \<le> ?sz f \<longrightarrow> ?sz (hd0 ?d) \<le> ?sz f)" if nz: "hd0 ?d \<noteq> NULL"
    proof -
      obtain y ys where y: "?d = y # ys" using nz by (cases ?d) auto
      then have big: "a \<le> ?sz y" using hd_dropWhile [of ?Q post] by auto
      have "y \<in> set ns" using y post sp by (metis UnCI list.set_intros(1,2) set_append)
      with big assms(2) have yF: "y \<in> F" using ns(2) D(4) [of y] by auto
      have "?sz y \<le> ?sz f" if f: "f \<in> F" "a \<le> ?sz f" for f
      proof (rule fkey_size_mono [where nl = ?nl and sz = ?sz])
        have "f \<in> set (y # ys)" using inF [OF f(1)] small [OF f(1)] f(2) y by (auto dest: set_takeWhileD)
        moreover have "sorted (map (fkey ?nl ?sz) (y # ys))"
          using D(1) sp post y by (metis map_append list.simps(9) sorted_append sorted_simps(2))
        ultimately show "fkey ?nl ?sz y \<le> fkey ?nl ?sz f" by auto
      qed (use yF f ns assms(1) free_ok_size in auto)
      with y yF big show ?thesis by simp
    qed
  qed
qed

end
