(* ===== verification/Mm_Tiling.thy ===== *)
theory Mm_Tiling
  imports Mm_Freelist
begin

unbundle bit_operations_syntax

text \<open>
  The chunks of a heap: the nodes follow one another from \<open>mm_heapstart\<close> to \<open>mm_heapend\<close>, each
  header holding the size of its chunk, that of the chunk before and the bit that tells whether the
  chunk is allocated. \<open>heap_ok heap cs\<close> is the invariant of the memory manager for the list of
  chunks \<open>cs\<close>, a pair of a flag (allocated) and a size each; \<open>heap_pre\<close> is the part that
  holds inside an operation, with the set of nodes that are on the list of free nodes.
  \<open>heap_pre_replace\<close> is the step all operations are made of: some chunks are cut anew.
\<close>

section \<open>The bit that marks allocated chunks\<close>

definition penc :: "bool \<Rightarrow> nat \<Rightarrow> nat" where
  "penc f s = s + (if f then MM_ALLOC_BIT else 0)"

lemma bit31_iff: "bit (s :: nat) 31 \<longleftrightarrow> odd (s div 2 ^ 31)"
  by (simp add: bit_iff_odd)

lemma and_single_bit: "(s :: nat) AND 2 ^ n = of_bool (bit s n) * 2 ^ n"
  by (rule bit_eqI) (auto simp: bit_simps of_bool_def)

lemma and_alloc_bit: "(s :: nat) AND MM_ALLOC_BIT = (if odd (s div 2 ^ 31) then MM_ALLOC_BIT else 0)"
  using and_single_bit [of s 31] by (simp add: MM_ALLOC_BIT_def bit31_iff)

lemma or_alloc_bit:
  assumes "s < MM_ALLOC_BIT"
  shows "s OR MM_ALLOC_BIT = s + MM_ALLOC_BIT"
proof -
  have "s div 2 ^ 31 = 0" using assms by (simp add: MM_ALLOC_BIT_def)
  then have "s AND MM_ALLOC_BIT = 0" by (simp add: and_alloc_bit)
  then show ?thesis by (simp add: disjunctive_add_eq_or)
qed

lemma penc_simps [simp]:
  assumes "s < MM_ALLOC_BIT"
  shows "penc f s AND MM_ALLOC_BIT = (if f then MM_ALLOC_BIT else 0)"
    and "s OR MM_ALLOC_BIT = penc True s"
    and "penc f s OR MM_ALLOC_BIT = penc True s"
    and "clear_bits (penc f s) MM_ALLOC_BIT = s"
proof -
  have a: "penc f s AND MM_ALLOC_BIT = (if f then MM_ALLOC_BIT else 0)" for f
  proof -
    have "penc f s div 2 ^ 31 = of_bool f"
      using assms by (auto simp: penc_def MM_ALLOC_BIT_def)
    then show ?thesis by (simp add: and_alloc_bit)
  qed
  then show "penc f s AND MM_ALLOC_BIT = (if f then MM_ALLOC_BIT else 0)" by this
  show b: "s OR MM_ALLOC_BIT = penc True s"
    using assms by (simp add: or_alloc_bit penc_def)
  show "penc f s OR MM_ALLOC_BIT = penc True s"
    by (cases f) (simp_all only: penc_def [of False] if_False add_0_right b [symmetric] or.assoc or.idem)
  show "clear_bits (penc f s) MM_ALLOC_BIT = s"
    by (simp add: clear_bits_def a) (simp add: penc_def)
qed

lemma penc_False [simp]: "penc False s = s"
  by (simp add: penc_def)

lemma and_alloc_bit_small [simp]: "s < MM_ALLOC_BIT \<Longrightarrow> s AND MM_ALLOC_BIT = 0"
  using penc_simps(1) [of s False] by simp

lemma alloc_bit_nz [simp]: "MM_ALLOC_BIT \<noteq> 0" "0 < MM_ALLOC_BIT"
  by (simp_all add: MM_ALLOC_BIT_def)

lemma or_flag [simp]: "s < MM_ALLOC_BIT \<Longrightarrow> s OR (if f then MM_ALLOC_BIT else 0) = penc f s"
  by simp

section \<open>Chunks in memory\<close>

type_synonym chunk = "bool \<times> nat"

abbreviation span :: "chunk list \<Rightarrow> nat" where
  "span cs \<equiv> sum_list (map snd cs)"

definition endsz :: "nat \<Rightarrow> chunk list \<Rightarrow> nat" where
  "endsz p cs = (if cs = [] then p else snd (last cs))"

primrec tile :: "(ptr \<Rightarrow> nat) \<Rightarrow> (ptr \<Rightarrow> nat) \<Rightarrow> ptr \<Rightarrow> nat \<Rightarrow> chunk list \<Rightarrow> bool" where
  "tile sz pr a p [] \<longleftrightarrow> True"
| "tile sz pr a p (c # cs) \<longleftrightarrow> sz a = snd c \<and> pr a = penc (fst c) p \<and> tile sz pr (a + snd c) (snd c) cs"

primrec locs :: "ptr \<Rightarrow> chunk list \<Rightarrow> (ptr \<times> chunk) list" where
  "locs a [] = []"
| "locs a (c # cs) = (a, c) # locs (a + snd c) cs"

definition free_at :: "ptr \<Rightarrow> chunk list \<Rightarrow> ptr set" where
  "free_at a cs = {p. \<exists>s. (p, False, s) \<in> set (locs a cs)}"

lemma endsz_simps [simp]:
  "endsz p [] = p" "endsz p (cs @ [c]) = snd c" "endsz p (c # cs) = endsz (snd c) cs"
  by (auto simp: endsz_def)

lemma endsz_append [simp]: "endsz p (xs @ ys) = endsz (endsz p xs) ys"
  by (auto simp: endsz_def)

lemma tile_append [simp]:
  "tile sz pr a p (xs @ ys) \<longleftrightarrow> tile sz pr a p xs \<and> tile sz pr (a + span xs) (endsz p xs) ys"
  by (induction xs arbitrary: a p) (auto simp: add.assoc)

lemma locs_append [simp]: "locs a (xs @ ys) = locs a xs @ locs (a + span xs) ys"
  by (induction xs arbitrary: a) (auto simp: add.assoc)

lemma free_at_simps [simp]:
  "free_at a [] = {}"
  "free_at a (c # cs) = (if fst c then {} else {a}) \<union> free_at (a + snd c) cs"
  "free_at a (xs @ ys) = free_at a xs \<union> free_at (a + span xs) ys"
  by (auto simp: free_at_def prod_eq_iff)

text \<open>Every chunk holds at least its header.\<close>

definition solid :: "chunk list \<Rightarrow> bool" where
  "solid cs \<longleftrightarrow> (\<forall>c \<in> set cs. SIZEOF_MM_ALLOCNODE \<le> snd c)"

lemma solid_simps [simp]:
  "solid []" "solid (c # cs) \<longleftrightarrow> SIZEOF_MM_ALLOCNODE \<le> snd c \<and> solid cs"
  "solid (xs @ ys) \<longleftrightarrow> solid xs \<and> solid ys"
  by (auto simp: solid_def)

lemma locs_range:
  "solid cs \<Longrightarrow> (p, c) \<in> set (locs a cs) \<Longrightarrow> a \<le> p \<and> p + snd c \<le> a + span cs \<and> SIZEOF_MM_ALLOCNODE \<le> snd c"
  by (induction cs arbitrary: a) fastforce+

lemma free_at_range: "solid cs \<Longrightarrow> p \<in> free_at a cs \<Longrightarrow> a \<le> p \<and> p < a + span cs"
  by (auto simp: free_at_def mm_consts dest!: locs_range)

lemma tile_cong:
  assumes "tile sz pr a p cs" "solid cs"
    and "\<And>q. a \<le> q \<Longrightarrow> q < a + span cs \<Longrightarrow> sz' q = sz q \<and> pr' q = pr q"
  shows "tile sz' pr' a p cs"
  using assms
proof (induction cs arbitrary: a p)
  case (Cons c cs)
  have "sz' a = sz a \<and> pr' a = pr a"
    using Cons.prems by (intro Cons.prems(3)) (auto simp: mm_consts)
  moreover have "tile sz' pr' (a + snd c) (snd c) cs"
    using Cons.prems by (intro Cons.IH) auto
  ultimately show ?case using Cons.prems by simp
qed simp

lemma tile_locs: "tile sz pr a p cs \<Longrightarrow> (q, c) \<in> set (locs a cs) \<Longrightarrow> sz q = snd c"
  by (induction cs arbitrary: a p) auto

lemma tile_head_pre:
  assumes "tile sz pr a p (c # cs)" "solid (c # cs)"
    and "\<And>q. a < q \<Longrightarrow> q < a + span (c # cs) \<Longrightarrow> sz' q = sz q \<and> pr' q = pr q"
    and "sz' a = sz a" "pr' a = penc (fst c) p'"
  shows "tile sz' pr' a p' (c # cs)"
proof -
  have "tile sz' pr' (a + snd c) (snd c) cs"
    by (rule tile_cong [of sz pr]) (use assms in \<open>auto simp: mm_consts\<close>)
  with assms show ?thesis by simp
qed

text \<open>Cutting the chunks \<open>us\<close> into \<open>vs\<close> touches their headers and the one after them only.\<close>

lemma tile_replace:
  assumes "tile sz pr a p (xs @ us @ y # ys)" "solid (xs @ us @ y # ys)"
    and "span vs = span us" "vs \<noteq> []"
    and "tile sz' pr' (a + span xs) (endsz p xs) vs"
    and "\<And>q. q < a + span xs \<or> a + span xs + span us \<le> q \<Longrightarrow> sz' q = sz q"
    and "\<And>q. q < a + span xs \<or> a + span xs + span us < q \<Longrightarrow> pr' q = pr q"
    and "pr' (a + span xs + span us) = penc (fst y) (snd (last vs))"
  shows "tile sz' pr' a p (xs @ vs @ y # ys)"
proof -
  have "tile sz' pr' a p xs"
    by (rule tile_cong [of sz pr]) (use assms in auto)
  moreover have "tile sz' pr' (a + span xs + span us) (snd (last vs)) (y # ys)"
    by (rule tile_head_pre [of sz pr _ "endsz (endsz p xs) us"]) (use assms in auto)
  ultimately show ?thesis
    using assms(3-5) by (simp add: endsz_def)
qed


section \<open>The invariant\<close>

definition guard :: chunk where
  "guard = (True, SIZEOF_MM_ALLOCNODE)"

definition chunk_ok :: "chunk \<Rightarrow> bool" where
  "chunk_ok c \<longleftrightarrow> MM_MIN_CHUNK \<le> snd c \<and> MM_MIN_CHUNK dvd snd c"

definition wf_chunks :: "chunk list \<Rightarrow> bool" where
  "wf_chunks cs \<longleftrightarrow> (\<exists>mid. cs = guard # mid @ [guard] \<and> (\<forall>c \<in> set mid. chunk_ok c))"

definition geom :: "mm_heap_s \<Rightarrow> chunk list \<Rightarrow> bool" where
  "geom heap cs \<longleftrightarrow> wf_chunks cs \<and> 0 < mm_heapstart heap \<and> MM_MIN_CHUNK dvd mm_heapstart heap \<and>
     mm_heapend heap + SIZEOF_MM_ALLOCNODE = mm_heapstart heap + span cs \<and>
     mm_heapstart heap + span cs \<le> 2 ^ 32 \<and> span cs < MM_ALLOC_BIT \<and>
     (\<forall>n \<in> sents (mm_nodelist heap).
        n + SIZEOF_MM_FREENODE \<le> mm_heapstart heap \<or> mm_heapstart heap + span cs \<le> n)"

definition heap_pre :: "mm_heap_s \<Rightarrow> chunk list \<Rightarrow> ptr set \<Rightarrow> bool" where
  "heap_pre heap cs F \<longleftrightarrow> geom heap cs \<and> free_ok heap F \<and>
     tile (nd_size heap) (nd_preceding heap) (mm_heapstart heap) 0 cs"

text \<open>No free chunk follows a free chunk.\<close>

definition coalesced :: "chunk list \<Rightarrow> bool" where
  "coalesced cs \<longleftrightarrow> successively (\<lambda>c d. fst c \<or> fst d) cs"

definition heap_ok :: "mm_heap_s \<Rightarrow> chunk list \<Rightarrow> bool" where
  "heap_ok heap cs \<longleftrightarrow> heap_pre heap cs (free_at (mm_heapstart heap) cs) \<and> coalesced cs"

lemma coalesced_simps [simp]:
  "coalesced []" "coalesced [c]"
  "coalesced (c # d # cs) \<longleftrightarrow> (fst c \<or> fst d) \<and> coalesced (d # cs)"
  "coalesced (xs @ ys) \<longleftrightarrow> coalesced xs \<and> coalesced ys \<and>
     (xs = [] \<or> ys = [] \<or> fst (last xs) \<or> fst (hd ys))"
  by (auto simp: coalesced_def successively_append_iff)

lemma wf_chunks_solid: "wf_chunks cs \<Longrightarrow> solid cs"
  by (fastforce simp: wf_chunks_def guard_def chunk_ok_def solid_def mm_consts)

lemma wf_chunks_replace:
  assumes "wf_chunks (xs @ us @ ys)" "xs \<noteq> []" "ys \<noteq> []" "\<forall>c \<in> set vs. chunk_ok c"
  shows "wf_chunks (xs @ vs @ ys)"
proof -
  obtain x xs' y ys' where sp: "xs = x # xs'" "ys = ys' @ [y]"
    using assms(2,3) by (metis list.exhaust rev_exhaust)
  obtain mid where mid: "xs @ us @ ys = guard # mid @ [guard]" "\<forall>c \<in> set mid. chunk_ok c"
    using assms(1) by (auto simp: wf_chunks_def)
  have "x = guard" "(xs' @ us @ ys') @ [y] = mid @ [guard]"
    using mid(1) sp by auto
  then have "mid = xs' @ us @ ys'" "y = guard" by (simp_all only: append1_eq_conv)
  then show ?thesis
    using mid(2) assms(4) sp \<open>x = guard\<close>
    by (auto simp: wf_chunks_def intro!: exI [of _ "xs' @ vs @ ys'"])
qed

lemma wf_chunks_mid:
  assumes "wf_chunks (xs @ c # ys)" "xs \<noteq> []" "ys \<noteq> []"
  shows "chunk_ok c"
proof -
  obtain x xs' y ys' where sp: "xs = x # xs'" "ys = ys' @ [y]"
    using assms(2,3) by (metis list.exhaust rev_exhaust)
  obtain mid where mid: "xs @ c # ys = guard # mid @ [guard]" "\<forall>c \<in> set mid. chunk_ok c"
    using assms(1) by (auto simp: wf_chunks_def)
  have "(xs' @ c # ys') @ [y] = mid @ [guard]" using mid(1) sp by auto
  then have "mid = xs' @ c # ys'" by (simp only: append1_eq_conv)
  then show ?thesis using mid(2) by simp
qed

lemma geom_replace:
  assumes "geom heap (xs @ us @ ys)" "xs \<noteq> []" "ys \<noteq> []" "\<forall>c \<in> set vs. chunk_ok c" "span vs = span us"
  shows "geom heap (xs @ vs @ ys)"
  using assms wf_chunks_replace [of xs us ys vs] by (auto simp: geom_def)

lemma heap_pre_replace:
  fixes heap :: mm_heap_s and xs us vs ys :: "chunk list"
  defines "b \<equiv> mm_heapstart heap + span xs"
  assumes "heap_pre heap (xs @ us @ y # ys) F" "xs \<noteq> []" "vs \<noteq> []" "span vs = span us"
    and "\<forall>c \<in> set vs. chunk_ok c"
    and "tile sz' pr' b (endsz 0 xs) vs"
    and sz: "\<And>q. q < b \<or> b + span us \<le> q \<Longrightarrow> sz' q = nd_size heap q"
    and pr: "\<And>q. q < b \<or> b + span us < q \<Longrightarrow> pr' q = nd_preceding heap q"
    and "pr' (b + span us) = penc (fst y) (snd (last vs))"
    and F: "\<And>n. n \<in> F \<Longrightarrow> sz' n = nd_size heap n"
  shows "heap_pre (heap\<lparr>nd_size := sz', nd_preceding := pr'\<rparr>) (xs @ vs @ y # ys) F"
proof -
  have g: "geom heap (xs @ us @ y # ys)" and fo: "free_ok heap F"
    and ti: "tile (nd_size heap) (nd_preceding heap) (mm_heapstart heap) 0 (xs @ us @ y # ys)"
    using assms(2) by (auto simp: heap_pre_def)
  have so: "solid (xs @ us @ y # ys)"
    using g wf_chunks_solid unfolding geom_def by blast
  have "sz' n = nd_size heap n" if "n \<in> sents (mm_nodelist heap)" for n
    using g that so by (intro sz) (fastforce simp: geom_def b_def mm_consts)
  then have "free_ok (heap\<lparr>nd_size := sz'\<rparr>) F"
    using fo F by (subst free_ok_size_cong) auto
  moreover have "geom (heap\<lparr>nd_size := sz', nd_preceding := pr'\<rparr>) (xs @ vs @ y # ys)"
    using geom_replace [OF g assms(3) _ assms(6,5)] by (simp add: geom_def)
  moreover have "tile sz' pr' (mm_heapstart heap) 0 (xs @ vs @ y # ys)"
    by (rule tile_replace [OF ti so assms(5,4)]) (use assms(7,10) sz pr in \<open>auto simp: b_def\<close>)
  ultimately show ?thesis by (simp add: heap_pre_def)
qed


section \<open>Steps of the operations\<close>

lemma span_ge: "endsz p cs \<le> p + span cs" "c \<in> set cs \<Longrightarrow> snd c \<le> span cs"
  by (cases cs rule: rev_cases; simp) (auto intro: member_le_sum_list)

lemma heap_pre_solid: "heap_pre heap cs F \<Longrightarrow> solid cs"
  using wf_chunks_solid by (auto simp: heap_pre_def geom_def)

lemma heap_pre_at:
  assumes "heap_pre heap (xs @ c # ys) F"
  shows "nd_size heap (mm_heapstart heap + span xs) = snd c"
    "nd_preceding heap (mm_heapstart heap + span xs) = penc (fst c) (endsz 0 xs)"
    "snd c < MM_ALLOC_BIT" "endsz 0 xs < MM_ALLOC_BIT" "endsz 0 xs \<le> span xs"
  using assms span_ge(1) [of 0 xs] by (auto simp: heap_pre_def geom_def)

lemma heap_pre_mark:
  assumes "heap_pre heap (xs @ (f, s) # y # ys) F" "xs \<noteq> []"
  shows "heap_pre (heap\<lparr>nd_preceding := (nd_preceding heap)(mm_heapstart heap + span xs := penc g (endsz 0 xs))\<rparr>)
           (xs @ (g, s) # y # ys) F"
proof -
  have s: "chunk_ok (g, s)"
    using assms wf_chunks_mid [of xs "(f, s)" "y # ys"] by (auto simp: heap_pre_def geom_def chunk_ok_def)
  have "heap_pre (heap\<lparr>nd_size := nd_size heap, nd_preceding :=
      (nd_preceding heap)(mm_heapstart heap + span xs := penc g (endsz 0 xs))\<rparr>) (xs @ [(g, s)] @ y # ys) F"
    by (rule heap_pre_replace [where us = "[(f, s)]"])
      (use assms s heap_pre_at [OF assms(1)] heap_pre_at [of heap "xs @ [(f, s)]" y ys F]
        in \<open>auto simp: chunk_ok_def mm_consts add.assoc\<close>)
  then show ?thesis by simp
qed

lemma heap_pre_merge:
  fixes heap :: mm_heap_s and xs :: "chunk list"
  defines "n \<equiv> mm_heapstart heap + span xs"
  assumes "heap_pre heap (xs @ (f, s) # (g, t) # y # ys) F" "xs \<noteq> []" "n \<notin> F"
  shows "heap_pre (heap\<lparr>nd_size := (nd_size heap)(n := s + t),
           nd_preceding := (nd_preceding heap)(n + s + t := penc (fst y) (s + t))\<rparr>)
           (xs @ (f, s + t) # y # ys) F"
proof -
  have "chunk_ok (f, s)" "chunk_ok (g, t)"
    using assms wf_chunks_mid [of xs "(f, s)" "(g, t) # y # ys"] wf_chunks_mid [of "xs @ [(f, s)]" "(g, t)" "y # ys"]
    by (auto simp: heap_pre_def geom_def)
  then have ok: "chunk_ok (f, s + t)" "0 < s" "0 < t" by (auto simp: chunk_ok_def mm_consts)
  have "heap_pre (heap\<lparr>nd_size := (nd_size heap)(n := s + t),
      nd_preceding := (nd_preceding heap)(n + s + t := penc (fst y) (s + t))\<rparr>) (xs @ [(f, s + t)] @ y # ys) F"
    by (rule heap_pre_replace [where us = "[(f, s), (g, t)]"])
      (use assms ok heap_pre_at [OF assms(2)] in \<open>auto simp: n_def\<close>)
  then show ?thesis by simp
qed

lemma heap_pre_split:
  fixes heap :: mm_heap_s and xs :: "chunk list"
  defines "n \<equiv> mm_heapstart heap + span xs"
  assumes "heap_pre heap (xs @ (f, s + t) # y # ys) F" "xs \<noteq> []" "n \<notin> F" "n + s \<notin> F"
    and ok: "chunk_ok (f', s)" "chunk_ok (g, t)"
  shows "heap_pre (heap\<lparr>nd_size := (nd_size heap)(n + s := t, n := s),
           nd_preceding := (nd_preceding heap)(n + s := penc g s, n := penc f' (endsz 0 xs), n + s + t := penc (fst y) t)\<rparr>)
           (xs @ (f', s) # (g, t) # y # ys) F"
proof -
  have "0 < s" "0 < t" using ok by (auto simp: chunk_ok_def mm_consts)
  then have "heap_pre (heap\<lparr>nd_size := (nd_size heap)(n + s := t, n := s),
      nd_preceding := (nd_preceding heap)(n + s := penc g s, n := penc f' (endsz 0 xs), n + s + t := penc (fst y) t)\<rparr>)
      (xs @ [(f', s), (g, t)] @ y # ys) F"
    by (intro heap_pre_replace [where us = "[(f, s + t)]"])
      (use assms heap_pre_at [OF assms(2)] in \<open>auto simp: n_def\<close>)
  then show ?thesis by simp
qed

lemma heap_pre_unlink:
  assumes "heap_pre heap cs F" "n \<in> F"
  obtains fl bl where "mm_unlink heap n = heap\<lparr>nd_flink := fl, nd_blink := bl\<rparr>"
    "heap_pre (heap\<lparr>nd_flink := fl, nd_blink := bl\<rparr>) cs (F - {n})"
    "\<And>p. p \<notin> F \<Longrightarrow> p \<notin> sents (mm_nodelist heap) \<Longrightarrow> fl p = nd_flink heap p"
proof -
  have "free_ok heap F" using assms(1) by (simp add: heap_pre_def)
  then obtain fl bl where "mm_unlink heap n = heap\<lparr>nd_flink := fl, nd_blink := bl\<rparr>"
    "free_ok (heap\<lparr>nd_flink := fl, nd_blink := bl\<rparr>) (F - {n})"
    "\<And>p. p \<notin> F \<Longrightarrow> p \<notin> sents (mm_nodelist heap) \<Longrightarrow> fl p = nd_flink heap p"
    using assms(2) by (rule free_ok_unlink) blast
  then show ?thesis
    using assms by (intro that [where fl = fl and bl = bl]) (auto simp: heap_pre_def geom_def)
qed

lemma heap_pre_add:
  assumes "heap_pre heap (xs @ (False, s) # y # ys) F" "xs \<noteq> []" "n = mm_heapstart heap + span xs" "n \<notin> F"
  obtains fl bl where "mm_addfreechunk heap n = Some (heap\<lparr>nd_flink := fl, nd_blink := bl\<rparr>)"
    "heap_pre (heap\<lparr>nd_flink := fl, nd_blink := bl\<rparr>) (xs @ (False, s) # y # ys) (insert n F)"
    "\<And>p. p \<notin> insert n F \<Longrightarrow> p \<notin> sents (mm_nodelist heap) \<Longrightarrow> fl p = nd_flink heap p"
proof -
  have fo: "free_ok heap F" using assms(1) by (simp add: heap_pre_def)
  have ok: "chunk_ok (False, s)" and g: "geom heap (xs @ (False, s) # y # ys)"
    using assms wf_chunks_mid [of xs "(False, s)" "y # ys"] by (auto simp: heap_pre_def geom_def)
  have "n \<notin> sents (mm_nodelist heap)"
    using g assms(3) ok by (fastforce simp: geom_def chunk_ok_def mm_consts)
  moreover have "n \<noteq> NULL" using g assms(3) by (auto simp: geom_def)
  moreover have "free_size (nd_size heap n)"
    using ok heap_pre_at [OF assms(1)] assms(3) by (auto simp: free_size_def chunk_ok_def mm_consts)
  ultimately obtain fl bl where "mm_addfreechunk heap n = Some (heap\<lparr>nd_flink := fl, nd_blink := bl\<rparr>)"
    "free_ok (heap\<lparr>nd_flink := fl, nd_blink := bl\<rparr>) (insert n F)"
    "\<And>p. p \<notin> insert n F \<Longrightarrow> p \<notin> sents (mm_nodelist heap) \<Longrightarrow> fl p = nd_flink heap p"
    using free_ok_add [OF fo assms(4)] by blast
  then show ?thesis
    using assms by (intro that [where fl = fl and bl = bl]) (auto simp: heap_pre_def geom_def)
qed


section \<open>What an operation leaves alone\<close>

definition alloc_at :: "ptr \<Rightarrow> chunk list \<Rightarrow> ptr set" where
  "alloc_at a cs = {p. \<exists>s. (p, True, s) \<in> set (locs a cs)}"

text \<open>
  Only nodes change between \<open>heap\<close> and \<open>heap'\<close>, and the nodes \<open>A\<close> keep the word that the links of
  free and of delayed nodes share.
\<close>

definition node_frame :: "ptr set \<Rightarrow> mm_heap_s \<Rightarrow> mm_heap_s \<Rightarrow> bool" where
  "node_frame A heap heap' \<longleftrightarrow>
     heap' = heap\<lparr>nd_size := nd_size heap', nd_preceding := nd_preceding heap',
                  nd_flink := nd_flink heap', nd_blink := nd_blink heap'\<rparr> \<and>
     (\<forall>p \<in> A. nd_flink heap' p = nd_flink heap p)"

lemma alloc_at_simps [simp]:
  "alloc_at a [] = {}"
  "alloc_at a (c # cs) = (if fst c then {a} else {}) \<union> alloc_at (a + snd c) cs"
  "alloc_at a (xs @ ys) = alloc_at a xs \<union> alloc_at (a + span xs) ys"
  by (auto simp: alloc_at_def prod_eq_iff)

lemma alloc_at_range: "solid cs \<Longrightarrow> p \<in> alloc_at a cs \<Longrightarrow> a \<le> p \<and> p < a + span cs"
  by (auto simp: alloc_at_def mm_consts dest!: locs_range)

lemma alloc_not_free: "solid cs \<Longrightarrow> p \<in> alloc_at a cs \<Longrightarrow> p \<notin> free_at a cs"
proof (induction cs arbitrary: a)
  case (Cons c cs)
  then show ?case
    using free_at_range [of cs p "a + snd c"] alloc_at_range [of cs p "a + snd c"]
    by (auto simp: mm_consts)
qed simp

lemma heap_pre_alloc_not_sent:
  assumes "heap_pre heap cs F" "p \<in> alloc_at (mm_heapstart heap) cs"
  shows "p \<notin> sents (mm_nodelist heap)"
  using assms alloc_at_range [OF heap_pre_solid [OF assms(1)] assms(2)]
  by (fastforce simp: heap_pre_def geom_def mm_consts)

lemma node_frame_refl [simp]: "node_frame A heap heap"
  by (simp add: node_frame_def)

lemma node_frame_trans: "node_frame A h h' \<Longrightarrow> node_frame A h' h'' \<Longrightarrow> node_frame A h h''"
  by (cases h; cases h'; cases h'') (auto simp: node_frame_def)

lemma node_frame_mono: "node_frame A h h' \<Longrightarrow> B \<subseteq> A \<Longrightarrow> node_frame B h h'"
  by (auto simp: node_frame_def)

lemma node_frameD:
  assumes "node_frame A h h'"
  shows "mm_semcount h' = mm_semcount h" "mm_holder h' = mm_holder h"
    "mm_counts_held h' = mm_counts_held h" "mm_heapsize h' = mm_heapsize h"
    "mm_heapstart h' = mm_heapstart h" "mm_heapend h' = mm_heapend h" "mm_nodelist h' = mm_nodelist h"
    "mm_delaylist h' = mm_delaylist h" "mm_bytes h' = mm_bytes h"
    "p \<in> A \<Longrightarrow> nd_flink h' p = nd_flink h p"
proof -
  have eq: "h' = h\<lparr>nd_size := nd_size h', nd_preceding := nd_preceding h',
      nd_flink := nd_flink h', nd_blink := nd_blink h'\<rparr>"
    using assms by (simp add: node_frame_def)
  show "mm_semcount h' = mm_semcount h" "mm_holder h' = mm_holder h"
    "mm_counts_held h' = mm_counts_held h" "mm_heapsize h' = mm_heapsize h"
    "mm_heapstart h' = mm_heapstart h" "mm_heapend h' = mm_heapend h" "mm_nodelist h' = mm_nodelist h"
    "mm_delaylist h' = mm_delaylist h" "mm_bytes h' = mm_bytes h"
    by (subst eq, simp)+
  show "p \<in> A \<Longrightarrow> nd_flink h' p = nd_flink h p"
    using assms by (simp add: node_frame_def)
qed

lemma node_frameI [simp]:
  "node_frame A h (h\<lparr>nd_size := sz\<rparr>)" "node_frame A h (h\<lparr>nd_preceding := pr\<rparr>)"
  "node_frame A h (h\<lparr>nd_size := sz, nd_preceding := pr\<rparr>)"
  by (simp_all add: node_frame_def)

lemma node_frame_links:
  assumes "\<And>p. p \<in> A \<Longrightarrow> fl p = nd_flink h p"
  shows "node_frame A h (h\<lparr>nd_flink := fl, nd_blink := bl\<rparr>)"
    "node_frame A h (h\<lparr>nd_flink := fl, nd_blink := bl, nd_size := sz, nd_preceding := pr\<rparr>)"
    "node_frame A h (h\<lparr>nd_size := sz, nd_preceding := pr, nd_flink := fl, nd_blink := bl\<rparr>)"
  using assms by (simp_all add: node_frame_def)

end
