(* ===== verification/Mm_Alloc.thy ===== *)
theory Mm_Alloc
  imports Mm_Tiling
begin

unbundle bit_operations_syntax

text \<open>
  What \<open>mm_free\<close> and \<open>mm_malloc\<close> do to the chunks of a heap.
\<close>

section \<open>Releasing a chunk\<close>

text \<open>The chunks after \<open>mm_free\<close> of the chunk of size \<open>s\<close> between \<open>xs\<close> and \<open>ys\<close>.\<close>

definition merge_next :: "nat \<Rightarrow> chunk list \<Rightarrow> nat \<times> chunk list" where
  "merge_next s ys = (if fst (hd ys) then (s, ys) else (s + snd (hd ys), tl ys))"

definition merge_prev :: "chunk list \<Rightarrow> nat \<Rightarrow> chunk list \<times> nat" where
  "merge_prev xs s = (if fst (last xs) then (xs, s) else (butlast xs, snd (last xs) + s))"

definition free_chunk :: "chunk list \<Rightarrow> nat \<Rightarrow> chunk list \<Rightarrow> chunk list" where
  "free_chunk xs s ys = (let (s, ys) = merge_next s ys; (xs, s) = merge_prev xs s in xs @ (False, s) # ys)"

text \<open>
  A chunk of size \<open>s\<close> between \<open>xs\<close> and \<open>ys\<close> that is marked free and is not on the list of free nodes,
  while all other free chunks are.
\<close>

definition other_free :: "ptr \<Rightarrow> chunk list \<Rightarrow> nat \<Rightarrow> chunk list \<Rightarrow> ptr set" where
  "other_free a xs s ys = free_at a xs \<union> free_at (a + span xs + s) ys"

definition other_alloc :: "ptr \<Rightarrow> chunk list \<Rightarrow> nat \<Rightarrow> chunk list \<Rightarrow> ptr set" where
  "other_alloc a xs s ys = alloc_at a xs \<union> alloc_at (a + span xs + s) ys"

definition detached :: "mm_heap_s \<Rightarrow> chunk list \<Rightarrow> bool \<Rightarrow> nat \<Rightarrow> chunk list \<Rightarrow> bool" where
  "detached h xs f s ys \<longleftrightarrow> xs \<noteq> [] \<and> ys \<noteq> [] \<and>
     heap_pre h (xs @ (f, s) # ys) (other_free (mm_heapstart h) xs s ys)"

lemma free_at_below [simp]: "solid ys \<Longrightarrow> n < a \<Longrightarrow> n \<notin> free_at a ys"
  using free_at_range by fastforce

lemma free_at_above [simp]: "solid xs \<Longrightarrow> a + span xs \<le> n \<Longrightarrow> n \<notin> free_at a xs"
  using free_at_range by fastforce

lemma wf_chunks_ends:
  assumes "wf_chunks (xs @ (f, s) # ys)" "xs \<noteq> []" "ys \<noteq> []"
  shows "fst (hd xs)" "fst (last ys)" "\<not> fst (last xs) \<Longrightarrow> butlast xs \<noteq> []" "\<not> fst (hd ys) \<Longrightarrow> tl ys \<noteq> []"
proof -
  obtain x xs' y ys' where sp: "xs = x # xs'" "ys = ys' @ [y]"
    using assms(2,3) by (metis list.exhaust rev_exhaust)
  obtain mid where mid: "xs @ (f, s) # ys = guard # mid @ [guard]"
    using assms(1) by (auto simp: wf_chunks_def)
  have "x = guard" "(xs' @ (f, s) # ys') @ [y] = mid @ [guard]" using mid(1) sp by auto
  then have "x = guard" "y = guard" by (simp_all only: append1_eq_conv)
  with sp show "fst (hd xs)" "fst (last ys)" "\<not> fst (last xs) \<Longrightarrow> butlast xs \<noteq> []" "\<not> fst (hd ys) \<Longrightarrow> tl ys \<noteq> []"
    by (auto simp: guard_def hd_append split: if_splits)
qed

lemma detachedD:
  assumes "detached h xs f s ys"
  shows "heap_pre h (xs @ (f, s) # ys) (other_free (mm_heapstart h) xs s ys)"
    "xs \<noteq> []" "ys \<noteq> []" "solid xs" "solid ys" "chunk_ok (f, s)"
    "\<not> fst (last xs) \<Longrightarrow> butlast xs \<noteq> []" "\<not> fst (hd ys) \<Longrightarrow> tl ys \<noteq> []"
    "mm_heapstart h + span xs \<notin> other_free (mm_heapstart h) xs s ys"
proof -
  show d: "heap_pre h (xs @ (f, s) # ys) (other_free (mm_heapstart h) xs s ys)" "xs \<noteq> []" "ys \<noteq> []"
    using assms by (auto simp: detached_def)
  then have wf: "wf_chunks (xs @ (f, s) # ys)" by (simp add: heap_pre_def geom_def)
  show so: "solid xs" "solid ys" using wf_chunks_solid [OF wf] by auto
  show ok: "chunk_ok (f, s)" using wf_chunks_mid [OF wf d(2,3)] .
  show "\<not> fst (last xs) \<Longrightarrow> butlast xs \<noteq> []" "\<not> fst (hd ys) \<Longrightarrow> tl ys \<noteq> []"
    using wf_chunks_ends [OF wf d(2,3)] by auto
  show "mm_heapstart h + span xs \<notin> other_free (mm_heapstart h) xs s ys"
    using so ok by (auto simp: other_free_def chunk_ok_def mm_consts)
qed

lemma other_frame:
  assumes "detached h xs f s ys" "p \<in> other_alloc (mm_heapstart h) xs s ys"
  shows "p \<notin> other_free (mm_heapstart h) xs s ys" "p \<notin> sents (mm_nodelist h)" "p \<noteq> mm_heapstart h + span xs"
proof -
  note D = detachedD [OF assms(1)]
  have "p \<in> alloc_at (mm_heapstart h) (xs @ (f, s) # ys)"
    using assms(2) by (auto simp: other_alloc_def add.assoc)
  moreover have "p \<noteq> mm_heapstart h + span xs"
    using assms(2) D(4-6) alloc_at_range by (fastforce simp: other_alloc_def chunk_ok_def mm_consts)
  ultimately show "p \<notin> other_free (mm_heapstart h) xs s ys" "p \<notin> sents (mm_nodelist h)" "p \<noteq> mm_heapstart h + span xs"
    using alloc_not_free [OF heap_pre_solid [OF D(1)]] heap_pre_alloc_not_sent [OF D(1)]
    by (auto simp: other_free_def add.assoc)
qed

lemma heap_ok_detach:
  assumes "heap_ok h (xs @ (True, s) # ys)" "xs \<noteq> []" "ys \<noteq> []"
  shows "detached h xs True s ys"
  using assms by (auto simp: heap_ok_def detached_def other_free_def add.assoc)

lemma detached_mark:
  assumes "detached h xs f s ys"
  shows "detached (h\<lparr>nd_preceding := (nd_preceding h)(mm_heapstart h + span xs := penc g (endsz 0 xs))\<rparr>) xs g s ys"
  using heap_pre_mark [of h xs f s "hd ys" "tl ys"] detachedD(1-3) [OF assms] by (simp add: detached_def)

lemma detached_attach:
  assumes "detached h xs False s ys" "n = mm_heapstart h + span xs"
  obtains h' where "mm_addfreechunk h n = Some h'" "node_frame (other_alloc (mm_heapstart h) xs s ys) h h'"
    "heap_pre h' (xs @ (False, s) # ys) (free_at (mm_heapstart h) (xs @ (False, s) # ys))"
proof -
  note D = detachedD [OF assms(1)]
  obtain y ys' where ys: "ys = y # ys'" using D(3) by (cases ys) auto
  have "insert n (other_free (mm_heapstart h) xs s ys) = free_at (mm_heapstart h) (xs @ (False, s) # ys)"
    using assms(2) by (auto simp: other_free_def add.assoc)
  then obtain fl bl where "mm_addfreechunk h n = Some (h\<lparr>nd_flink := fl, nd_blink := bl\<rparr>)"
    "heap_pre (h\<lparr>nd_flink := fl, nd_blink := bl\<rparr>) (xs @ (False, s) # ys) (free_at (mm_heapstart h) (xs @ (False, s) # ys))"
    "\<And>p. p \<notin> insert n (other_free (mm_heapstart h) xs s ys) \<Longrightarrow> p \<notin> sents (mm_nodelist h) \<Longrightarrow> fl p = nd_flink h p"
    using heap_pre_add [of h xs s y ys' "other_free (mm_heapstart h) xs s ys" n] D(1,2,9) ys assms(2) by (metis (full_types))
  moreover from this(3) have "node_frame (other_alloc (mm_heapstart h) xs s ys) h (h\<lparr>nd_flink := fl, nd_blink := bl\<rparr>)"
    using other_frame [OF assms(1)] assms(2) by (intro node_frame_links(1)) auto
  ultimately show ?thesis by (intro that)
qed


text \<open>Taking a free neighbour off the list and merging it.\<close>

lemma unlink_other:
  assumes "detached h xs f s ys" "n \<in> other_free (mm_heapstart h) xs s ys"
  obtains fl bl where "mm_unlink h n = h\<lparr>nd_flink := fl, nd_blink := bl\<rparr>"
    "heap_pre (h\<lparr>nd_flink := fl, nd_blink := bl\<rparr>) (xs @ (f, s) # ys) (other_free (mm_heapstart h) xs s ys - {n})"
    "\<And>sz pr. node_frame (other_alloc (mm_heapstart h) xs s ys) h
       (h\<lparr>nd_flink := fl, nd_blink := bl, nd_size := sz, nd_preceding := pr\<rparr>)"
proof -
  obtain fl bl where u: "mm_unlink h n = h\<lparr>nd_flink := fl, nd_blink := bl\<rparr>"
    "heap_pre (h\<lparr>nd_flink := fl, nd_blink := bl\<rparr>) (xs @ (f, s) # ys) (other_free (mm_heapstart h) xs s ys - {n})"
    "\<And>p. p \<notin> other_free (mm_heapstart h) xs s ys \<Longrightarrow> p \<notin> sents (mm_nodelist h) \<Longrightarrow> fl p = nd_flink h p"
    using heap_pre_unlink [OF detachedD(1) [OF assms(1)] assms(2)] by blast
  show ?thesis
    by (rule that [OF u(1,2)], rule node_frame_links(2), rule u(3)) (use other_frame [OF assms(1)] in auto)
qed

lemma detached_join_next:
  assumes d: "detached h xs f s ((False, t) # ys)" and n: "n = mm_heapstart h + span xs"
  obtains fl bl where "mm_unlink h (n + s) = h\<lparr>nd_flink := fl, nd_blink := bl\<rparr>"
    "detached (h\<lparr>nd_flink := fl, nd_blink := bl, nd_size := (nd_size h)(n := s + t),
       nd_preceding := (nd_preceding h)(n + s + t := penc (fst (hd ys)) (s + t))\<rparr>) xs f (s + t) ys"
    "\<And>sz pr. node_frame (other_alloc (mm_heapstart h) xs s ((False, t) # ys)) h
       (h\<lparr>nd_flink := fl, nd_blink := bl, nd_size := sz, nd_preceding := pr\<rparr>)"
proof -
  let ?ys = "(False, t) # ys" and ?a = "mm_heapstart h"
  note D = detachedD [OF d]
  obtain y ys2 where ys2: "ys = y # ys2" using D(8) by (cases ys) auto
  have inF: "n + s \<in> other_free ?a xs s ?ys" using n by (simp add: other_free_def)
  obtain fl bl where u: "mm_unlink h (n + s) = h\<lparr>nd_flink := fl, nd_blink := bl\<rparr>"
    "heap_pre (h\<lparr>nd_flink := fl, nd_blink := bl\<rparr>) (xs @ (f, s) # ?ys) (other_free ?a xs s ?ys - {n + s})"
    "\<And>sz pr. node_frame (other_alloc ?a xs s ?ys) h (h\<lparr>nd_flink := fl, nd_blink := bl, nd_size := sz, nd_preceding := pr\<rparr>)"
    by (rule unlink_other [OF d inF]) (rule that)
  have eq: "other_free ?a xs s ?ys - {n + s} = other_free ?a xs (s + t) ys"
    using D(4-6) n by (auto simp: other_free_def add.assoc chunk_ok_def mm_consts)
  then have "n \<notin> other_free ?a xs (s + t) ys" using D(9) n by blast
  with eq have "detached (h\<lparr>nd_flink := fl, nd_blink := bl, nd_size := (nd_size h)(n := s + t),
       nd_preceding := (nd_preceding h)(n + s + t := penc (fst (hd ys)) (s + t))\<rparr>) xs f (s + t) ys"
    using heap_pre_merge [OF u(2) [unfolded ys2] D(2)] D(2) n ys2 by (simp add: detached_def)
  then show ?thesis using u(1,3) by (intro that)
qed

lemma detached_join_prev:
  assumes d: "detached h (xs @ [(False, t)]) f s ys" and p: "p = mm_heapstart h + span xs"
  obtains fl bl where "mm_unlink h p = h\<lparr>nd_flink := fl, nd_blink := bl\<rparr>"
    "detached (h\<lparr>nd_flink := fl, nd_blink := bl, nd_size := (nd_size h)(p := t + s),
       nd_preceding := (nd_preceding h)(p + t + s := penc (fst (hd ys)) (t + s))\<rparr>) xs False (t + s) ys"
    "\<And>sz pr. node_frame (other_alloc (mm_heapstart h) (xs @ [(False, t)]) s ys) h
       (h\<lparr>nd_flink := fl, nd_blink := bl, nd_size := sz, nd_preceding := pr\<rparr>)"
proof -
  let ?xs = "xs @ [(False, t)]" and ?a = "mm_heapstart h"
  note D = detachedD [OF d]
  obtain y ys2 where ys: "ys = y # ys2" using D(3) by (cases ys) auto
  have inF: "p \<in> other_free ?a ?xs s ys" and ne: "xs \<noteq> []" using D(7) p by (auto simp: other_free_def)
  obtain fl bl where u: "mm_unlink h p = h\<lparr>nd_flink := fl, nd_blink := bl\<rparr>"
    "heap_pre (h\<lparr>nd_flink := fl, nd_blink := bl\<rparr>) (?xs @ (f, s) # ys) (other_free ?a ?xs s ys - {p})"
    "\<And>sz pr. node_frame (other_alloc ?a ?xs s ys) h (h\<lparr>nd_flink := fl, nd_blink := bl, nd_size := sz, nd_preceding := pr\<rparr>)"
    by (rule unlink_other [OF d inF]) (rule that)
  have eq: "other_free ?a ?xs s ys - {p} = other_free ?a xs (t + s) ys"
    using D(4-6) p by (auto simp: other_free_def add.assoc chunk_ok_def mm_consts)
  then have "p \<notin> other_free ?a xs (t + s) ys" by blast
  with eq have "detached (h\<lparr>nd_flink := fl, nd_blink := bl, nd_size := (nd_size h)(p := t + s),
       nd_preceding := (nd_preceding h)(p + t + s := penc (fst (hd ys)) (t + s))\<rparr>) xs False (t + s) ys"
    using heap_pre_merge [of "h\<lparr>nd_flink := fl, nd_blink := bl\<rparr>" xs False t f s y ys2] u(2) ne ys p
    by (simp add: detached_def)
  then show ?thesis using u(1,3) by (intro that)
qed

lemma mm_free_next_ok:
  assumes "detached h xs False s ys" "node = mm_heapstart h + span xs"
  obtains h' where "mm_free_next h node = (node + fst (merge_next s ys), h')"
    "detached h' xs False (fst (merge_next s ys)) (snd (merge_next s ys))"
    "node_frame (other_alloc (mm_heapstart h) xs s ys) h h'"
proof -
  note D = detachedD [OF assms(1)]
  obtain f t ys' where ys: "ys = (f, t) # ys'" using D(3) by (cases ys) auto
  have at: "nd_size h node = s" "nd_size h (node + s) = t" "nd_preceding h (node + s) = penc f s" "s < MM_ALLOC_BIT"
    using heap_pre_at [OF D(1)] heap_pre_at [of h "xs @ [(False, s)]" "(f, t)" ys'] D(1) assms(2) ys
    by (auto simp: add.assoc)
  show ?thesis
  proof (cases f)
    case True
    then show ?thesis
      using that [of h] at ys assms by (auto simp: mm_free_next_def Let_def merge_next_def)
  next
    case False
    then obtain y ys2 where ys2: "ys' = y # ys2" using D(8) ys by (cases ys') auto
    have ysF: "ys = (False, t) # ys'" using ys False by simp
    obtain fl bl where u: "mm_unlink h (node + s) = h\<lparr>nd_flink := fl, nd_blink := bl\<rparr>"
      "detached (h\<lparr>nd_flink := fl, nd_blink := bl, nd_size := (nd_size h)(node := s + t),
         nd_preceding := (nd_preceding h)(node + s + t := penc (fst (hd ys')) (s + t))\<rparr>) xs False (s + t) ys'"
      "\<And>sz pr. node_frame (other_alloc (mm_heapstart h) xs s ys) h
         (h\<lparr>nd_flink := fl, nd_blink := bl, nd_size := sz, nd_preceding := pr\<rparr>)"
      by (rule detached_join_next [OF _ assms(2), where f = False and s = s and t = t and ys = ys', folded ysF])
        (use assms(1) ysF in simp, rule that)
    let ?h' = "h\<lparr>nd_flink := fl, nd_blink := bl, nd_size := (nd_size h)(node := s + t),
        nd_preceding := (nd_preceding h)(node + s + t := penc (fst y) (s + t))\<rparr>"
    have b: "nd_preceding h (node + s + t) = penc (fst y) t" "t < MM_ALLOC_BIT" "s + t < MM_ALLOC_BIT"
      using heap_pre_at [of h "xs @ [(False, s), (f, t)]" y ys2] D(1) assms(2) ys ys2
      by (auto simp: add.assoc heap_pre_def geom_def)
    have "mm_free_next h node = (node + s + t, ?h')"
      using at b u(1) False by (simp add: mm_free_next_def Let_def add.assoc)
    then show ?thesis
      using that [of ?h'] u(2,3) False ys ys2 by (simp add: merge_next_def add.assoc)
  qed
qed

lemma mm_free_prev_ok:
  assumes "detached h xs False s ys" "node = mm_heapstart h + span xs"
  obtains h' where "mm_free_prev h node (node + s) = (mm_heapstart h + span (fst (merge_prev xs s)), h')"
    "detached h' (fst (merge_prev xs s)) False (snd (merge_prev xs s)) ys"
    "node_frame (other_alloc (mm_heapstart h) xs s ys) h h'"
proof -
  note D = detachedD [OF assms(1)]
  obtain y ys2 where ys: "ys = y # ys2" using D(3) by (cases ys) auto
  obtain f t xs' where xs: "xs = xs' @ [(f, t)]" using D(2) by (cases xs rule: rev_cases) auto
  define prev where "prev = mm_heapstart h + span xs'"
  have node: "node = prev + t" using assms(2) xs by (simp add: prev_def)
  have at: "nd_size h node = s" "nd_preceding h node = t" "nd_size h prev = t"
      "nd_preceding h prev = penc f (endsz 0 xs')" "t < MM_ALLOC_BIT" "endsz 0 xs' < MM_ALLOC_BIT" "s < MM_ALLOC_BIT"
    using heap_pre_at [OF D(1)] heap_pre_at [of h "xs'" "(f, t)" "(False, s) # ys"] D(1) assms(2) xs
    by (auto simp: prev_def)
  show ?thesis
  proof (cases f)
    case True
    then show ?thesis
      using that [of h] at xs assms node by (auto simp: mm_free_prev_def Let_def merge_prev_def)
  next
    case False
    have xsF: "xs = xs' @ [(False, t)]" using xs False by simp
    obtain fl bl where u: "mm_unlink h prev = h\<lparr>nd_flink := fl, nd_blink := bl\<rparr>"
      "detached (h\<lparr>nd_flink := fl, nd_blink := bl, nd_size := (nd_size h)(prev := t + s),
         nd_preceding := (nd_preceding h)(prev + t + s := penc (fst (hd ys)) (t + s))\<rparr>) xs' False (t + s) ys"
      "\<And>sz pr. node_frame (other_alloc (mm_heapstart h) xs s ys) h
         (h\<lparr>nd_flink := fl, nd_blink := bl, nd_size := sz, nd_preceding := pr\<rparr>)"
      by (rule detached_join_prev [OF _ prev_def, where f = False and s = s and t = t and ys = ys, folded xsF])
        (use assms(1) xsF in simp, rule that)
    let ?h' = "h\<lparr>nd_flink := fl, nd_blink := bl, nd_size := (nd_size h)(prev := t + s),
        nd_preceding := (nd_preceding h)(prev + t + s := penc (fst y) (t + s))\<rparr>"
    have b: "nd_preceding h (prev + t + s) = penc (fst y) s" "t + s < MM_ALLOC_BIT"
      using heap_pre_at [of h "xs @ [(False, s)]" y ys2] D(1) assms(2) node xs ys
      by (auto simp: add.assoc heap_pre_def geom_def)
    have "mm_free_prev h node (node + s) = (prev, ?h')"
      using at b u(1) False node by (simp add: mm_free_prev_def Let_def)
    then show ?thesis
      using that [of ?h'] u(2,3) False xs ys node by (simp add: merge_prev_def prev_def)
  qed
qed


lemma other_alloc_merge:
  "ys \<noteq> [] \<Longrightarrow> other_alloc a xs (fst (merge_next s ys)) (snd (merge_next s ys)) = other_alloc a xs s ys"
  "xs \<noteq> [] \<Longrightarrow> other_alloc a (fst (merge_prev xs s)) (snd (merge_prev xs s)) ys = other_alloc a xs s ys"
  by (cases ys; auto simp: merge_next_def other_alloc_def add.assoc)
    (cases xs rule: rev_cases; auto simp: merge_prev_def other_alloc_def add.assoc)

lemma free_chunk_eq:
  "free_chunk xs s ys = fst (merge_prev xs (fst (merge_next s ys))) @
     (False, snd (merge_prev xs (fst (merge_next s ys)))) # snd (merge_next s ys)"
  by (simp add: free_chunk_def case_prod_beta Let_def)

lemma coalesced_free_chunk:
  assumes "coalesced (xs @ (True, s) # ys)" "xs \<noteq> []" "ys \<noteq> []"
  shows "coalesced (free_chunk xs s ys)"
proof -
  obtain y ys' where ys: "ys = y # ys'" using assms(3) by (cases ys) auto
  obtain x xs' where xs: "xs = xs' @ [x]" using assms(2) by (cases xs rule: rev_cases) auto
  have "coalesced ((False, t) # snd (merge_next s ys))" for t
    using assms(1) ys by (cases ys') (auto simp: merge_next_def)
  moreover have "coalesced (fst (merge_prev xs t))"
    "fst (merge_prev xs t) = [] \<or> fst (last (fst (merge_prev xs t)))" for t
    using assms(1) xs by (auto simp: merge_prev_def)
  ultimately show ?thesis
    unfolding free_chunk_eq coalesced_simps by blast
qed

theorem mm_free_node_ok:
  assumes "heap_ok h (xs @ (True, s) # ys)" "xs \<noteq> []" "ys \<noteq> []"
    and mem: "mem = mm_heapstart h + span xs + SIZEOF_MM_ALLOCNODE"
  obtains h' where "mm_free_node h mem = Some h'" "heap_ok h' (free_chunk xs s ys)"
    "node_frame (other_alloc (mm_heapstart h) xs s ys) h h'"
proof -
  let ?a = "mm_heapstart h" and ?s1 = "fst (merge_next s ys)" and ?ys1 = "snd (merge_next s ys)"
  let ?xs1 = "fst (merge_prev xs ?s1)" and ?s2 = "snd (merge_prev xs ?s1)"
  define node where "node = ?a + span xs"
  define h1 where "h1 = h\<lparr>nd_preceding := (nd_preceding h)(node := penc False (endsz 0 xs))\<rparr>"
  note d = heap_ok_detach [OF assms(1-3)]
  have d1: "detached h1 xs False s ys" using detached_mark [OF d, of False] by (simp add: h1_def node_def)
  have a1: "mm_heapstart h1 = ?a" by (simp add: h1_def)
  obtain h2 where h2: "mm_free_next h1 node = (node + ?s1, h2)" "detached h2 xs False ?s1 ?ys1"
    "node_frame (other_alloc ?a xs s ys) h1 h2"
    using mm_free_next_ok [OF d1, of node] by (auto simp: a1 node_def)
  have a2: "mm_heapstart h2 = ?a" using node_frameD [OF h2(3)] a1 by simp
  obtain h3 where h3: "mm_free_prev h2 node (node + ?s1) = (?a + span ?xs1, h3)" "detached h3 ?xs1 False ?s2 ?ys1"
    "node_frame (other_alloc ?a xs s ys) h2 h3"
    using mm_free_prev_ok [OF h2(2), of node] other_alloc_merge(1) [OF assms(3)] by (auto simp: a2 node_def)
  have a3: "mm_heapstart h3 = ?a" using node_frameD [OF h3(3)] a2 by simp
  have al: "other_alloc ?a ?xs1 ?s2 ?ys1 = other_alloc ?a xs s ys"
    using assms(2,3) by (simp add: other_alloc_merge)
  obtain h4 where h4: "mm_addfreechunk h3 (?a + span ?xs1) = Some h4"
    "heap_pre h4 (free_chunk xs s ys) (free_at ?a (free_chunk xs s ys))"
    "node_frame (other_alloc ?a xs s ys) h3 h4"
    by (rule detached_attach [OF h3(2) refl, unfolded a3 al free_chunk_eq [symmetric]]) (rule that)
  have fr: "node_frame (other_alloc ?a xs s ys) h h4"
    by (rule node_frame_trans [OF node_frame_trans [OF node_frame_trans [OF _ h2(3)] h3(3)] h4(3)]) (simp add: h1_def)
  have "mm_free_node h mem = Some h4"
    using h2(1) h3(1) h4(1) heap_pre_at [OF detachedD(1) [OF d]]
    by (simp add: mm_free_node_def Let_def mem h1_def node_def)
  moreover have "heap_ok h4 (free_chunk xs s ys)"
    using h4(2) coalesced_free_chunk assms(1-3) node_frameD [OF fr] by (simp add: heap_ok_def)
  ultimately show ?thesis using fr by (rule that)
qed


section \<open>Taking a chunk\<close>

text \<open>The chunks after \<open>mm_malloc\<close> took \<open>a\<close> bytes of the free chunk of size \<open>s\<close> between \<open>xs\<close> and \<open>ys\<close>.\<close>

definition take_chunk :: "chunk list \<Rightarrow> nat \<Rightarrow> nat \<Rightarrow> chunk list \<Rightarrow> chunk list" where
  "take_chunk xs a s ys = xs @ (if a = s then [(True, s)] else [(True, a), (False, s - a)]) @ ys"

lemma chunk_ok_diff:
  "chunk_ok (f, s) \<Longrightarrow> chunk_ok (g, a) \<Longrightarrow> a < s \<Longrightarrow> chunk_ok (e, s - a) \<and> SIZEOF_MM_FREENODE \<le> s - a"
  by (auto simp: chunk_ok_def mm_consts elim!: dvdE)

lemma chunk_ok_flag: "chunk_ok (f, s) \<Longrightarrow> chunk_ok (g, s)"
  by (simp add: chunk_ok_def)

lemma heap_ok_unlink:
  assumes "heap_ok h (xs @ (False, s) # ys)" "xs \<noteq> []" "ys \<noteq> []" "n = mm_heapstart h + span xs"
  obtains fl bl where "mm_unlink h n = h\<lparr>nd_flink := fl, nd_blink := bl\<rparr>"
    "detached (h\<lparr>nd_flink := fl, nd_blink := bl\<rparr>) xs False s ys"
    "node_frame (other_alloc (mm_heapstart h) xs s ys) h (h\<lparr>nd_flink := fl, nd_blink := bl\<rparr>)"
proof -
  let ?cs = "xs @ (False, s) # ys" and ?a = "mm_heapstart h"
  have pre: "heap_pre h ?cs (free_at ?a ?cs)" using assms(1) by (simp add: heap_ok_def)
  have inF: "n \<in> free_at ?a ?cs" using assms(4) by simp
  obtain fl bl where u: "mm_unlink h n = h\<lparr>nd_flink := fl, nd_blink := bl\<rparr>"
    "heap_pre (h\<lparr>nd_flink := fl, nd_blink := bl\<rparr>) ?cs (free_at ?a ?cs - {n})"
    "\<And>p. p \<notin> free_at ?a ?cs \<Longrightarrow> p \<notin> sents (mm_nodelist h) \<Longrightarrow> fl p = nd_flink h p"
    by (rule heap_pre_unlink [OF pre inF]) (rule that)
  have "wf_chunks ?cs" using pre by (simp add: heap_pre_def geom_def)
  then have "chunk_ok (False, s)" "solid ?cs" using wf_chunks_mid wf_chunks_solid assms(2,3) by blast+
  then have "free_at ?a ?cs - {n} = other_free ?a xs s ys"
    using assms(4) by (auto simp: other_free_def add.assoc chunk_ok_def mm_consts)
  then have "detached (h\<lparr>nd_flink := fl, nd_blink := bl\<rparr>) xs False s ys"
    using u(2) assms(2,3) by (simp add: detached_def)
  moreover have "fl p = nd_flink h p" if "p \<in> other_alloc ?a xs s ys" for p
  proof -
    have "p \<in> alloc_at ?a ?cs" using that by (auto simp: other_alloc_def add.assoc)
    then show ?thesis
      using u(3) alloc_not_free [OF heap_pre_solid [OF pre]] heap_pre_alloc_not_sent [OF pre] by blast
  qed
  ultimately show ?thesis
    using u(1) by (intro that node_frame_links(1))
qed

lemma heap_ok_take_coalesced:
  assumes "heap_ok h (xs @ (False, s) # ys)" "xs \<noteq> []" "ys \<noteq> []"
  shows "coalesced (take_chunk xs a s ys)" "fst (hd ys)" "fst (last xs)"
  using assms by (auto simp: heap_ok_def take_chunk_def) (cases ys; auto)+

text \<open>Cutting the chunk in two and putting the second half on the list.\<close>

lemma detached_split:
  fixes h :: mm_heap_s and xs ys :: "chunk list" and a s :: nat
  defines "n \<equiv> mm_heapstart h + span xs"
  defines "h1 \<equiv> h\<lparr>nd_size := (nd_size h)(n + a := s - a, n := a),
      nd_preceding := (nd_preceding h)(n + a := a, n + s := penc (fst (hd ys)) (s - a))\<rparr>"
  assumes d: "detached h xs f s ys" and a: "chunk_ok (f, a)" "a < s"
  obtains h' where "mm_addfreechunk h1 (n + a) = Some h'"
    "heap_pre h' (xs @ (f, a) # (False, s - a) # ys) (insert (n + a) (other_free (mm_heapstart h) xs s ys))"
    "node_frame (other_alloc (mm_heapstart h) xs s ys) h h'"
proof -
  note D = detachedD [OF d] and at = heap_pre_at [OF detachedD(1) [OF d]]
  let ?F = "other_free (mm_heapstart h) xs s ys"
  obtain y ys' where ys: "ys = y # ys'" using D(3) by (cases ys) auto
  have r: "chunk_ok (False, s - a)" "0 < a"
    using chunk_ok_diff [OF D(6) a] a by (auto simp: chunk_ok_def mm_consts)
  have na: "n + a \<notin> ?F" using D(4,5) a(2) by (auto simp: other_free_def n_def)
  have "pr = pr(n := penc f (endsz 0 xs))" if "pr n = penc f (endsz 0 xs)" for pr
    using that by auto
  then have "h1 = h\<lparr>nd_size := (nd_size h)(n + a := s - a, n := a), nd_preceding :=
      (nd_preceding h)(n + a := penc False a, n := penc f (endsz 0 xs), n + a + (s - a) := penc (fst y) (s - a))\<rparr>"
    using at(2) a(2) r(2) ys by (auto simp: h1_def n_def fun_eq_iff)
  then have pre: "heap_pre h1 (xs @ (f, a) # (False, s - a) # y # ys') ?F"
    using heap_pre_split [of h xs f a "s - a" y ys' ?F f False] D(1,2,9) na a r ys by (simp add: n_def)
  obtain fl bl where ad: "mm_addfreechunk h1 (n + a) = Some (h1\<lparr>nd_flink := fl, nd_blink := bl\<rparr>)"
    "heap_pre (h1\<lparr>nd_flink := fl, nd_blink := bl\<rparr>) ((xs @ [(f, a)]) @ (False, s - a) # y # ys') (insert (n + a) ?F)"
    "\<And>p. p \<notin> insert (n + a) ?F \<Longrightarrow> p \<notin> sents (mm_nodelist h1) \<Longrightarrow> fl p = nd_flink h1 p"
    by (rule heap_pre_add [of h1 "xs @ [(f, a)]" "s - a" y ys' ?F "n + a"])
      (use pre na in \<open>auto simp: n_def h1_def intro: that\<close>)
  have nal: "n + a \<notin> other_alloc (mm_heapstart h) xs s ys"
    using alloc_at_range D(4,5) a(2) r(2) by (fastforce simp: other_alloc_def n_def)
  have "fl p = nd_flink h p" if "p \<in> other_alloc (mm_heapstart h) xs s ys" for p
    using ad(3) [of p] other_frame [OF d that] nal that by (auto simp: h1_def)
  then have "node_frame (other_alloc (mm_heapstart h) xs s ys) h (h1\<lparr>nd_flink := fl, nd_blink := bl\<rparr>)"
    unfolding h1_def by (rule node_frame_links(3))
  with ad ys show ?thesis by (intro that) auto
qed

lemma malloc_take_split:
  assumes u: "mm_unlink h node = h1" and d: "detached h1 xs False s ys" and ne: "xs \<noteq> []" "ys \<noteq> []"
    and node: "node = mm_heapstart h1 + span xs" and a: "chunk_ok (True, a)" "a < s" and co: "coalesced (take_chunk xs a s ys)"
  obtains h' where "mm_malloc_take h a node = Some (node + SIZEOF_MM_ALLOCNODE, h')"
    "heap_ok h' (take_chunk xs a s ys)" "node_frame (other_alloc (mm_heapstart h1) xs s ys) h1 h'"
proof -
  let ?b = "mm_heapstart h1"
  note D = detachedD [OF d] and at = heap_pre_at [OF detachedD(1) [OF d]]
  obtain y ys' where ys: "ys = y # ys'" using ne(2) by (cases ys) auto
  obtain h2 where h2: "mm_addfreechunk (h1\<lparr>nd_size := (nd_size h1)(node + a := s - a, node := a),
      nd_preceding := (nd_preceding h1)(node + a := a, node + s := penc (fst (hd ys)) (s - a))\<rparr>) (node + a) = Some h2"
    "heap_pre h2 (xs @ (False, a) # (False, s - a) # ys) (insert (node + a) (other_free ?b xs s ys))"
    "node_frame (other_alloc ?b xs s ys) h1 h2"
    by (rule detached_split [OF d chunk_ok_flag [OF a(1)] a(2), folded node]) (rule that)
  have a2: "mm_heapstart h2 = ?b" using node_frameD [OF h2(3)] by simp
  let ?h = "h2\<lparr>nd_preceding := (nd_preceding h2)(node := penc True (endsz 0 xs))\<rparr>"
  have "heap_pre ?h (xs @ (True, a) # (False, s - a) # ys) (insert (node + a) (other_free ?b xs s ys))"
    using heap_pre_mark [OF h2(2) ne(1), of True] by (simp add: a2 node)
  moreover have "insert (node + a) (other_free ?b xs s ys) = free_at ?b (take_chunk xs a s ys)"
    using a(2) by (auto simp: take_chunk_def other_free_def node add.assoc)
  ultimately have "heap_ok ?h (take_chunk xs a s ys)"
    using co a(2) by (simp add: heap_ok_def a2 take_chunk_def)
  moreover have "nd_preceding h1 (node + s) = penc (fst y) s"
    using heap_pre_at(2) [of h1 "xs @ [(False, s)]" y ys'] D(1) ys by (simp add: node add.assoc)
  then have "mm_malloc_take h a node = Some (node + SIZEOF_MM_ALLOCNODE, ?h)"
    using u h2(1) at a(2) ys chunk_ok_diff [OF D(6) a] heap_pre_at [OF h2(2)]
    by (simp add: mm_malloc_take_def Let_def a2 node)
  moreover have "node_frame (other_alloc ?b xs s ys) h1 ?h"
    by (rule node_frame_trans [OF h2(3)]) simp
  ultimately show ?thesis by (intro that)
qed

theorem mm_malloc_take_ok:
  assumes "heap_ok h (xs @ (False, s) # ys)" "xs \<noteq> []" "ys \<noteq> []"
    and node: "node = mm_heapstart h + span xs" and a: "chunk_ok (True, a)" "a \<le> s"
  obtains h' where "mm_malloc_take h a node = Some (node + SIZEOF_MM_ALLOCNODE, h')"
    "heap_ok h' (take_chunk xs a s ys)" "node_frame (other_alloc (mm_heapstart h) xs s ys) h h'"
proof -
  let ?b = "mm_heapstart h"
  obtain fl bl where u: "mm_unlink h node = h\<lparr>nd_flink := fl, nd_blink := bl\<rparr>"
    "detached (h\<lparr>nd_flink := fl, nd_blink := bl\<rparr>) xs False s ys"
    "node_frame (other_alloc ?b xs s ys) h (h\<lparr>nd_flink := fl, nd_blink := bl\<rparr>)"
    by (rule heap_ok_unlink [OF assms(1-4)]) (rule that)
  define h1 where "h1 = h\<lparr>nd_flink := fl, nd_blink := bl\<rparr>"
  note u = u [folded h1_def]
  note at = heap_pre_at [OF detachedD(1) [OF u(2)]]
  have a1: "mm_heapstart h1 = ?b" by (simp add: h1_def)
  have co: "coalesced (take_chunk xs a s ys)" using heap_ok_take_coalesced [OF assms(1-3)] by simp
  show ?thesis
  proof (cases "a = s")
    case True
    let ?h = "h1\<lparr>nd_preceding := (nd_preceding h1)(node := penc True (endsz 0 xs))\<rparr>"
    have "detached ?h xs True s ys" using detached_mark [OF u(2), of True] by (simp add: a1 node)
    then have "heap_ok ?h (take_chunk xs a s ys)"
      using True co by (simp add: heap_ok_def detached_def other_free_def take_chunk_def a1 add.assoc)
    moreover have "mm_malloc_take h a node = Some (node + SIZEOF_MM_ALLOCNODE, ?h)"
      using u(1) True at by (simp add: mm_malloc_take_def Let_def mm_consts a1 node)
    moreover have "node_frame (other_alloc ?b xs s ys) h ?h"
      by (rule node_frame_trans [OF u(3)]) simp
    ultimately show ?thesis by (intro that)
  next
    case False
    then have lt: "a < s" using a by simp
    have n1: "node = mm_heapstart h1 + span xs" using node a1 by simp
    obtain h' where "mm_malloc_take h a node = Some (node + SIZEOF_MM_ALLOCNODE, h')"
      "heap_ok h' (take_chunk xs a s ys)" "node_frame (other_alloc ?b xs s ys) h1 h'"
      by (rule malloc_take_split [OF u(1,2) assms(2,3) n1 a(1) lt co, unfolded a1]) (rule that)
    then show ?thesis using that node_frame_trans [OF u(3)] by blast
  qed
qed

end
