(* ===== verification/Mm_Malloc.thy ===== *)
theory Mm_Malloc
  imports Mm_Alloc
begin

unbundle bit_operations_syntax

text \<open>
  \<open>mm_malloc\<close> and \<open>mm_free\<close> with the semaphore of the heap and the list of delayed
  releases. \<open>blocks\<close> are the blocks the callers hold; \<open>heap_inv heap cs ds\<close> is the invariant
  for the chunks \<open>cs\<close> and the delayed blocks \<open>ds\<close>.
\<close>

section \<open>The blocks of the callers\<close>

definition blocks :: "ptr \<Rightarrow> chunk list \<Rightarrow> (ptr \<times> nat) set" where
  "blocks a cs = {(m, s). \<exists>p. m = p + SIZEOF_MM_ALLOCNODE \<and> (p, True, s) \<in> set (locs a cs) \<and>
                          p \<noteq> a \<and> p + s \<noteq> a + span cs}"

lemma locs_split: "(p, c) \<in> set (locs a cs) \<Longrightarrow> \<exists>xs ys. cs = xs @ c # ys \<and> p = a + span xs"
proof (induction cs arbitrary: a)
  case (Cons d cs)
  show ?case
  proof (cases "(p, c) = (a, d)")
    case True
    then have "d # cs = [] @ c # cs" "p = a + span []" by auto
    then show ?thesis by blast
  next
    case False
    then obtain xs ys where "cs = xs @ c # ys" "p = a + snd d + span xs"
      using Cons.IH [of "a + snd d"] Cons.prems by auto
    then have "d # cs = (d # xs) @ c # ys" "p = a + span (d # xs)" by auto
    then show ?thesis by blast
  qed
qed simp

lemma blocks_split:
  assumes "(m, s) \<in> blocks a cs"
  obtains xs ys where "cs = xs @ (True, s) # ys" "xs \<noteq> []" "ys \<noteq> []" "m = a + span xs + SIZEOF_MM_ALLOCNODE"
proof -
  obtain p where p: "m = p + SIZEOF_MM_ALLOCNODE" "(p, True, s) \<in> set (locs a cs)" "p \<noteq> a" "p + s \<noteq> a + span cs"
    using assms by (auto simp: blocks_def)
  obtain xs ys where cs: "cs = xs @ (True, s) # ys" "p = a + span xs"
    using locs_split [OF p(2)] by auto
  moreover from this p have "xs \<noteq> []" "ys \<noteq> []" by auto
  ultimately show ?thesis using p(1) that [of xs ys] by simp
qed

lemma blocks_splitI:
  assumes "solid (xs @ (True, s) # ys)" "xs \<noteq> []" "ys \<noteq> []"
  shows "(a + span xs + SIZEOF_MM_ALLOCNODE, s) \<in> blocks a (xs @ (True, s) # ys)"
  using assms by (cases xs; cases ys) (auto simp: blocks_def mm_consts)

text \<open>Blocks do not overlap, headers included.\<close>

lemma locs_disjoint:
  assumes "solid cs" "(p, c) \<in> set (locs a cs)" "(q, d) \<in> set (locs a cs)" "(p, c) \<noteq> (q, d)"
  shows "p + snd c \<le> q \<or> q + snd d \<le> p"
  using assms
proof (induction cs arbitrary: a)
  case (Cons e cs)
  then show ?case
    using locs_range [of cs p c "a + snd e"] locs_range [of cs q d "a + snd e"] by auto
qed simp

lemma locs_functional:
  assumes "solid cs" "(p, c) \<in> set (locs a cs)" "(p, d) \<in> set (locs a cs)"
  shows "c = d"
  using locs_disjoint [OF assms] locs_range [OF assms(1,2)] locs_range [OF assms(1,3)] by (force simp: mm_consts)

lemma blocks_disjoint:
  assumes "solid cs" "(m, s) \<in> blocks a cs" "(m', s') \<in> blocks a cs" "m \<noteq> m'"
  shows "m + s \<le> m' \<or> m' + s' \<le> m"
  using assms locs_disjoint [of cs _ "(True, s)" a _ "(True, s')"] by (fastforce simp: blocks_def)

lemma blocks_functional: "solid cs \<Longrightarrow> (m, s) \<in> blocks a cs \<Longrightarrow> (m, s') \<in> blocks a cs \<Longrightarrow> s = s'"
  by (auto simp: blocks_def dest: locs_functional)

lemma blocks_range:
  assumes "solid cs" "(m, s) \<in> blocks a cs"
  shows "a + SIZEOF_MM_ALLOCNODE < m" "m - SIZEOF_MM_ALLOCNODE + s < a + span cs" "SIZEOF_MM_ALLOCNODE \<le> s"
  using assms locs_range [of cs _ "(True, s)" a] by (fastforce simp: blocks_def)+

lemma blocks_alloc_at: "(m, s) \<in> blocks a cs \<Longrightarrow> m - SIZEOF_MM_ALLOCNODE \<in> alloc_at a cs"
  by (auto simp: blocks_def alloc_at_def)

text \<open>How releasing and taking a chunk change the blocks.\<close>

definition alloc_locs :: "ptr \<Rightarrow> chunk list \<Rightarrow> (ptr \<times> nat) set" where
  "alloc_locs a cs = {(p, s). (p, True, s) \<in> set (locs a cs)}"

lemma alloc_locs_simps [simp]:
  "alloc_locs a [] = {}"
  "alloc_locs a (c # cs) = (if fst c then {(a, snd c)} else {}) \<union> alloc_locs (a + snd c) cs"
  "alloc_locs a (xs @ ys) = alloc_locs a xs \<union> alloc_locs (a + span xs) ys"
  by (auto simp: alloc_locs_def prod_eq_iff)

lemma blocks_alloc_locs:
  "blocks a cs = {(p + SIZEOF_MM_ALLOCNODE, s) | p s. (p, s) \<in> alloc_locs a cs \<and> p \<noteq> a \<and> p + s \<noteq> a + span cs}"
  by (auto simp: blocks_def alloc_locs_def)

lemma alloc_locs_range: "solid cs \<Longrightarrow> (p, s) \<in> alloc_locs a cs \<Longrightarrow> a \<le> p \<and> p + s \<le> a + span cs \<and> 0 < s"
  using locs_range [of cs p "(True, s)" a] by (auto simp: alloc_locs_def mm_consts)

lemma alloc_locs_free_chunk:
  assumes "xs \<noteq> []" "ys \<noteq> []"
  shows "alloc_locs a (free_chunk xs s ys) = alloc_locs a xs \<union> alloc_locs (a + span xs + s) ys"
    "span (free_chunk xs s ys) = span xs + s + span ys"
  using assms by (cases xs rule: rev_cases; cases ys; simp add: free_chunk_eq merge_prev_def merge_next_def add.assoc)+

lemma blocks_free_chunk:
  assumes "solid (xs @ (True, s) # ys)" "xs \<noteq> []" "ys \<noteq> []"
  shows "blocks a (free_chunk xs s ys) = blocks a (xs @ (True, s) # ys) - {(a + span xs + SIZEOF_MM_ALLOCNODE, s)}"
proof -
  have "(a + span xs, s) \<notin> alloc_locs a xs" "(a + span xs, s) \<notin> alloc_locs (a + span xs + s) ys"
    using assms alloc_locs_range [of xs "a + span xs" s a] alloc_locs_range [of ys "a + span xs" s "a + span xs + s"]
    by (auto simp: mm_consts)
  then show ?thesis
    using assms by (auto simp: blocks_alloc_locs alloc_locs_free_chunk add.assoc)
qed

lemma blocks_take_chunk:
  assumes "solid (xs @ (False, s) # ys)" "xs \<noteq> []" "ys \<noteq> []" "0 < b" "b \<le> s"
  shows "blocks a (take_chunk xs b s ys) = insert (a + span xs + SIZEOF_MM_ALLOCNODE, b) (blocks a (xs @ (False, s) # ys))"
proof -
  have "0 < span xs" "0 < span ys"
    using assms by (cases xs; cases ys; auto simp: mm_consts)+
  moreover have "span (take_chunk xs b s ys) = span xs + s + span ys" using assms by (simp add: take_chunk_def)
  ultimately show ?thesis
    using assms by (auto simp: blocks_alloc_locs take_chunk_def add.assoc simp del: sum_list_eq_0_iff)
qed


section \<open>The semaphore\<close>

text \<open>The caller is a task and either holds the semaphore already or finds it free.\<close>

definition sem_avail :: "mm_env \<Rightarrow> mm_heap_s \<Rightarrow> bool" where
  "sem_avail env h \<longleftrightarrow> 0 \<le> env_pid env \<and>
     (mm_holder h = env_pid env \<and> 1 \<le> mm_counts_held h \<or>
      mm_holder h = NO_HOLDER \<and> mm_counts_held h = 0 \<and> 0 < mm_semcount h \<and> mm_semcount h \<le> SEM_VALUE_MAX)"

lemma sem_avail_take:
  assumes "sem_avail env h"
  obtains c p n where
    "mm_takesemaphore env h = Some (h\<lparr>mm_semcount := c, mm_holder := p, mm_counts_held := n\<rparr>)"
    "mm_trysemaphore env h = (0, h\<lparr>mm_semcount := c, mm_holder := p, mm_counts_held := n\<rparr>)"
    "\<And>h'. mm_semcount h' = c \<Longrightarrow> mm_holder h' = p \<Longrightarrow> mm_counts_held h' = n \<Longrightarrow>
       mm_givesemaphore h' = h'\<lparr>mm_semcount := mm_semcount h, mm_holder := mm_holder h, mm_counts_held := mm_counts_held h\<rparr>"
proof (cases "mm_holder h = env_pid env")
  case True
  then show ?thesis
    using assms
    by (intro that [where c = "mm_semcount h" and p = "mm_holder h" and n = "mm_counts_held h + 1"])
      (auto simp: sem_avail_def mm_takesemaphore_def mm_trysemaphore_def mm_givesemaphore_def OK_def
        NO_HOLDER_def Let_def)
next
  case False
  then have h: "mm_holder h = NO_HOLDER" "mm_counts_held h = 0" "0 < mm_semcount h" "mm_semcount h \<le> SEM_VALUE_MAX"
      "0 \<le> env_pid env"
    using assms by (auto simp: sem_avail_def)
  then show ?thesis
    using False
    by (intro that [where c = "mm_semcount h - 1" and p = "env_pid env" and n = 1])
      (auto simp: mm_takesemaphore_def mm_trysemaphore_def mm_givesemaphore_def OK_def count_wait_def
        count_trywait_def count_post_def Let_def)
qed

lemma heap_ok_other [simp]:
  "heap_ok (h\<lparr>mm_semcount := c\<rparr>) cs = heap_ok h cs" "heap_ok (h\<lparr>mm_holder := p\<rparr>) cs = heap_ok h cs"
  "heap_ok (h\<lparr>mm_counts_held := n\<rparr>) cs = heap_ok h cs" "heap_ok (h\<lparr>mm_delaylist := d\<rparr>) cs = heap_ok h cs"
  "heap_ok (h\<lparr>mm_bytes := m\<rparr>) cs = heap_ok h cs" "heap_ok (h\<lparr>mm_heapsize := k\<rparr>) cs = heap_ok h cs"
  by (simp_all add: heap_ok_def heap_pre_def geom_def)

lemma give_simps [simp]:
  "heap_ok (mm_givesemaphore h) cs = heap_ok h cs" "mm_delaylist (mm_givesemaphore h) = mm_delaylist h"
  "mm_heapstart (mm_givesemaphore h) = mm_heapstart h" "nd_flink (mm_givesemaphore h) = nd_flink h"
  by (simp_all add: mm_givesemaphore_def)

lemma sem_avail_cong:
  "mm_semcount h' = mm_semcount h \<Longrightarrow> mm_holder h' = mm_holder h \<Longrightarrow> mm_counts_held h' = mm_counts_held h \<Longrightarrow>
     sem_avail env h' = sem_avail env h"
  by (simp add: sem_avail_def)

lemma sem_avail_other [simp]:
  "sem_avail env (h\<lparr>mm_delaylist := d\<rparr>) = sem_avail env h" "sem_avail env (h\<lparr>mm_bytes := m\<rparr>) = sem_avail env h"
  by (simp_all add: sem_avail_def)

text \<open>An operation that only changes nodes, between taking and giving the semaphore.\<close>

lemma node_frame_locked:
  assumes "node_frame A (h\<lparr>mm_semcount := c, mm_holder := p, mm_counts_held := n\<rparr>) h'"
  shows "node_frame A h (h'\<lparr>mm_semcount := mm_semcount h, mm_holder := mm_holder h, mm_counts_held := mm_counts_held h\<rparr>)"
  using assms by (cases h; cases h') (auto simp: node_frame_def)

section \<open>Delayed releases\<close>

text \<open>The blocks \<open>ds\<close> wait on a chain of delayed releases that starts at \<open>d\<close>.\<close>

definition delay_chain :: "mm_heap_s \<Rightarrow> chunk list \<Rightarrow> ptr \<Rightarrow> ptr list \<Rightarrow> bool" where
  "delay_chain h cs d ds \<longleftrightarrow> lseg (\<lambda>m. nd_flink h (m - SIZEOF_MM_ALLOCNODE)) d ds NULL \<and>
     (\<forall>m \<in> set ds. \<exists>s. (m, s) \<in> blocks (mm_heapstart h) cs)"

definition heap_inv :: "mm_heap_s \<Rightarrow> chunk list \<Rightarrow> ptr list \<Rightarrow> bool" where
  "heap_inv h cs ds \<longleftrightarrow> heap_ok h cs \<and> delay_chain h cs (mm_delaylist h) ds"

lemma heap_ok_solid: "heap_ok h cs \<Longrightarrow> solid cs"
  using heap_pre_solid by (auto simp: heap_ok_def)

lemma other_alloc_eq:
  assumes "solid (xs @ (f, s) # ys)"
  shows "other_alloc a xs s ys = alloc_at a (xs @ (f, s) # ys) - (if f then {a + span xs} else {})"
  using assms alloc_at_range [of xs "a + span xs" a] alloc_at_range [of ys "a + span xs" "a + span xs + s"]
  by (auto simp: other_alloc_def add.assoc mm_consts)

text \<open>Releasing a block at once.\<close>

lemma mm_free_task:
  assumes ok: "heap_ok h cs" and bl: "(m, s) \<in> blocks (mm_heapstart h) cs"
    and env: "sem_avail env h" "\<not> env_isr env"
  obtains h' cs' where "mm_free env h m = Some h'" "heap_ok h' cs'"
    "blocks (mm_heapstart h) cs' = blocks (mm_heapstart h) cs - {(m, s)}"
    "\<exists>xs ys. cs = xs @ (True, s) # ys \<and> cs' = free_chunk xs s ys \<and> xs \<noteq> [] \<and> ys \<noteq> [] \<and>
       m = mm_heapstart h + span xs + SIZEOF_MM_ALLOCNODE"
    "node_frame (alloc_at (mm_heapstart h) cs - {m - SIZEOF_MM_ALLOCNODE}) h h'"
proof -
  obtain xs ys where cs: "cs = xs @ (True, s) # ys" "xs \<noteq> []" "ys \<noteq> []" "m = mm_heapstart h + span xs + SIZEOF_MM_ALLOCNODE"
    using blocks_split [OF bl] by metis
  obtain c p n where sem: "mm_trysemaphore env h = (0, h\<lparr>mm_semcount := c, mm_holder := p, mm_counts_held := n\<rparr>)"
    "\<And>h'. mm_semcount h' = c \<Longrightarrow> mm_holder h' = p \<Longrightarrow> mm_counts_held h' = n \<Longrightarrow>
       mm_givesemaphore h' = h'\<lparr>mm_semcount := mm_semcount h, mm_holder := mm_holder h, mm_counts_held := mm_counts_held h\<rparr>"
    by (rule sem_avail_take [OF env(1)]) (rule that)
  let ?l = "h\<lparr>mm_semcount := c, mm_holder := p, mm_counts_held := n\<rparr>"
  have so: "solid cs" using ok by (rule heap_ok_solid)
  obtain h1 where h1: "mm_free_node ?l m = Some h1" "heap_ok h1 (free_chunk xs s ys)"
    "node_frame (other_alloc (mm_heapstart h) xs s ys) ?l h1"
    using mm_free_node_ok [of ?l xs s ys m] ok cs by auto
  note fr = node_frameD [OF h1(3)]
  let ?h = "h1\<lparr>mm_semcount := mm_semcount h, mm_holder := mm_holder h, mm_counts_held := mm_counts_held h\<rparr>"
  have "mm_givesemaphore h1 = ?h" using fr by (intro sem(2)) auto
  moreover have "m \<noteq> NULL" using cs by (simp add: mm_consts)
  ultimately have "mm_free env h m = Some ?h"
    using sem(1) h1(1) env(2) by (simp add: mm_free_def)
  moreover have "node_frame (alloc_at (mm_heapstart h) cs - {m - SIZEOF_MM_ALLOCNODE}) h ?h"
    using node_frame_locked [OF h1(3)] other_alloc_eq [OF so [unfolded cs(1)], of "mm_heapstart h"] cs by simp
  moreover have "blocks (mm_heapstart h) (free_chunk xs s ys) = blocks (mm_heapstart h) cs - {(m, s)}"
    using blocks_free_chunk [OF so [unfolded cs(1)] cs(2,3)] cs by simp
  ultimately show ?thesis
    using that [of ?h "free_chunk xs s ys"] h1(2) cs by auto
qed


lemma delay_chain_frame:
  assumes "delay_chain h cs d ds" "node_frame A h h'"
    and "\<And>m s. m \<in> set ds \<Longrightarrow> (m, s) \<in> blocks (mm_heapstart h) cs \<Longrightarrow>
           m - SIZEOF_MM_ALLOCNODE \<in> A \<and> (\<exists>s. (m, s) \<in> blocks (mm_heapstart h) cs')"
  shows "delay_chain h' cs' d ds"
proof -
  have "nd_flink h' (m - SIZEOF_MM_ALLOCNODE) = nd_flink h (m - SIZEOF_MM_ALLOCNODE)" if "m \<in> set ds" for m
    using assms that node_frameD(10) [OF assms(2)] by (auto simp: delay_chain_def)
  then have "lseg (\<lambda>m. nd_flink h' (m - SIZEOF_MM_ALLOCNODE)) d ds NULL"
    using assms(1) lseg_cong_on [of ds "\<lambda>m. nd_flink h' (m - SIZEOF_MM_ALLOCNODE)"] by (simp add: delay_chain_def)
  then show ?thesis
    using assms node_frameD [OF assms(2)] by (fastforce simp: delay_chain_def)
qed

lemma blocks_mem_inj:
  "(m, s) \<in> blocks a cs \<Longrightarrow> (m', s') \<in> blocks a cs \<Longrightarrow> m - SIZEOF_MM_ALLOCNODE = m' - SIZEOF_MM_ALLOCNODE \<Longrightarrow> m = m'"
  by (auto simp: blocks_def)

text \<open>Releasing a block from an interrupt handler puts it on the chain.\<close>

lemma mm_free_delay:
  assumes inv: "heap_inv h cs ds" and bl: "(m, s) \<in> blocks (mm_heapstart h) cs" and m: "m \<notin> set ds"
  shows "heap_inv (mm_add_delaylist h m) cs (m # ds)"
    "mm_heapstart (mm_add_delaylist h m) = mm_heapstart h"
proof -
  let ?p = "m - SIZEOF_MM_ALLOCNODE" and ?a = "mm_heapstart h"
  have ok: "heap_pre h cs (free_at ?a cs)" "coalesced cs" and ch: "delay_chain h cs (mm_delaylist h) ds"
    using inv by (auto simp: heap_inv_def heap_ok_def)
  have p: "?p \<in> alloc_at ?a cs" using blocks_alloc_at [OF bl] .
  then have "heap_ok (mm_add_delaylist h m) cs"
    using ok alloc_not_free [OF heap_pre_solid [OF ok(1)] p] heap_pre_alloc_not_sent [OF ok(1) p]
    by (simp add: mm_add_delaylist_def heap_ok_def heap_pre_def geom_def free_ok_set_flink)
  moreover have "m \<noteq> NULL" using bl by (auto simp: blocks_def mm_consts)
  moreover have "?p \<noteq> m' - SIZEOF_MM_ALLOCNODE" if "m' \<in> set ds" for m'
    using ch that m blocks_mem_inj [OF bl] by (auto simp: delay_chain_def)
  then have "lseg (\<lambda>m'. ((nd_flink h)(?p := mm_delaylist h)) (m' - SIZEOF_MM_ALLOCNODE)) (mm_delaylist h) ds NULL"
    using ch lseg_cong_on [of ds "\<lambda>m'. ((nd_flink h)(?p := mm_delaylist h)) (m' - SIZEOF_MM_ALLOCNODE)"
        "\<lambda>m'. nd_flink h (m' - SIZEOF_MM_ALLOCNODE)"] by (fastforce simp: delay_chain_def)
  ultimately show "heap_inv (mm_add_delaylist h m) cs (m # ds)"
    using bl ch by (auto simp: heap_inv_def delay_chain_def mm_add_delaylist_def)
  show "mm_heapstart (mm_add_delaylist h m) = mm_heapstart h" by (simp add: mm_add_delaylist_def)
qed

text \<open>The chunks after the blocks \<open>ds\<close> were released in turn.\<close>

inductive freed :: "ptr \<Rightarrow> chunk list \<Rightarrow> ptr list \<Rightarrow> chunk list \<Rightarrow> bool" for a where
  freed_Nil: "freed a cs [] cs"
| freed_Cons: "xs \<noteq> [] \<Longrightarrow> ys \<noteq> [] \<Longrightarrow> freed a (free_chunk xs s ys) ds cs' \<Longrightarrow>
    freed a (xs @ (True, s) # ys) ((a + span xs + SIZEOF_MM_ALLOCNODE) # ds) cs'"

inductive_simps freed_Nil_iff [simp]: "freed a cs [] cs'"

lemma mm_free_delayed_ok:
  assumes "heap_ok h cs" "delay_chain h cs d ds" "sem_avail env h" "\<not> env_isr env"
  shows "\<exists>h' cs'. mm_free_delayed env h d = Some h' \<and> heap_ok h' cs' \<and> freed (mm_heapstart h) cs ds cs' \<and>
    blocks (mm_heapstart h) cs' = blocks (mm_heapstart h) cs - {b. fst b \<in> set ds} \<and>
    node_frame {} h h'"
  using assms
proof (induction ds arbitrary: h cs d)
  case Nil
  then show ?case by (auto simp: delay_chain_def mm_free_delayed.simps)
next
  case (Cons m ds)
  let ?a = "mm_heapstart h"
  have ls: "lseg (\<lambda>m. nd_flink h (m - SIZEOF_MM_ALLOCNODE)) d (m # ds) NULL"
    and blk: "\<And>m'. m' \<in> set (m # ds) \<Longrightarrow> \<exists>s. (m', s) \<in> blocks ?a cs"
    using Cons.prems(2) unfolding delay_chain_def by blast+
  obtain s where bl: "(m, s) \<in> blocks ?a cs" using blk by auto
  note ld = lseg_ConsD [OF ls]
  obtain h1 cs1 where h1: "mm_free env h m = Some h1" "heap_ok h1 cs1"
    "blocks ?a cs1 = blocks ?a cs - {(m, s)}"
    "\<exists>xs ys. cs = xs @ (True, s) # ys \<and> cs1 = free_chunk xs s ys \<and> xs \<noteq> [] \<and> ys \<noteq> [] \<and>
       m = ?a + span xs + SIZEOF_MM_ALLOCNODE"
    "node_frame (alloc_at ?a cs - {m - SIZEOF_MM_ALLOCNODE}) h h1"
    by (rule mm_free_task [OF Cons.prems(1) bl Cons.prems(3,4)]) (rule that)
  note fr = node_frameD [OF h1(5)]
  have "delay_chain h cs (hd0 ds) ds" using ld(4) blk by (simp add: delay_chain_def)
  then have "delay_chain h1 cs1 (hd0 ds) ds"
  proof (rule delay_chain_frame [OF _ h1(5)])
    fix m' s' assume "m' \<in> set ds" "(m', s') \<in> blocks ?a cs"
    then show "m' - SIZEOF_MM_ALLOCNODE \<in> alloc_at ?a cs - {m - SIZEOF_MM_ALLOCNODE} \<and> (\<exists>s. (m', s) \<in> blocks ?a cs1)"
      using ld(5) bl blocks_mem_inj [of m' s' ?a cs m s] blocks_alloc_at [of m' s' ?a cs] h1(3) by auto
  qed
  then obtain h' cs' where IH: "mm_free_delayed env h1 (hd0 ds) = Some h'" "heap_ok h' cs'" "freed ?a cs1 ds cs'"
    "blocks ?a cs' = blocks ?a cs1 - {b. fst b \<in> set ds}" "node_frame {} h1 h'"
    using Cons.IH [OF h1(2)] Cons.prems(3,4) fr sem_avail_cong [of h1 h env] by metis
  have run: "mm_free_delayed env h d = Some h'"
    using ld h1(1) IH(1) by (subst mm_free_delayed.simps) (simp add: Let_def)
  obtain xs ys where xy: "cs = xs @ (True, s) # ys" "cs1 = free_chunk xs s ys" "xs \<noteq> []" "ys \<noteq> []"
      "m = ?a + span xs + SIZEOF_MM_ALLOCNODE"
    using h1(4) by blast
  have "freed ?a cs (m # ds) cs'"
    unfolding xy(1,5) by (rule freed_Cons [OF xy(3,4) IH(3) [unfolded xy(2)]])
  moreover have un: "fst b = m \<longleftrightarrow> b = (m, s)" if "b \<in> blocks ?a cs" for b
    using that bl blocks_functional [OF heap_ok_solid [OF Cons.prems(1)] bl] by (metis fst_conv prod.collapse)
  have "blocks ?a cs' = blocks ?a cs - {b. fst b \<in> set (m # ds)}"
    unfolding IH(4) h1(3) using un by auto
  moreover have "node_frame {} h h'"
    using node_frame_trans [OF node_frame_mono [OF h1(5)] IH(5)] by simp
  ultimately show ?case using run IH(2) by blast
qed


lemma mm_free_delaylist_ok:
  assumes "heap_inv h cs ds" "sem_avail env h" "\<not> env_isr env"
  obtains h' cs' where "mm_free_delaylist env h = Some h'" "heap_ok h' cs'" "freed (mm_heapstart h) cs ds cs'"
    "blocks (mm_heapstart h) cs' = blocks (mm_heapstart h) cs - {b. fst b \<in> set ds}"
    "node_frame {} (h\<lparr>mm_delaylist := NULL\<rparr>) h'"
proof -
  let ?h = "h\<lparr>mm_delaylist := NULL\<rparr>"
  have "delay_chain ?h cs (mm_delaylist h) ds" "heap_ok ?h cs"
    using assms(1) by (simp_all add: heap_inv_def delay_chain_def)
  then obtain h' cs' where "mm_free_delayed env ?h (mm_delaylist h) = Some h'" "heap_ok h' cs'"
    "freed (mm_heapstart h) cs ds cs'" "node_frame {} ?h h'"
    "blocks (mm_heapstart h) cs' = blocks (mm_heapstart h) cs - {b. fst b \<in> set ds}"
    using mm_free_delayed_ok [of ?h cs "mm_delaylist h" ds env] assms(2,3) by auto
  then show ?thesis
    using that by (simp add: mm_free_delaylist_def Let_def)
qed

section \<open>Allocating\<close>

text \<open>The size of the chunk \<open>mm_malloc\<close> looks for.\<close>

definition chunk_size :: "nat \<Rightarrow> nat" where
  "chunk_size n = (n + SIZEOF_MM_ALLOCNODE + MM_GRAN_MASK) div MM_MIN_CHUNK * MM_MIN_CHUNK"

definition MALLOC_MAX :: nat where
  "MALLOC_MAX = 2 ^ 32 - 1 - SIZEOF_MM_ALLOCNODE - MM_GRAN_MASK"

lemma clear_gran_mask: "clear_bits x MM_GRAN_MASK = x div MM_MIN_CHUNK * MM_MIN_CHUNK"
proof -
  have "x AND 15 = x mod 16"
    using take_bit_eq_mask [of 4 x] by (simp add: mask_eq_exp_minus_1 take_bit_eq_mod)
  then show ?thesis by (simp add: clear_bits_def mm_consts minus_mod_eq_div_mult)
qed

lemma MM_ALIGN_UP_eq: "x + MM_GRAN_MASK < 2 ^ 32 \<Longrightarrow> MM_ALIGN_UP x = (x + MM_GRAN_MASK) div MM_MIN_CHUNK * MM_MIN_CHUNK"
  by (simp add: MM_ALIGN_UP_def clear_gran_mask sz32_def)

lemma alignsize_eq:
  assumes "n \<le> MALLOC_MAX"
  shows "MM_ALIGN_UP (sz32 (n + SIZEOF_MM_ALLOCNODE)) = chunk_size n"
proof -
  have "sz32 (n + SIZEOF_MM_ALLOCNODE) = n + SIZEOF_MM_ALLOCNODE"
    using assms by (simp add: sz32_def MALLOC_MAX_def mm_consts)
  moreover have "n + SIZEOF_MM_ALLOCNODE + MM_GRAN_MASK < 2 ^ 32"
    using assms by (simp add: MALLOC_MAX_def mm_consts)
  ultimately show ?thesis by (simp add: MM_ALIGN_UP_eq chunk_size_def)
qed

lemma chunk_size_bounds:
  assumes "0 < n"
  shows "n + SIZEOF_MM_ALLOCNODE \<le> chunk_size n" "chunk_size n < n + SIZEOF_MM_ALLOCNODE + MM_MIN_CHUNK"
    "chunk_ok (f, chunk_size n)" "0 < chunk_size n"
proof -
  have "16 dvd chunk_size n" "n + 8 \<le> chunk_size n" "chunk_size n < n + 8 + 16"
    by (auto simp: chunk_size_def mm_consts)
  then show "n + SIZEOF_MM_ALLOCNODE \<le> chunk_size n" "chunk_size n < n + SIZEOF_MM_ALLOCNODE + MM_MIN_CHUNK"
    "chunk_ok (f, chunk_size n)" "0 < chunk_size n"
    using assms by (auto simp: chunk_ok_def mm_consts elim!: dvdE)
qed

lemma ndx_eq: "(if a \<ge> MM_MAX_CHUNK then MM_NNODES - 1 else mm_size2ndx a) = mm_size2ndx a"
  by (simp add: mm_size2ndx_def)

lemma heap_ok_free_split:
  assumes "heap_ok h cs" "n \<in> free_at (mm_heapstart h) cs"
  obtains xs s ys where "cs = xs @ (False, s) # ys" "xs \<noteq> []" "ys \<noteq> []" "n = mm_heapstart h + span xs"
    "nd_size h n = s"
proof -
  obtain s where "(n, False, s) \<in> set (locs (mm_heapstart h) cs)"
    using assms(2) by (auto simp: free_at_def)
  then obtain xs ys where cs: "cs = xs @ (False, s) # ys" "n = mm_heapstart h + span xs"
    using locs_split by metis
  have "wf_chunks cs" using assms(1) by (simp add: heap_ok_def heap_pre_def geom_def)
  then have "fst (hd cs)" "fst (last cs)" by (auto simp: wf_chunks_def guard_def)
  then have "xs \<noteq> []" "ys \<noteq> []" using cs by auto
  moreover have "nd_size h n = s"
    using heap_pre_at(1) [of h xs "(False, s)" ys] assms(1) cs unfolding heap_ok_def by auto
  ultimately show ?thesis using that cs by blast
qed

lemma free_sizes:
  assumes "heap_ok h cs"
  shows "(\<exists>n \<in> free_at (mm_heapstart h) cs. P (nd_size h n)) \<longleftrightarrow> (\<exists>s. (False, s) \<in> set cs \<and> P s)"
proof -
  have "set cs = snd ` set (locs a cs)" for a
    by (induction cs arbitrary: a) auto
  then have "(False, s) \<in> set cs \<longleftrightarrow> (\<exists>n. (n, False, s) \<in> set (locs (mm_heapstart h) cs))" for s
    by force
  moreover have "nd_size h n = s" if "(n, False, s) \<in> set (locs (mm_heapstart h) cs)" for n s
    using tile_locs [of "nd_size h" "nd_preceding h" "mm_heapstart h" 0 cs n "(False, s)"] that assms
    by (simp add: heap_ok_def heap_pre_def)
  ultimately show ?thesis by (auto simp: free_at_def)
qed


text \<open>
  What \<open>mm_malloc\<close> makes of the chunks \<open>cs\<close> when it looks for a chunk of size \<open>a\<close>: it takes a
  smallest free chunk that is large enough, and fails only if there is none.
\<close>

definition malloc_post :: "nat \<Rightarrow> ptr \<Rightarrow> chunk list \<Rightarrow> ptr \<Rightarrow> chunk list \<Rightarrow> bool" where
  "malloc_post a start cs ret cs' \<longleftrightarrow>
     (if ret = NULL then cs' = cs \<and> (\<forall>s. (False, s) \<in> set cs \<longrightarrow> s < a)
      else \<exists>xs s ys. cs = xs @ (False, s) # ys \<and> cs' = take_chunk xs a s ys \<and>
             ret = start + span xs + SIZEOF_MM_ALLOCNODE \<and> xs \<noteq> [] \<and> ys \<noteq> [] \<and> a \<le> s \<and>
             (\<forall>t. (False, t) \<in> set cs \<longrightarrow> a \<le> t \<longrightarrow> s \<le> t))"

text \<open>\<open>mm_malloc\<close> once the delayed blocks are released.\<close>

lemma mm_malloc_now:
  fixes h :: mm_heap_s and a :: nat
  defines "alloc \<equiv> (\<lambda>l. mm_malloc_search l a (nd_flink l (nodelist l (mm_size2ndx a))) \<bind>
      (\<lambda>node. (if node \<noteq> NULL then mm_malloc_take l a node else Some (NULL, l)) \<bind>
      (\<lambda>(ret, h). Some (ret, mm_givesemaphore h))))"
  assumes ok: "heap_ok h cs" and sem: "sem_avail env h" and a: "chunk_ok (True, a)"
  obtains ret h' cs' where "mm_takesemaphore env h \<bind> alloc = Some (ret, h')" "heap_ok h' cs'"
    "node_frame (alloc_at (mm_heapstart h) cs) h h'" "malloc_post a (mm_heapstart h) cs ret cs'"
proof -
  obtain c p n where sm: "mm_takesemaphore env h = Some (h\<lparr>mm_semcount := c, mm_holder := p, mm_counts_held := n\<rparr>)"
    "\<And>h'. mm_semcount h' = c \<Longrightarrow> mm_holder h' = p \<Longrightarrow> mm_counts_held h' = n \<Longrightarrow>
       mm_givesemaphore h' = h'\<lparr>mm_semcount := mm_semcount h, mm_holder := mm_holder h, mm_counts_held := mm_counts_held h\<rparr>"
    by (rule sem_avail_take [OF sem]) (rule that)
  let ?l = "h\<lparr>mm_semcount := c, mm_holder := p, mm_counts_held := n\<rparr>" and ?F = "free_at (mm_heapstart h) cs"
  have okl: "heap_ok ?l cs" and fo: "free_ok ?l ?F"
    using ok by (simp_all add: heap_ok_def heap_pre_def geom_def)
  have "0 < a" using a by (simp add: chunk_ok_def mm_consts)
  then obtain node where se: "mm_malloc_search ?l a (nd_flink ?l (nodelist ?l (mm_size2ndx a))) = Some node"
    "node = NULL \<Longrightarrow> \<forall>f \<in> ?F. nd_size ?l f < a"
    "node \<noteq> NULL \<Longrightarrow> node \<in> ?F \<and> a \<le> nd_size ?l node \<and> (\<forall>f \<in> ?F. a \<le> nd_size ?l f \<longrightarrow> nd_size ?l node \<le> nd_size ?l f)"
    using free_ok_search [OF fo] by blast
  show ?thesis
  proof (cases "node = NULL")
    case True
    have "mm_givesemaphore ?l = h" using sm(2) [of ?l] by simp
    then have "mm_takesemaphore env h \<bind> alloc = Some (NULL, h)"
      using sm(1) se(1) True by (simp add: alloc_def)
    moreover have "\<forall>s. (False, s) \<in> set cs \<longrightarrow> s < a"
      using se(2) True free_sizes [OF ok, of "\<lambda>s. \<not> s < a"] by auto
    ultimately show ?thesis using ok by (intro that [of NULL h cs]) (auto simp: malloc_post_def)
  next
    case False
    note se = se(3) [OF False] se(1)
    obtain xs s ys where sp: "cs = xs @ (False, s) # ys" "xs \<noteq> []" "ys \<noteq> []" "node = mm_heapstart ?l + span xs" "nd_size ?l node = s"
      using heap_ok_free_split [OF okl, of node] se(1) by auto
    obtain h1 where h1: "mm_malloc_take ?l a node = Some (node + SIZEOF_MM_ALLOCNODE, h1)"
      "heap_ok h1 (take_chunk xs a s ys)" "node_frame (other_alloc (mm_heapstart ?l) xs s ys) ?l h1"
      using mm_malloc_take_ok [OF okl [unfolded sp(1)] sp(2-4) a] se(1) sp(5) by auto
    let ?h = "h1\<lparr>mm_semcount := mm_semcount h, mm_holder := mm_holder h, mm_counts_held := mm_counts_held h\<rparr>"
    have "mm_givesemaphore h1 = ?h" using node_frameD [OF h1(3)] by (intro sm(2)) auto
    then have "mm_takesemaphore env h \<bind> alloc = Some (node + SIZEOF_MM_ALLOCNODE, ?h)"
      using sm(1) se(2) h1(1) False by (simp add: alloc_def)
    moreover have "node_frame (alloc_at (mm_heapstart h) cs) h ?h"
      using node_frame_locked [OF h1(3)] other_alloc_eq [OF heap_ok_solid [OF ok, unfolded sp(1)], of "mm_heapstart h"] sp(1)
      by simp
    moreover have "\<forall>t. (False, t) \<in> set cs \<longrightarrow> a \<le> t \<longrightarrow> s \<le> t"
      using se(1) sp(5) free_sizes [OF ok, of "\<lambda>t. a \<le> t \<and> \<not> s \<le> t"] by auto
    moreover have "a \<le> s" "heap_ok ?h (take_chunk xs a s ys)" using se(1) sp(5) h1(2) by simp_all
    moreover have "node = mm_heapstart h + span xs" using sp(4) by simp
    ultimately show ?thesis
      using sp(1-3) by (intro that [of "node + SIZEOF_MM_ALLOCNODE" ?h "take_chunk xs a s ys"])
        (blast | simp add: mm_consts malloc_post_def)+
  qed
qed


lemma mm_malloc_eq:
  assumes "0 < n" "n \<le> MALLOC_MAX" "mm_free_delaylist env h = Some h1"
  shows "mm_malloc env h n = mm_takesemaphore env h1 \<bind>
    (\<lambda>l. mm_malloc_search l (chunk_size n) (nd_flink l (nodelist l (mm_size2ndx (chunk_size n)))) \<bind>
      (\<lambda>node. (if node \<noteq> NULL then mm_malloc_take l (chunk_size n) node else Some (NULL, l)) \<bind>
      (\<lambda>(ret, h). Some (ret, mm_givesemaphore h))))"
  using assms unfolding mm_malloc_def alignsize_eq [OF assms(2)] Let_def ndx_eq by simp

lemma mm_malloc_ok:
  assumes inv: "heap_inv h cs ds" and env: "sem_avail env h" "\<not> env_isr env"
    and n: "0 < n" "n \<le> MALLOC_MAX"
  obtains ret h' cs1 cs' where "mm_malloc env h n = Some (ret, h')" "freed (mm_heapstart h) cs ds cs1"
    "blocks (mm_heapstart h) cs1 = blocks (mm_heapstart h) cs - {b. fst b \<in> set ds}"
    "malloc_post (chunk_size n) (mm_heapstart h) cs1 ret cs'" "heap_inv h' cs' []"
    "node_frame {} (h\<lparr>mm_delaylist := NULL\<rparr>) h'" "heap_ok h' cs'" "solid cs1"
proof -
  obtain h1 cs1 where h1: "mm_free_delaylist env h = Some h1" "heap_ok h1 cs1" "freed (mm_heapstart h) cs ds cs1"
    "blocks (mm_heapstart h) cs1 = blocks (mm_heapstart h) cs - {b. fst b \<in> set ds}"
    "node_frame {} (h\<lparr>mm_delaylist := NULL\<rparr>) h1"
    by (rule mm_free_delaylist_ok [OF inv env]) (rule that)
  note fr = node_frameD [OF h1(5)]
  have av: "sem_avail env h1" using env(1) fr sem_avail_cong [of h1 h env] by simp
  obtain ret h' cs' where m: "mm_malloc env h n = Some (ret, h')" "heap_ok h' cs'"
    "node_frame (alloc_at (mm_heapstart h1) cs1) h1 h'" "malloc_post (chunk_size n) (mm_heapstart h1) cs1 ret cs'"
    by (rule mm_malloc_now [OF h1(2) av chunk_size_bounds(3) [OF n(1)], folded mm_malloc_eq [OF n h1(1)]])
      (rule that)
  have "node_frame {} (h\<lparr>mm_delaylist := NULL\<rparr>) h'"
    by (rule node_frame_trans [OF h1(5) node_frame_mono [OF m(3)]]) simp
  moreover from this have "heap_inv h' cs' []"
    using m(2) node_frameD(8) by (auto simp: heap_inv_def delay_chain_def)
  ultimately show ?thesis
    using that [of ret h' cs1 cs'] m h1 fr heap_ok_solid [OF h1(2)] by simp
qed

end
