(* ===== verification/Mm_Init.thy ===== *)
theory Mm_Init
  imports Mm_Malloc
begin

unbundle bit_operations_syntax

text \<open>
  Setting up a heap: \<open>mm_initialize\<close> establishes the invariant, with one free chunk.
\<close>

section \<open>The empty list of free nodes\<close>

lemma lseg_map_upt:
  assumes "\<And>i. i < k \<Longrightarrow> fl (f i) = (if Suc i < k then f (Suc i) else NULL) \<and> f i \<noteq> NULL"
  shows "j < k \<Longrightarrow> lseg fl (f j) (map f [j..<k]) NULL"
proof (induction "k - j" arbitrary: j)
  case (Suc d)
  then have upt: "[j..<k] = j # [Suc j..<k]" by (simp add: upt_rec)
  show ?case
  proof (cases "Suc j < k")
    case True
    then show ?thesis using Suc.hyps(1) [of "Suc j"] Suc.hyps(2) Suc.prems assms [of j] by (simp add: upt)
  next
    case False
    then show ?thesis using assms [of j] Suc.prems by (simp add: upt)
  qed
qed simp

lemma lseg_rev_map_upt:
  assumes "\<And>i. i < k \<Longrightarrow> bl (f i) = (if i = 0 then NULL else f (i - 1)) \<and> f i \<noteq> NULL"
  shows "lseg bl (hd0 (rev (map f [0..<k]))) (rev (map f [0..<k])) NULL"
  using assms
proof (induction k)
  case (Suc k)
  moreover have "hd0 (rev (map f [0..<k])) = (if k = 0 then NULL else f (k - 1))"
    by (cases k) auto
  ultimately show ?case by simp
qed simp

text \<open>The two loops of \<open>mm_initialize\<close>, for the first \<open>k\<close> elements of the array.\<close>

lemma clear_fold:
  fixes h :: mm_heap_s and k :: nat
  defines "g \<equiv> (\<lambda>i. mm_nodelist h + i * SIZEOF_MM_FREENODE)"
  defines "h' \<equiv> \<lambda>k. fold (\<lambda>i heap. let p = nodelist heap i
           in set_size p 0 (set_preceding p 0 (set_flink p NULL (set_blink p NULL heap)))) [0..<k] h"
  shows "node_frame {} h (h' k) \<and> (\<forall>i < k. nd_size (h' k) (g i) = 0 \<and> nd_flink (h' k) (g i) = NULL \<and> nd_blink (h' k) (g i) = NULL)"
proof (induction k)
  case 0
  then show ?case by (simp add: h'_def)
next
  case (Suc k)
  have nl: "nodelist (h' k) k = g k" using node_frameD(7) [of "{}" h "h' k"] Suc by (simp add: nodelist_def g_def)
  have step: "h' (Suc k) = set_size (g k) 0 (set_preceding (g k) 0 (set_flink (g k) NULL (set_blink (g k) NULL (h' k))))"
    unfolding nl [symmetric] by (simp add: h'_def Let_def)
  have "node_frame {} (h' k) (h' (Suc k))" by (simp add: step node_frame_def)
  then have "node_frame {} h (h' (Suc k))" using Suc node_frame_trans by blast
  moreover have "nd_size (h' (Suc k)) (g i) = 0 \<and> nd_flink (h' (Suc k)) (g i) = NULL \<and> nd_blink (h' (Suc k)) (g i) = NULL"
    if "i < Suc k" for i
    using that Suc by (auto simp: step less_Suc_eq)
  ultimately show ?case by blast
qed

lemma link_fold:
  fixes h :: mm_heap_s and k :: nat
  defines "g \<equiv> (\<lambda>i. mm_nodelist h + i * SIZEOF_MM_FREENODE)"
  defines "h' \<equiv> \<lambda>k. fold (\<lambda>i heap. let heap = set_flink (nodelist heap (i - 1)) (nodelist heap i) heap
                   in set_blink (nodelist heap i) (nodelist heap (i - 1)) heap) [1..<k] h"
  shows "0 < k \<Longrightarrow> node_frame {} h (h' k) \<and> nd_size (h' k) = nd_size h \<and>
    (\<forall>i. nd_flink (h' k) (g i) = (if Suc i < k then g (Suc i) else nd_flink h (g i))) \<and>
    (\<forall>i. nd_blink (h' k) (g i) = (if 0 < i \<and> i < k then g (i - 1) else nd_blink h (g i)))"
proof (induction k rule: nat_induct_non_zero)
  case 1
  then show ?case by (simp add: h'_def)
next
  case (Suc k)
  have nl: "nodelist (h' k) i = g i" for i
    using node_frameD(7) [of "{}" h "h' k"] Suc by (simp add: nodelist_def g_def)
  have inj: "g i = g j \<longleftrightarrow> i = j" for i j by (simp add: g_def mm_consts)
  have step: "h' (Suc k) = set_blink (g k) (g (k - 1)) (set_flink (g (k - 1)) (g k) (h' k))"
    using Suc.hyps nl by (simp add: h'_def Let_def nodelist_def)
  have "node_frame {} (h' k) (h' (Suc k))" by (simp add: step node_frame_def)
  then have "node_frame {} h (h' (Suc k))" using Suc node_frame_trans by blast
  moreover have "nd_flink (h' (Suc k)) (g i) = (if Suc i < Suc k then g (Suc i) else nd_flink h (g i))" for i
    using Suc by (auto simp: step inj)
  moreover have "nd_blink (h' (Suc k)) (g i) = (if 0 < i \<and> i < Suc k then g (i - 1) else nd_blink h (g i))" for i
    using Suc by (auto simp: step inj)
  moreover have "nd_size (h' (Suc k)) = nd_size h" using Suc by (simp add: step)
  ultimately show ?case by blast
qed

lemma nodelist_free_ok:
  assumes "0 < mm_nodelist h"
  shows "free_ok (mm_link_nodelist (mm_clear_nodelist h)) {}"
    "node_frame {} h (mm_link_nodelist (mm_clear_nodelist h))"
proof -
  define g where "g = (\<lambda>i. mm_nodelist h + i * SIZEOF_MM_FREENODE)"
  define h1 where "h1 = mm_clear_nodelist h"
  define h2 where "h2 = mm_link_nodelist h1"
  note c = clear_fold [where h = h and k = MM_NNODES, folded mm_clear_nodelist_def g_def, folded h1_def]
  have nl: "mm_nodelist h1 = mm_nodelist h" using c node_frameD(7) [of "{}" h h1] by simp
  have "0 < MM_NNODES" by (simp add: mm_consts)
  note l = link_fold [where h = h1 and k = MM_NNODES, OF this, folded mm_link_nodelist_def, unfolded nl, folded g_def, folded h2_def]
  show fr: "node_frame {} h (mm_link_nodelist (mm_clear_nodelist h))"
    using c l node_frame_trans [of "{}" h h1 h2] by (simp add: h2_def h1_def)
  have nl2: "mm_nodelist h2 = mm_nodelist h" using l nl node_frameD(7) [of "{}" h1 h2] by simp
  let ?ns = "map g [0..<MM_NNODES]"
  have set: "set ?ns = sents (mm_nodelist h)" by (auto simp: sents_def g_def)
  have nz: "g i \<noteq> NULL" for i using assms by (simp add: g_def)
  have "nd_flink h2 (g i) = (if Suc i < MM_NNODES then g (Suc i) else NULL)"
    "nd_blink h2 (g i) = (if i = 0 then NULL else g (i - 1))" if "i < MM_NNODES" for i
    using that c l by (auto simp: g_def)
  then have "lseg (nd_flink h2) (g 0) ?ns NULL" "lseg (nd_blink h2) (hd0 (rev ?ns)) (rev ?ns) NULL"
    using nz \<open>0 < MM_NNODES\<close> by (auto intro!: lseg_map_upt lseg_rev_map_upt)
  moreover have "sz n = 0" if "n \<in> sents (mm_nodelist h)" "sz = nd_size h2" for n sz
    using that c l by (auto simp: sents_def g_def)
  moreover have "fkey (mm_nodelist h) (nd_size h2) (g i) = i * 2 ^ 32" if "i < MM_NNODES" for i
    using that by (simp add: g_def fkey_sent)
  then have "sorted (map (fkey (mm_nodelist h) (nd_size h2)) ?ns)"
    by (auto simp: sorted_iff_nth_mono)
  ultimately have "flist (mm_nodelist h2) (nd_size h2) (nd_flink h2) (nd_blink h2) ?ns"
    using set by (auto simp: flist_def nl2 g_def)
  then show "free_ok (mm_link_nodelist (mm_clear_nodelist h)) {}"
    using set nl2 by (auto simp: free_ok_def h2_def h1_def)
qed


section \<open>The first region\<close>

definition region_base :: "ptr \<Rightarrow> ptr" where
  "region_base start = (start + MM_GRAN_MASK) div MM_MIN_CHUNK * MM_MIN_CHUNK"

definition region_end :: "ptr \<Rightarrow> nat \<Rightarrow> ptr" where
  "region_end start n = (start + n) div MM_MIN_CHUNK * MM_MIN_CHUNK"

text \<open>
  A region that \<open>mm_initialize\<close> can use: it lies in the address space, has room for two guard
  nodes and a free node, is smaller than two gigabytes and does not overlap the array \<open>mm_nodelist\<close>.
\<close>

definition region_ok :: "ptr \<Rightarrow> ptr \<Rightarrow> nat \<Rightarrow> bool" where
  "region_ok nl start n \<longleftrightarrow> 0 < nl \<and> 0 < start \<and> start + n < 2 ^ 32 \<and>
     region_base start + 2 * MM_MIN_CHUNK \<le> region_end start n \<and>
     region_end start n - region_base start < MM_ALLOC_BIT \<and>
     (nl + MM_NNODES * SIZEOF_MM_FREENODE \<le> region_base start \<or> region_end start n \<le> nl)"

definition initial_chunks :: "ptr \<Rightarrow> nat \<Rightarrow> chunk list" where
  "initial_chunks start n =
     [guard, (False, region_end start n - region_base start - 2 * SIZEOF_MM_ALLOCNODE), guard]"

lemma region_facts:
  assumes "region_ok nl start n"
  shows "MM_ALIGN_UP start = region_base start" "MM_ALIGN_DOWN (sz32 (start + n)) = region_end start n"
    "0 < region_base start" "16 dvd region_base start" "16 dvd region_end start n"
    "region_base start + 32 \<le> region_end start n" "region_end start n < 2 ^ 32"
proof -
  have d: "region_base start = (start + 15) div 16 * 16" "region_end start n = (start + n) div 16 * 16"
    by (simp_all add: region_base_def region_end_def mm_consts)
  have e: "region_end start n \<le> start + n" "start \<le> region_base start"
    unfolding d by (simp_all add: div_mult_mod_eq [symmetric])
  have r: "start + n < 2 ^ 32" "0 < start" "region_base start + 32 \<le> region_end start n"
    using assms by (auto simp: region_ok_def mm_consts)
  have "start + MM_GRAN_MASK < 2 ^ 32" using e r by (simp add: mm_consts)
  then show "MM_ALIGN_UP start = region_base start" by (simp add: MM_ALIGN_UP_eq region_base_def)
  show "MM_ALIGN_DOWN (sz32 (start + n)) = region_end start n"
    using r by (simp add: MM_ALIGN_DOWN_def clear_gran_mask region_end_def sz32_def)
  show "0 < region_base start" "16 dvd region_base start" "16 dvd region_end start n"
    "region_base start + 32 \<le> region_end start n" "region_end start n < 2 ^ 32"
    using e r d by simp_all
qed

lemma region_sents:
  assumes "region_ok nl start n" "p \<in> sents nl"
  shows "p + SIZEOF_MM_FREENODE \<le> region_base start \<or> region_end start n \<le> p"
proof -
  obtain i where "i < MM_NNODES" "p = nl + i * SIZEOF_MM_FREENODE" using assms(2) by (auto simp: sents_def)
  moreover from this have "Suc i * SIZEOF_MM_FREENODE \<le> MM_NNODES * SIZEOF_MM_FREENODE" by (intro mult_le_mono1) simp
  ultimately show ?thesis using assms(1) by (auto simp: region_ok_def)
qed

lemma initial_pre:
  assumes reg: "region_ok (mm_nodelist h) start n" and fo: "free_ok h {}"
    and h: "mm_heapstart h = region_base start" "mm_heapend h = region_end start n - SIZEOF_MM_ALLOCNODE"
    and s: "s = region_end start n - region_base start - 2 * SIZEOF_MM_ALLOCNODE"
    and t: "tile (nd_size h) (nd_preceding h) (region_base start) 0 [guard, (False, s), guard]"
  shows "heap_pre h [guard, (False, s), guard] {}"
proof -
  note R = region_facts [OF reg]
  have "16 dvd s" using R(4-6) by (auto simp: s mm_consts elim!: dvdE)
  moreover have "16 \<le> s" using R(6) by (simp add: s mm_consts)
  ultimately have "chunk_ok (False, s)" by (simp add: chunk_ok_def mm_consts)
  then have wf: "wf_chunks [guard, (False, s), guard]" by (auto simp: wf_chunks_def intro!: exI [of _ "[(False, s)]"])
  have sp: "region_base start + span [guard, (False, s), guard] = region_end start n"
    using R(6) by (simp add: guard_def s mm_consts)
  have "geom h [guard, (False, s), guard]"
    unfolding geom_def h sp using wf R reg region_sents [OF reg] sp by (auto simp: region_ok_def mm_consts)
  then show ?thesis using fo t h(1) by (simp add: heap_pre_def)
qed

text \<open>The heap after \<open>mm_addregion\<close> has set up the guard nodes and the node between them, before this node is added to the list.\<close>

definition guarded_heap :: "mm_env \<Rightarrow> mm_heap_s \<Rightarrow> nat \<Rightarrow> nat \<Rightarrow> mm_heap_s" where
  "guarded_heap env h start n =
     (let b = region_base start; e = region_end start n; s = e - b - 2 * SIZEOF_MM_ALLOCNODE
      in h\<lparr>mm_semcount := 0, mm_holder := env_pid env, mm_counts_held := 1, mm_heapsize := e - b,
           mm_heapstart := b, mm_heapend := e - SIZEOF_MM_ALLOCNODE,
           nd_size := (nd_size h)(b := SIZEOF_MM_ALLOCNODE, b + SIZEOF_MM_ALLOCNODE := s, e - SIZEOF_MM_ALLOCNODE := SIZEOF_MM_ALLOCNODE),
           nd_preceding := (nd_preceding h)(b := MM_ALLOC_BIT, b + SIZEOF_MM_ALLOCNODE := SIZEOF_MM_ALLOCNODE,
             e - SIZEOF_MM_ALLOCNODE := penc True s)\<rparr>)"

lemma sz32_wrap: "n < 2 ^ 32 \<Longrightarrow> sz32 n = n" "n < 2 ^ 32 \<Longrightarrow> m = n + 2 ^ 32 \<Longrightarrow> sz32 m = n"
  unfolding sz32_def by (simp_all only: mod_add_self2 mod_less)

lemma mm_addregion_run:
  assumes reg: "region_ok (mm_nodelist h) start n" and pid: "0 \<le> env_pid env"
    and h: "mm_semcount h = 1" "mm_holder h = NO_HOLDER" "mm_heapsize h = 0"
  shows "mm_addregion env h start n =
    mm_addfreechunk (guarded_heap env h start n) (region_base start + SIZEOF_MM_ALLOCNODE) \<bind> (\<lambda>h. Some (mm_givesemaphore h))"
proof -
  let ?b = "region_base start" and ?e = "region_end start n" and ?A = SIZEOF_MM_ALLOCNODE
  let ?s = "?e - ?b - 2 * ?A"
  note R = region_facts [OF reg]
  have lt: "?s < MM_ALLOC_BIT" "?e - ?b < MM_ALLOC_BIT" using reg by (auto simp: region_ok_def)
  have addr: "?b \<noteq> ?b + ?A" "?b \<noteq> ?e - ?A" "?b + ?A \<noteq> ?e - ?A" "?b + ?A + ?s = ?e - ?A"
    using R(6) by (simp_all add: mm_consts)
  have "?e - ?b < 2 ^ 32" using R(7) by linarith
  moreover from this have "sz32 (?e + 2 ^ 32 - ?b) = ?e - ?b" by (rule sz32_wrap(2)) (use R(6) in linarith)
  moreover have "sz32 (?e - ?b + 2 ^ 32 - 2 * ?A) = ?s"
    by (rule sz32_wrap(2)) (use lt R(6) in \<open>simp_all add: MM_ALLOC_BIT_def SIZEOF_MM_ALLOCNODE_def\<close>)
  moreover have "mm_takesemaphore env h = Some (h\<lparr>mm_semcount := 0, mm_holder := env_pid env, mm_counts_held := 1\<rparr>)"
    using h pid by (simp add: mm_takesemaphore_def NO_HOLDER_def count_wait_def)
  ultimately show ?thesis
    unfolding mm_addregion_def Let_def using R(1,2) h(3) addr lt sz32_wrap(1) [of "?e - ?b"] by (simp add: guarded_heap_def Let_def)
qed

lemma guarded_heap_pre:
  assumes reg: "region_ok (mm_nodelist h) start n" and fo: "free_ok h {}"
  shows "heap_pre (guarded_heap env h start n) [guard, (False, region_end start n - region_base start - 2 * SIZEOF_MM_ALLOCNODE), guard] {}"
proof -
  let ?b = "region_base start" and ?e = "region_end start n" and ?A = SIZEOF_MM_ALLOCNODE and ?h = "guarded_heap env h start n"
  let ?s = "?e - ?b - 2 * ?A"
  let ?sz = "(nd_size h)(?b := ?A, ?b + ?A := ?s, ?e - ?A := ?A)"
  let ?g = "h\<lparr>mm_semcount := 0, mm_holder := env_pid env, mm_counts_held := 1, mm_heapsize := ?e - ?b,
    mm_heapstart := ?b, mm_heapend := ?e - ?A\<rparr>"
  note R = region_facts [OF reg]
  have addr: "?b \<noteq> ?b + ?A" "?b \<noteq> ?e - ?A" "?b + ?A \<noteq> ?e - ?A" "?b + ?A + ?s = ?e - ?A"
    using R(6) by (simp_all add: mm_consts)
  have "?sz p = nd_size h p" if "p \<in> sents (mm_nodelist h)" for p
    using region_sents [OF reg that] R(6) by (auto simp: mm_consts)
  then have "free_ok (?g\<lparr>nd_size := ?sz\<rparr>) {} = free_ok ?g {}"
    by (intro free_ok_size_cong) simp
  then have fo': "free_ok ?h {}" using fo by (simp add: guarded_heap_def Let_def)
  show ?thesis
  proof (rule initial_pre)
    show "tile (nd_size ?h) (nd_preceding ?h) ?b 0 [guard, (False, ?s), guard]"
      using addr by (simp add: guarded_heap_def Let_def guard_def penc_def)
  qed (use reg fo' in \<open>simp_all add: guarded_heap_def Let_def\<close>)
qed

lemma mm_addregion_ok:
  assumes reg: "region_ok (mm_nodelist h) start n" and fo: "free_ok h {}" and pid: "0 \<le> env_pid env"
    and h: "mm_semcount h = 1" "mm_holder h = NO_HOLDER" "mm_counts_held h = 0" "mm_heapsize h = 0" "mm_delaylist h = NULL"
  obtains h' where "mm_addregion env h start n = Some h'" "heap_inv h' (initial_chunks start n) []"
    "mm_heapstart h' = region_base start" "mm_heapend h' = region_end start n - SIZEOF_MM_ALLOCNODE"
    "mm_heapsize h' = region_end start n - region_base start"
    "mm_semcount h' = 1" "mm_holder h' = NO_HOLDER" "mm_counts_held h' = 0" "mm_nodelist h' = mm_nodelist h"
proof -
  let ?p = "region_base start + SIZEOF_MM_ALLOCNODE"
  define h3 where "h3 = guarded_heap env h start n"
  define s where "s = region_end start n - region_base start - 2 * SIZEOF_MM_ALLOCNODE"
  note g = h3_def [unfolded guarded_heap_def Let_def]
  note pre = guarded_heap_pre [OF reg fo, of env, folded h3_def s_def] and run = mm_addregion_run [OF reg pid h(1,2,4), folded h3_def]
  have ic: "initial_chunks start n = [guard, (False, s), guard]" by (simp add: initial_chunks_def s_def)
  have pos: "?p = mm_heapstart h3 + span [guard]" by (simp add: g guard_def)
  obtain fl bl where ad: "mm_addfreechunk h3 ?p = Some (h3\<lparr>nd_flink := fl, nd_blink := bl\<rparr>)"
    "heap_pre (h3\<lparr>nd_flink := fl, nd_blink := bl\<rparr>) [guard, (False, s), guard] {?p}"
    by (rule heap_pre_add [of h3 "[guard]" s guard "[]" "{}", OF _ _ pos]) (use pre in simp_all)
  let ?h' = "h3\<lparr>nd_flink := fl, nd_blink := bl\<rparr>"
  have "free_at (mm_heapstart ?h') (initial_chunks start n) = {?p}" "coalesced (initial_chunks start n)"
    unfolding ic by (simp_all add: g guard_def)
  then have "heap_ok ?h' (initial_chunks start n)" using ad(2) ic by (simp only: heap_ok_def simp_thms)
  moreover have "mm_delaylist h3 = NULL" using h(5) by (simp add: g)
  ultimately have inv: "heap_inv (mm_givesemaphore ?h') (initial_chunks start n) []"
    by (simp add: heap_inv_def delay_chain_def)
  show ?thesis
  proof (rule that [OF _ inv])
    show "mm_addregion env h start n = Some (mm_givesemaphore ?h')" using run ad(1) by simp
  qed (simp_all add: mm_givesemaphore_def g count_post_def SEM_VALUE_MAX_def)
qed

lemma mm_initialize_ok:
  assumes "region_ok (mm_nodelist h) start n" and "0 \<le> env_pid env"
  obtains h' where "mm_initialize env h start n = Some h'" "heap_inv h' (initial_chunks start n) []"
    "mm_heapstart h' = region_base start" "mm_heapend h' = region_end start n - SIZEOF_MM_ALLOCNODE"
    "mm_heapsize h' = region_end start n - region_base start"
    "mm_semcount h' = 1" "mm_holder h' = NO_HOLDER" "mm_counts_held h' = 0" "mm_nodelist h' = mm_nodelist h"
proof -
  define h1 where "h1 = h\<lparr>mm_heapsize := 0, mm_delaylist := NULL\<rparr>"
  define h2 where "h2 = mm_link_nodelist (mm_clear_nodelist h1)"
  have "0 < mm_nodelist h1" using assms(1) by (simp add: h1_def region_ok_def)
  note nl = nodelist_free_ok [OF this, folded h2_def]
  note fr = node_frameD [OF nl(2)]
  let ?h3 = "mm_seminitialize h2"
  have "mm_initialize env h start n = mm_addregion env ?h3 start n"
    by (simp add: mm_initialize_def Let_def h2_def h1_def)
  moreover have "region_ok (mm_nodelist ?h3) start n" "free_ok ?h3 {}" "mm_semcount ?h3 = 1" "mm_holder ?h3 = NO_HOLDER"
    "mm_counts_held ?h3 = 0" "mm_heapsize ?h3 = 0" "mm_delaylist ?h3 = NULL" "mm_nodelist ?h3 = mm_nodelist h"
    using assms nl(1) fr by (auto simp: mm_seminitialize_def h1_def)
  ultimately show ?thesis
    using mm_addregion_ok [of ?h3 start n env] assms(2) that by metis
qed

end
