(* ===== verification/Mm_Client.thy ===== *)
theory Mm_Client
  imports Mm_Init Alloc_Interface
begin

unbundle bit_operations_syntax

text \<open>
  The memory manager as its clients see it: an interpretation of the contract of
  \<open>Alloc_Interface\<close>, and the properties of \<open>mm_initialize\<close>, \<open>mm_malloc\<close> and \<open>mm_free\<close>.
\<close>

section \<open>The heap as an allocator\<close>

text \<open>
  The clients hold the blocks \<open>live\<close>, each with the number of bytes asked for. All other blocks
  wait for their release.
\<close>

definition mm_rep :: "mm_env \<Rightarrow> ptr \<Rightarrow> ptr \<Rightarrow> mm_heap_s \<Rightarrow> (ptr \<times> nat) list \<Rightarrow> bool" where
  "mm_rep env a e h live \<longleftrightarrow> mm_heapstart h = a \<and> mm_heapend h = e \<and> sem_avail env h \<and> \<not> env_isr env \<and> distinct (map fst live) \<and>
     (\<exists>cs ds. heap_inv h cs ds \<and>
        {m. \<exists>s. (m, s) \<in> blocks (mm_heapstart h) cs} = fst ` set live \<union> set ds \<and> fst ` set live \<inter> set ds = {} \<and>
        (\<forall>(m, n) \<in> set live. \<exists>s. (m, s) \<in> blocks (mm_heapstart h) cs \<and> n + SIZEOF_MM_ALLOCNODE \<le> s))"

definition mm_accepts :: "nat \<Rightarrow> bool" where
  "mm_accepts n \<longleftrightarrow> 0 < n \<and> n \<le> MALLOC_MAX"

lemma mm_repI:
  "mm_heapstart h = a \<Longrightarrow> mm_heapend h = e \<Longrightarrow> sem_avail env h \<Longrightarrow> \<not> env_isr env \<Longrightarrow> distinct (map fst live) \<Longrightarrow> heap_inv h cs ds \<Longrightarrow>
     {m. \<exists>s. (m, s) \<in> blocks (mm_heapstart h) cs} = fst ` set live \<union> set ds \<Longrightarrow> fst ` set live \<inter> set ds = {} \<Longrightarrow>
     \<forall>(m, n) \<in> set live. \<exists>s. (m, s) \<in> blocks (mm_heapstart h) cs \<and> n + SIZEOF_MM_ALLOCNODE \<le> s \<Longrightarrow>
     mm_rep env a e h live"
  unfolding mm_rep_def by blast

lemma mm_repE:
  assumes "mm_rep env a e h live"
  obtains cs ds where "mm_heapstart h = a" "mm_heapend h = e" "sem_avail env h" "\<not> env_isr env" "distinct (map fst live)" "heap_inv h cs ds"
    "{m. \<exists>s. (m, s) \<in> blocks (mm_heapstart h) cs} = fst ` set live \<union> set ds" "fst ` set live \<inter> set ds = {}"
    "\<And>m n. (m, n) \<in> set live \<Longrightarrow> \<exists>s. (m, s) \<in> blocks (mm_heapstart h) cs \<and> n + SIZEOF_MM_ALLOCNODE \<le> s"
proof -
  obtain cs ds where "heap_inv h cs ds"
     "{m. \<exists>s. (m, s) \<in> blocks (mm_heapstart h) cs} = fst ` set live \<union> set ds" "fst ` set live \<inter> set ds = {}"
     "\<forall>(m, n) \<in> set live. \<exists>s. (m, s) \<in> blocks (mm_heapstart h) cs \<and> n + SIZEOF_MM_ALLOCNODE \<le> s"
    using assms unfolding mm_rep_def by (elim conjE exE) (rule that)
  moreover from this(4) have "(m, n) \<in> set live \<Longrightarrow> \<exists>s. (m, s) \<in> blocks (mm_heapstart h) cs \<and> n + SIZEOF_MM_ALLOCNODE \<le> s" for m n
    by blast
  ultimately show ?thesis using that [of cs ds] assms unfolding mm_rep_def by blast
qed

lemma malloc_post_blocks:
  assumes "malloc_post a start cs ret cs'" "solid cs" "0 < a"
  shows "blocks start cs' = (if ret = NULL then blocks start cs else insert (ret, a) (blocks start cs))"
    "ret \<noteq> NULL \<Longrightarrow> (ret, s) \<notin> blocks start cs"
proof -
  have null: "cs' = cs" if "ret = NULL" using assms(1) that by (simp add: malloc_post_def)
  have "blocks start cs' = insert (ret, a) (blocks start cs) \<and> (ret, s) \<notin> blocks start cs" if r: "ret \<noteq> NULL"
  proof -
    obtain xs t ys where sp: "cs = xs @ (False, t) # ys" "cs' = take_chunk xs a t ys" "xs \<noteq> []" "ys \<noteq> []"
        "ret = start + span xs + SIZEOF_MM_ALLOCNODE" "a \<le> t"
      using assms(1) r unfolding malloc_post_def by auto
    have "(start + span xs, False, t) \<in> set (locs start cs)" using sp(1) by simp
    then have "(start + span xs, True, s) \<notin> set (locs start cs)" using locs_functional [OF assms(2)] by blast
    then have "(ret, s) \<notin> blocks start cs" using sp(5) by (simp add: blocks_def)
    moreover have "blocks start cs' = insert (ret, a) (blocks start cs)"
      using blocks_take_chunk [of xs t ys a start] assms(2,3) sp by simp
    ultimately show ?thesis by simp
  qed
  with null show "blocks start cs' = (if ret = NULL then blocks start cs else insert (ret, a) (blocks start cs))"
    "ret \<noteq> NULL \<Longrightarrow> (ret, s) \<notin> blocks start cs" by simp_all
qed

lemma mm_rep_malloc:
  assumes rep: "mm_rep env a e h live" and n: "mm_accepts n"
  shows "\<exists>p h'. mm_malloc env h n = Some (p, h') \<and> mm_rep env a e h' (if p = NULL then live else (p, n) # live)"
proof -
  let ?a = "mm_heapstart h"
  obtain cs ds where ae: "mm_heapstart h = a" "mm_heapend h = e" and env: "sem_avail env h" "\<not> env_isr env" and di: "distinct (map fst live)"
    and cs: "heap_inv h cs ds" "{m. \<exists>s. (m, s) \<in> blocks ?a cs} = fst ` set live \<union> set ds"
      "fst ` set live \<inter> set ds = {}" "\<And>m n. (m, n) \<in> set live \<Longrightarrow> \<exists>s. (m, s) \<in> blocks ?a cs \<and> n + SIZEOF_MM_ALLOCNODE \<le> s"
    by (rule mm_repE [OF rep]) (rule that)
  have n: "0 < n" "n \<le> MALLOC_MAX" using assms(2) by (auto simp: mm_accepts_def)
  obtain ret h' cs1 cs' where m: "mm_malloc env h n = Some (ret, h')" "freed ?a cs ds cs1"
    "blocks ?a cs1 = blocks ?a cs - {b. fst b \<in> set ds}" "malloc_post (chunk_size n) ?a cs1 ret cs'" "heap_inv h' cs' []"
    "node_frame {} (h\<lparr>mm_delaylist := NULL\<rparr>) h'" "heap_ok h' cs'" "solid cs1"
    by (rule mm_malloc_ok [OF cs(1) env n]) (rule that)
  note fr = node_frameD [OF m(6)] and mb = malloc_post_blocks [OF m(4,8) chunk_size_bounds(4) [OF n(1)]]
  have dom1: "{m. \<exists>s. (m, s) \<in> blocks ?a cs1} = fst ` set live"
    unfolding m(3) using cs(2,3) by auto
  have live1: "\<forall>(m, n) \<in> set live. \<exists>s. (m, s) \<in> blocks ?a cs1 \<and> n + SIZEOF_MM_ALLOCNODE \<le> s"
    unfolding m(3) using cs(3,4) by fastforce
  have av: "sem_avail env h'" using env(1) fr sem_avail_cong [of h' h env] by simp
  have start: "mm_heapstart h' = a" "mm_heapend h' = e" using fr ae by simp_all
  have "mm_rep env a e h' (if ret = NULL then live else (ret, n) # live)"
  proof (cases "ret = NULL")
    case True
    then show ?thesis
      using mm_repI [OF start av env(2) di m(5)] mb(1) dom1 live1 by (simp add: start ae)
  next
    case False
    then have "ret \<notin> fst ` set live" using mb(2) dom1 by fastforce
    moreover have "{m. \<exists>s. (m, s) \<in> blocks ?a cs'} = insert ret (fst ` set live)"
      using mb(1) False dom1 by auto
    moreover have "\<exists>s. (ret, s) \<in> blocks ?a cs' \<and> n + SIZEOF_MM_ALLOCNODE \<le> s"
      using mb(1) False chunk_size_bounds(1) [OF n(1)] by auto
    moreover have "\<forall>(m, n) \<in> set live. \<exists>s. (m, s) \<in> blocks ?a cs' \<and> n + SIZEOF_MM_ALLOCNODE \<le> s"
      using live1 mb(1) False by fastforce
    ultimately show ?thesis
      using mm_repI [OF start av env(2) _ m(5), of "(ret, n) # live"] di False by (simp add: start ae)
  qed
  with m(1) show ?thesis by blast
qed

text \<open>The delayed releases are untouched by the release of another block.\<close>

lemma mm_free_inv:
  assumes inv: "heap_inv h cs ds" and bl: "(m, s) \<in> blocks (mm_heapstart h) cs" and m: "m \<notin> set ds"
    and h': "heap_ok h' cs'" "blocks (mm_heapstart h) cs' = blocks (mm_heapstart h) cs - {(m, s)}"
      "node_frame (alloc_at (mm_heapstart h) cs - {m - SIZEOF_MM_ALLOCNODE}) h h'"
  shows "heap_inv h' cs' ds"
proof -
  let ?a = "mm_heapstart h"
  have ch: "delay_chain h cs (mm_delaylist h) ds" using inv by (simp add: heap_inv_def)
  have "delay_chain h' cs' (mm_delaylist h) ds"
  proof (rule delay_chain_frame [OF ch h'(3)])
    fix k t assume k: "k \<in> set ds" "(k, t) \<in> blocks ?a cs"
    then have "k \<noteq> m" using m by auto
    then show "k - SIZEOF_MM_ALLOCNODE \<in> alloc_at ?a cs - {m - SIZEOF_MM_ALLOCNODE} \<and> (\<exists>s. (k, s) \<in> blocks ?a cs')"
      using k blocks_mem_inj [OF k(2) bl] blocks_alloc_at [OF k(2)] h'(2) by auto
  qed
  then show ?thesis using h'(1) node_frameD [OF h'(3)] by (simp add: heap_inv_def)
qed

lemma mm_free_chunk:
  assumes inv: "heap_inv h cs ds" and bl: "(m, s) \<in> blocks (mm_heapstart h) cs" and m: "m \<notin> set ds"
    and env: "sem_avail env h" "\<not> env_isr env"
  shows "\<exists>h' xs ys. mm_free env h m = Some h' \<and> cs = xs @ (True, s) # ys \<and>
    m = mm_heapstart h + span xs + SIZEOF_MM_ALLOCNODE \<and> heap_inv h' (free_chunk xs s ys) ds \<and>
    coalesced (free_chunk xs s ys) \<and> node_frame {} h h' \<and>
    blocks (mm_heapstart h) (free_chunk xs s ys) = blocks (mm_heapstart h) cs - {(m, s)}"
proof -
  let ?a = "mm_heapstart h"
  have ok: "heap_ok h cs" using inv by (simp add: heap_inv_def)
  obtain h' cs' where h': "mm_free env h m = Some h'" "heap_ok h' cs'" "blocks ?a cs' = blocks ?a cs - {(m, s)}"
    "\<exists>xs ys. cs = xs @ (True, s) # ys \<and> cs' = free_chunk xs s ys \<and> xs \<noteq> [] \<and> ys \<noteq> [] \<and> m = ?a + span xs + SIZEOF_MM_ALLOCNODE"
    "node_frame (alloc_at ?a cs - {m - SIZEOF_MM_ALLOCNODE}) h h'"
    by (rule mm_free_task [OF ok bl env]) (rule that)
  obtain xs ys where sp: "cs = xs @ (True, s) # ys" "cs' = free_chunk xs s ys" "m = ?a + span xs + SIZEOF_MM_ALLOCNODE"
    using h'(4) by blast
  have "heap_inv h' cs' ds" by (rule mm_free_inv [OF inv bl m h'(2,3,5)])
  moreover have "coalesced cs'" using h'(2) by (simp add: heap_ok_def)
  moreover have "node_frame {} h h'" by (rule node_frame_mono [OF h'(5)]) simp
  ultimately show ?thesis using h'(1,3) sp by metis
qed

text \<open>Releasing the chunk \<open>mm_malloc\<close> took gives the chunks before.\<close>

lemma split_unique:
  assumes "xs @ c # ys = zs @ d # ws" "span xs = span zs" "\<forall>e \<in> set (xs @ c # ys). 0 < snd e"
  shows "xs = zs \<and> c = d \<and> ys = ws"
  using assms
proof (induction xs arbitrary: zs)
  case Nil
  then show ?case by (cases zs) auto
next
  case (Cons x xs)
  then show ?case by (cases zs) auto
qed

lemma take_free_chunk:
  assumes ok: "heap_ok h (xs @ (False, s) # ys)" and ne: "xs \<noteq> []" "ys \<noteq> []" and a: "a \<le> s" "0 < a"
    and sp: "take_chunk xs a s ys = zs @ (True, a) # ws" "span zs = span xs"
  shows "free_chunk zs a ws = xs @ (False, s) # ys"
proof -
  have so: "solid (xs @ (False, s) # ys)" using ok by (rule heap_ok_solid)
  note co = heap_ok_take_coalesced [OF ok ne]
  let ?ws = "(if a = s then [] else [(False, s - a)]) @ ys"
  have "xs @ (True, a) # ?ws = zs @ (True, a) # ws" using sp(1) by (auto simp: take_chunk_def split: if_splits)
  moreover have "\<forall>e \<in> set (xs @ (True, a) # ?ws). 0 < snd e"
  proof -
    have "\<forall>e \<in> set (xs @ (False, s) # ys). 0 < snd e" using so unfolding solid_def SIZEOF_MM_ALLOCNODE_def by fastforce
    then show ?thesis using a by auto
  qed
  ultimately have "zs = xs \<and> ws = ?ws" using split_unique [of xs "(True, a)" ?ws zs "(True, a)" ws] sp(2) by metis
  then show ?thesis
    using co(2,3) ne a by (auto simp: free_chunk_def merge_next_def merge_prev_def split: if_splits)
qed

lemma mm_rep_free:
  assumes rep: "mm_rep env a e h (xs @ (p, n) # ys)"
  shows "\<exists>h'. mm_free env h p = Some h' \<and> mm_rep env a e h' (xs @ ys)"
proof -
  let ?a = "mm_heapstart h" and ?live = "xs @ (p, n) # ys"
  obtain cs ds where ae: "mm_heapstart h = a" "mm_heapend h = e" and env: "sem_avail env h" "\<not> env_isr env" and di: "distinct (map fst ?live)"
    and cs: "heap_inv h cs ds" "{m. \<exists>s. (m, s) \<in> blocks ?a cs} = fst ` set ?live \<union> set ds"
      "fst ` set ?live \<inter> set ds = {}" "\<And>m n. (m, n) \<in> set ?live \<Longrightarrow> \<exists>s. (m, s) \<in> blocks ?a cs \<and> n + SIZEOF_MM_ALLOCNODE \<le> s"
    by (rule mm_repE [OF rep]) (rule that)
  have ok: "heap_ok h cs" using cs(1) by (simp add: heap_inv_def)
  obtain s where bl: "(p, s) \<in> blocks ?a cs" using cs(4) [of p n] by auto
  obtain h' cs' where h': "mm_free env h p = Some h'" "heap_ok h' cs'" "blocks ?a cs' = blocks ?a cs - {(p, s)}"
    "node_frame (alloc_at ?a cs - {p - SIZEOF_MM_ALLOCNODE}) h h'"
    by (rule mm_free_task [OF ok bl env]) (rule that)
  note fr = node_frameD [OF h'(4)]
  have un: "(p, t) \<in> blocks ?a cs \<longleftrightarrow> t = s" for t
    using blocks_functional [OF heap_ok_solid [OF ok] bl] bl by blast
  have other: "m \<noteq> p \<Longrightarrow> (m, t) \<in> blocks ?a cs' \<longleftrightarrow> (m, t) \<in> blocks ?a cs" for m t
    using h'(3) by auto
  have nd: "p \<notin> set ds" "p \<notin> fst ` set (xs @ ys)" using cs(3) di by auto
  have inv: "heap_inv h' cs' ds" by (rule mm_free_inv [OF cs(1) bl nd(1) h'(2-4)])
  have av: "sem_avail env h'" using env(1) fr sem_avail_cong [of h' h env] by simp
  have start: "mm_heapstart h' = a" "mm_heapend h' = e" using fr ae by simp_all
  have "{m. \<exists>s. (m, s) \<in> blocks ?a cs'} = {m. \<exists>s. (m, s) \<in> blocks ?a cs} - {p}"
    unfolding h'(3) using un by auto
  then have dom: "{m. \<exists>s. (m, s) \<in> blocks ?a cs'} = fst ` set (xs @ ys) \<union> set ds"
    unfolding cs(2) using nd by auto
  have live: "\<exists>s. (m, s) \<in> blocks ?a cs' \<and> k + SIZEOF_MM_ALLOCNODE \<le> s" if "(m, k) \<in> set (xs @ ys)" for m k
  proof -
    have "m \<noteq> p" using that nd by force
    then show ?thesis using cs(4) [of m k] that other by auto
  qed
  have "mm_rep env a e h' (xs @ ys)"
    by (rule mm_repI [OF start av env(2) _ inv]) (use di dom live cs(3) start ae in auto)
  with h'(1) show ?thesis by blast
qed

lemma mm_rep_apart:
  assumes "mm_rep env a e h live"
  shows "apart live"
proof -
  obtain cs ds where cs: "heap_inv h cs ds" "distinct (map fst live)"
      "\<And>m n. (m, n) \<in> set live \<Longrightarrow> \<exists>s. (m, s) \<in> blocks (mm_heapstart h) cs \<and> n + SIZEOF_MM_ALLOCNODE \<le> s"
    by (rule mm_repE [OF assms]) (rule that)
  have so: "solid cs" using cs(1) heap_ok_solid by (auto simp: heap_inv_def)
  have dis: "{m..<m + n} \<inter> {m'..<m' + n'} = {}" if mem: "(m, n) \<in> set live" "(m', n') \<in> set live" "m \<noteq> m'" for m n m' n'
  proof -
    obtain s s' where s: "(m, s) \<in> blocks (mm_heapstart h) cs" "(m', s') \<in> blocks (mm_heapstart h) cs"
      "n + SIZEOF_MM_ALLOCNODE \<le> s" "n' + SIZEOF_MM_ALLOCNODE \<le> s'"
      using cs(3) [OF mem(1)] cs(3) [OF mem(2)] by blast
    show ?thesis using blocks_disjoint [OF so s(1,2) mem(3)] s(3,4) by auto
  qed
  have dis: "{fst b..<fst b + snd b} \<inter> {fst c..<fst c + snd c} = {}" if "b \<in> set live" "c \<in> set live" "fst b \<noteq> fst c" for b c
    using dis [of "fst b" "snd b" "fst c" "snd c"] that by simp
  have "sorted_wrt (\<lambda>b c. fst b \<noteq> fst c) live"
    using cs(2) by (simp add: distinct_conv_nth sorted_wrt_iff_nth_less)
  then show ?thesis
    unfolding apart_def by (rule sorted_wrt_mono_rel [rotated]) (rule dis)
qed

interpretation mm: allocator "mm_rep env a e" "mm_malloc env" "\<lambda>h p n. mm_free env h p" mm_accepts for env a e
  by unfold_locales (use mm_rep_malloc mm_rep_free mm_rep_apart in blast)+

text \<open>Where the blocks of clients are.\<close>

lemma geom_mids:
  assumes "wf_chunks (xs @ c # ys)" "xs \<noteq> []" "ys \<noteq> []"
  shows "MM_MIN_CHUNK dvd span xs + SIZEOF_MM_ALLOCNODE"
proof -
  obtain x xs' y ys' where sp: "xs = x # xs'" "ys = ys' @ [y]"
    using assms(2,3) by (metis list.exhaust rev_exhaust)
  obtain mid where mid: "xs @ c # ys = guard # mid @ [guard]" "\<forall>c \<in> set mid. chunk_ok c"
    using assms(1) by (auto simp: wf_chunks_def)
  have x: "x = guard" "(xs' @ c # ys') @ [y] = mid @ [guard]" using mid(1) sp by auto
  then have "mid = xs' @ c # ys'" by (simp only: append1_eq_conv)
  then have "\<forall>c \<in> set xs'. MM_MIN_CHUNK dvd snd c" using mid(2) by (simp add: chunk_ok_def)
  then have "MM_MIN_CHUNK dvd span xs'" by (induction xs') auto
  moreover have "span xs + SIZEOF_MM_ALLOCNODE = span xs' + MM_MIN_CHUNK" using sp x by (simp add: guard_def mm_consts)
  ultimately show ?thesis by simp
qed

lemma blocks_place:
  assumes ok: "heap_ok h cs" and bl: "(m, s) \<in> blocks (mm_heapstart h) cs"
  shows "MM_MIN_CHUNK dvd m" "mm_heapstart h < m" "m + s < mm_heapend h + 2 * SIZEOF_MM_ALLOCNODE"
proof -
  have g: "geom h cs" using ok by (simp add: heap_ok_def heap_pre_def)
  obtain xs ys where cs: "cs = xs @ (True, s) # ys" "xs \<noteq> []" "ys \<noteq> []" "m = mm_heapstart h + span xs + SIZEOF_MM_ALLOCNODE"
    using blocks_split [OF bl] by metis
  have "MM_MIN_CHUNK dvd span xs + SIZEOF_MM_ALLOCNODE"
    using geom_mids [of xs "(True, s)" ys] g cs by (simp add: geom_def)
  moreover have "MM_MIN_CHUNK dvd mm_heapstart h" using g by (simp add: geom_def)
  ultimately show "MM_MIN_CHUNK dvd m" unfolding cs(4) add.assoc by (rule dvd_add [rotated])
  show "mm_heapstart h < m" "m + s < mm_heapend h + 2 * SIZEOF_MM_ALLOCNODE"
    using blocks_range [OF heap_ok_solid [OF ok] bl] g
    by (auto simp: geom_def mm_consts cs(4))
qed

lemma mm_rep_initial:
  assumes "region_ok (mm_nodelist h) start n" "0 \<le> env_pid env" "\<not> env_isr env"
  obtains h0 where "mm_initialize env h start n = Some h0"
    "mm_rep env (region_base start) (region_end start n - SIZEOF_MM_ALLOCNODE) h0 []"
proof -
  obtain h0 where h0: "mm_initialize env h start n = Some h0" "heap_inv h0 (initial_chunks start n) []"
    "mm_heapstart h0 = region_base start" "mm_heapend h0 = region_end start n - SIZEOF_MM_ALLOCNODE"
    "mm_semcount h0 = 1" "mm_holder h0 = NO_HOLDER" "mm_counts_held h0 = 0"
    by (rule mm_initialize_ok [OF assms(1,2)]) (rule that)
  have av: "sem_avail env h0" using h0 assms(2) by (simp add: sem_avail_def SEM_VALUE_MAX_def)
  have "blocks (region_base start) (initial_chunks start n) = {}"
    by (auto simp: blocks_def initial_chunks_def guard_def)
  then have "mm_rep env (region_base start) (region_end start n - SIZEOF_MM_ALLOCNODE) h0 []"
    using mm_repI [OF h0(3,4) av assms(3) _ h0(2), of "[]"] h0(3) by simp
  with h0(1) show ?thesis by (rule that)
qed

section \<open>Properties\<close>

text \<open>A heap to run the operations on: the array \<open>mm_nodelist\<close> at \<open>0x100\<close>, all memory zero.\<close>

definition demo_env :: mm_env where
  "demo_env = \<lparr>env_pid = 2, env_isr = False, env_idle = False\<rparr>"

definition demo_heap :: mm_heap_s where
  "demo_heap = \<lparr>mm_semcount = 0, mm_holder = 0, mm_counts_held = 0, mm_heapsize = 0, mm_heapstart = 0, mm_heapend = 0,
     mm_nodelist = 0x100, mm_delaylist = 0, nd_size = (\<lambda>_. 0), nd_preceding = (\<lambda>_. 0), nd_flink = (\<lambda>_. 0),
     nd_blink = (\<lambda>_. 0), mm_bytes = (\<lambda>_. 0)\<rparr>"

lemma demo_region: "region_ok (mm_nodelist demo_heap) 0x1000 0x400" "0 \<le> env_pid demo_env" "\<not> env_isr demo_env"
  "region_base 0x1000 = 0x1000" "region_end 0x1000 0x400 = 0x1400"
  by (simp_all add: region_ok_def region_base_def region_end_def demo_heap_def demo_env_def mm_consts MM_ALLOC_BIT_def)

lemma demo_initial: "initial_chunks 0x1000 0x400 = [guard, (False, 0x3f0), guard]"
  by (simp add: initial_chunks_def demo_region mm_consts)

text \<open>
  C19. Safety of the heap for its clients: after \<open>mm_initialize\<close> on a usable region, any sequence of \<open>mm_malloc\<close>
  and \<open>mm_free\<close> calls of clients that release only blocks they hold runs to its end (no loop over the
  lists runs forever and no task blocks), the chunks of the heap are well formed after it, and the live blocks, with the
  lengths the clients asked for, lie inside the region, are aligned to \<open>MM_MIN_CHUNK\<close> and do not overlap.
\<close>

theorem mm_client_safe:
  assumes "region_ok (mm_nodelist h) start n" "0 \<le> env_pid env" "\<not> env_isr env" "list_all (request_in mm_accepts) es"
  shows "\<exists>h0 h' live. mm_initialize env h start n = Some h0 \<and>
    alloc_run (mm_malloc env) (\<lambda>h p n. mm_free env h p) es (h0, []) = Some (h', live) \<and>
    (\<exists>cs. heap_ok h' cs) \<and> apart live \<and>
    (\<forall>(p, k) \<in> set live. MM_MIN_CHUNK dvd p \<and> region_base start < p \<and> p + k \<le> region_end start n)"
proof -
  let ?a = "region_base start" and ?e = "region_end start n - SIZEOF_MM_ALLOCNODE"
  obtain h0 where h0: "mm_initialize env h start n = Some h0" "mm_rep env ?a ?e h0 []"
    by (rule mm_rep_initial [OF assms(1-3)]) (rule that)
  obtain h' live where run: "alloc_run (mm_malloc env) (\<lambda>h p n. mm_free env h p) es (h0, []) = Some (h', live)"
      "mm_rep env ?a ?e h' live" "apart live"
    using mm.run_rep [OF h0(2) assms(4)] by blast
  obtain cs ds where cs: "mm_heapstart h' = ?a" "mm_heapend h' = ?e" "heap_inv h' cs ds"
    "\<And>m n. (m, n) \<in> set live \<Longrightarrow> \<exists>s. (m, s) \<in> blocks (mm_heapstart h') cs \<and> n + SIZEOF_MM_ALLOCNODE \<le> s"
    by (rule mm_repE [OF run(2)]) (rule that)
  have ok: "heap_ok h' cs" using cs(3) by (simp add: heap_inv_def)
  have "MM_MIN_CHUNK dvd p \<and> ?a < p \<and> p + k \<le> region_end start n" if pk: "(p, k) \<in> set live" for p k
  proof -
    obtain s where s: "(p, s) \<in> blocks (mm_heapstart h') cs" "k + SIZEOF_MM_ALLOCNODE \<le> s" using cs(4) [OF pk] by blast
    show ?thesis using blocks_place [OF ok s(1)] s(2) cs(1,2) region_facts(6) [OF assms(1)] by (simp add: mm_consts)
  qed
  then show ?thesis using h0(1) run(1,3) ok by blast
qed

theorem mm_client_safe_witness:
  "\<exists>h0 h' live. mm_initialize demo_env demo_heap 0x1000 0x400 = Some h0 \<and>
     alloc_run (mm_malloc demo_env) (\<lambda>h p n. mm_free demo_env h p) [Request 100, Request 40, Release 0, Request 24] (h0, [])
       = Some (h', live) \<and>
     (\<exists>cs. heap_ok h' cs) \<and> apart live \<and> (\<forall>(p, k) \<in> set live. MM_MIN_CHUNK dvd p \<and> 0x1000 < p \<and> p + k \<le> 0x1400)"
  using mm_client_safe [OF demo_region(1-3), of "[Request 100, Request 40, Release 0, Request 24]"]
  by (simp add: demo_region mm_accepts_def MALLOC_MAX_def mm_consts)

lemma demo_start:
  obtains h0 where "mm_initialize demo_env demo_heap 0x1000 0x400 = Some h0"
    "heap_inv h0 [guard, (False, 0x3f0), guard] []" "sem_avail demo_env h0" "mm_heapstart h0 = 0x1000" "mm_heapend h0 = 0x13f8"
    "mm_nodelist h0 = 0x100"
proof -
  obtain h0 where h0: "mm_initialize demo_env demo_heap 0x1000 0x400 = Some h0" "heap_inv h0 (initial_chunks 0x1000 0x400) []"
    "mm_heapstart h0 = region_base 0x1000" "mm_heapend h0 = region_end 0x1000 0x400 - SIZEOF_MM_ALLOCNODE"
    "mm_semcount h0 = 1" "mm_holder h0 = NO_HOLDER" "mm_counts_held h0 = 0" "mm_nodelist h0 = mm_nodelist demo_heap"
    by (rule mm_initialize_ok [OF demo_region(1,2)]) (rule that)
  have "sem_avail demo_env h0" using h0 demo_region(2) by (simp add: sem_avail_def SEM_VALUE_MAX_def)
  then show ?thesis using h0 that by (simp add: demo_initial demo_region demo_heap_def mm_consts)
qed

lemma demo_malloc:
  assumes "heap_inv h0 [guard, (False, 0x3f0), guard] []" "sem_avail demo_env h0" "0 < n" "n \<le> 0x3e8"
  obtains ret h1 cs' where "mm_malloc demo_env h0 n = Some (ret, h1)" "ret \<noteq> NULL" "heap_inv h1 cs' []"
    "(ret, chunk_size n) \<in> blocks (mm_heapstart h1) cs'" "sem_avail demo_env h1"
proof -
  have n: "n \<le> MALLOC_MAX" using assms(4) by (simp add: MALLOC_MAX_def mm_consts)
  obtain ret h1 cs1 cs' where m: "mm_malloc demo_env h0 n = Some (ret, h1)"
      "freed (mm_heapstart h0) [guard, (False, 0x3f0), guard] [] cs1"
      "malloc_post (chunk_size n) (mm_heapstart h0) cs1 ret cs'" "heap_inv h1 cs' []"
      "node_frame {} (h0\<lparr>mm_delaylist := NULL\<rparr>) h1" "solid cs1"
    by (rule mm_malloc_ok [OF assms(1,2) demo_region(3) assms(3) n]) (rule that)
  note fr = node_frameD [OF m(5)]
  have "chunk_size n \<le> 0x3f0" using assms(4) by (simp add: chunk_size_def mm_consts)
  then have "\<not> (\<forall>s. (False, s) \<in> set cs1 \<longrightarrow> s < chunk_size n)" using m(2) by auto
  then have "ret \<noteq> NULL" using m(3) unfolding malloc_post_def by argo
  moreover from this have "(ret, chunk_size n) \<in> blocks (mm_heapstart h1) cs'"
    using malloc_post_blocks(1) [OF m(3,6) chunk_size_bounds(4) [OF assms(3)]] fr by simp
  moreover have "sem_avail demo_env h1" using assms(2) fr sem_avail_cong [of h1 h0 demo_env] by simp
  ultimately show ?thesis using that m(1,4) by blast
qed

lemma demo_block:
  obtains h1 ret cs where "heap_inv h1 cs []" "(ret, 112) \<in> blocks (mm_heapstart h1) cs" "sem_avail demo_env h1"
proof -
  obtain h0 where h0: "heap_inv h0 [guard, (False, 0x3f0), guard] []" "sem_avail demo_env h0"
    by (rule demo_start) (rule that)
  obtain h1 ret cs where "heap_inv h1 cs []" "(ret, chunk_size 100) \<in> blocks (mm_heapstart h1) cs" "sem_avail demo_env h1"
    by (rule demo_malloc [OF h0, of 100]) (simp, simp, rule that)
  then show ?thesis using that by (simp add: chunk_size_def mm_consts)
qed

text \<open>
  C20. \<open>mm_malloc\<close> is best fit: called by a task on a well-formed heap with the chunks \<open>cs\<close> and no delayed release, it
  returns \<open>NULL\<close> and leaves the chunks alone exactly when every free chunk is smaller than the aligned
  size of the request with its header. Otherwise it takes a smallest free chunk that is large enough, returns
  the address after its header, and puts what is left of the chunk back as a free chunk. The contents of all blocks, the
  semaphore and the bounds of the heap are as before, and the heap is well formed again.
\<close>

theorem mm_malloc_best_fit:
  assumes inv: "heap_inv h cs []" and env: "sem_avail env h" "\<not> env_isr env" and n: "0 < n" "n \<le> MALLOC_MAX"
  shows "\<exists>ret h' cs'. mm_malloc env h n = Some (ret, h') \<and> heap_inv h' cs' [] \<and> node_frame {} h h' \<and>
    (if \<forall>s. (False, s) \<in> set cs \<longrightarrow> s < chunk_size n then ret = NULL \<and> cs' = cs
     else \<exists>xs s ys. cs = xs @ (False, s) # ys \<and> chunk_size n \<le> s \<and>
            (\<forall>t. (False, t) \<in> set cs \<longrightarrow> chunk_size n \<le> t \<longrightarrow> s \<le> t) \<and>
            ret = mm_heapstart h + span xs + SIZEOF_MM_ALLOCNODE \<and>
            cs' = xs @ (if chunk_size n = s then [(True, s)] else [(True, chunk_size n), (False, s - chunk_size n)]) @ ys)"
proof -
  obtain ret h' cs1 cs' where m: "mm_malloc env h n = Some (ret, h')" "freed (mm_heapstart h) cs [] cs1"
    "malloc_post (chunk_size n) (mm_heapstart h) cs1 ret cs'" "heap_inv h' cs' []" "node_frame {} (h\<lparr>mm_delaylist := NULL\<rparr>) h'"
    by (rule mm_malloc_ok [OF inv env n]) (rule that)
  have "mm_delaylist h = NULL" using inv by (simp add: heap_inv_def delay_chain_def)
  then have fr: "node_frame {} h h'" using m(5) by (cases h) simp
  have cs1: "cs1 = cs" using m(2) by simp
  show ?thesis
  proof (cases "ret = NULL")
    case True
    then have "\<forall>s. (False, s) \<in> set cs \<longrightarrow> s < chunk_size n" "cs' = cs" using m(3) cs1 by (auto simp: malloc_post_def)
    then show ?thesis using m(1,4) fr True by simp
  next
    case False
    then obtain xs s ys where sp: "cs = xs @ (False, s) # ys" "cs' = take_chunk xs (chunk_size n) s ys" "chunk_size n \<le> s"
        "ret = mm_heapstart h + span xs + SIZEOF_MM_ALLOCNODE" "\<forall>t. (False, t) \<in> set cs \<longrightarrow> chunk_size n \<le> t \<longrightarrow> s \<le> t"
      using m(3) unfolding cs1 malloc_post_def by auto
    then have "\<not> (\<forall>s. (False, s) \<in> set cs \<longrightarrow> s < chunk_size n)"
      by (metis in_set_conv_decomp not_less)
    then show ?thesis using m(1,4) fr sp unfolding take_chunk_def by metis
  qed
qed

theorem mm_malloc_best_fit_witness:
  "\<exists>h ret h' cs'. heap_inv h [guard, (False, 0x3f0), guard] [] \<and> mm_malloc demo_env h 100 = Some (ret, h') \<and>
     heap_inv h' cs' [] \<and> ret \<noteq> NULL"
proof -
  obtain h0 where h0: "heap_inv h0 [guard, (False, 0x3f0), guard] []" "sem_avail demo_env h0"
    by (rule demo_start) (rule that)
  have n: "chunk_size 100 = 112" "100 \<le> MALLOC_MAX" "0 < (100 :: nat)"
    by (simp_all add: chunk_size_def MALLOC_MAX_def mm_consts)
  have big: "\<not> (\<forall>s. (False, s) \<in> set [guard, (False, 0x3f0), guard] \<longrightarrow> s < chunk_size 100)"
    by (auto simp: n)
  obtain ret h' cs' xs where "mm_malloc demo_env h0 100 = Some (ret, h')" "heap_inv h' cs' []"
      "ret = mm_heapstart h0 + span xs + SIZEOF_MM_ALLOCNODE"
    using mm_malloc_best_fit [OF h0 demo_region(3) n(3,2), unfolded if_not_P [OF big]] by blast
  moreover from this(3) have "ret \<noteq> NULL" by (simp add: mm_consts)
  ultimately show ?thesis using h0(1) by blast
qed

text \<open>
  C21. \<open>mm_free\<close> from a task refines the release of a chunk in the list of chunks: the chunk of the block is marked free and
  merged with a free chunk after it and a free chunk before it, so that no two free chunks are neighbours, and the
  other blocks, the delayed releases, the contents of memory and the semaphore stay as they were.
\<close>

theorem mm_free_refines:
  assumes inv: "heap_inv h cs ds" and bl: "(m, s) \<in> blocks (mm_heapstart h) cs" and m: "m \<notin> set ds"
    and env: "sem_avail env h" "\<not> env_isr env"
  shows "\<exists>h' xs ys. mm_free env h m = Some h' \<and> cs = xs @ (True, s) # ys \<and>
    m = mm_heapstart h + span xs + SIZEOF_MM_ALLOCNODE \<and> heap_inv h' (free_chunk xs s ys) ds \<and>
    coalesced (free_chunk xs s ys) \<and> node_frame {} h h' \<and>
    blocks (mm_heapstart h) (free_chunk xs s ys) = blocks (mm_heapstart h) cs - {(m, s)}"
  by (rule mm_free_chunk [OF assms])

theorem mm_free_refines_witness:
  "\<exists>h1 ret h2 cs xs ys. heap_inv h1 cs [] \<and> (ret, 112) \<in> blocks (mm_heapstart h1) cs \<and> mm_free demo_env h1 ret = Some h2 \<and>
     cs = xs @ (True, 112) # ys \<and> heap_inv h2 (free_chunk xs 112 ys) []"
proof -
  obtain h1 ret cs where m: "heap_inv h1 cs []" "(ret, 112) \<in> blocks (mm_heapstart h1) cs" "sem_avail demo_env h1"
    by (rule demo_block) (rule that)
  have "ret \<notin> set []" by simp
  from mm_free_refines [OF m(1,2) this m(3) demo_region(3)] obtain h2 xs ys where
    "mm_free demo_env h1 ret = Some h2" "cs = xs @ (True, 112) # ys" "heap_inv h2 (free_chunk xs 112 ys) []"
    by (elim exE conjE) (rule that)
  with m(1,2) show ?thesis by (intro exI conjI)
qed

text \<open>
  C22. Round trip: a block that \<open>mm_malloc\<close> returned and \<open>mm_free\<close> gives back leaves the chunks of the heap exactly as they
  were before the request.
\<close>

theorem mm_malloc_free_roundtrip:
  assumes inv: "heap_inv h cs []" and env: "sem_avail env h" "\<not> env_isr env" and n: "0 < n" "n \<le> MALLOC_MAX"
    and ma: "mm_malloc env h n = Some (ret, h1)"
  shows "\<exists>h2. mm_free env h1 ret = Some h2 \<and> heap_inv h2 cs [] \<and> node_frame {} h h2"
proof -
  let ?a = "mm_heapstart h" and ?s = "chunk_size n"
  obtain cs1 cs' where m: "freed ?a cs [] cs1" "malloc_post ?s ?a cs1 ret cs'" "heap_inv h1 cs' []"
      "node_frame {} (h\<lparr>mm_delaylist := NULL\<rparr>) h1" "solid cs1"
    by (rule mm_malloc_ok [OF inv env n, unfolded ma option.inject prod.inject]) (metis that)
  have "mm_delaylist h = NULL" using inv by (simp add: heap_inv_def delay_chain_def)
  then have fr: "node_frame {} h h1" using m(4) by (cases h) simp
  have cs1: "cs1 = cs" using m(1) by simp
  show ?thesis
  proof (cases "ret = NULL")
    case True
    then show ?thesis using m(2,3) fr cs1 by (simp add: mm_free_def malloc_post_def)
  next
    case False
    then obtain xs s ys where sp: "cs = xs @ (False, s) # ys" "cs' = take_chunk xs ?s s ys" "xs \<noteq> []" "ys \<noteq> []" "?s \<le> s"
        "ret = ?a + span xs + SIZEOF_MM_ALLOCNODE"
      using m(2) unfolding cs1 malloc_post_def by auto
    have ok: "heap_ok h (xs @ (False, s) # ys)" using inv sp(1) by (simp add: heap_inv_def)
    have a: "mm_heapstart h1 = ?a" using node_frameD [OF fr] by simp
    have bl: "(ret, ?s) \<in> blocks (mm_heapstart h1) cs'"
      using malloc_post_blocks(1) [OF m(2,5) chunk_size_bounds(4) [OF n(1)]] False a by simp
    have av: "sem_avail env h1" using env(1) node_frameD [OF fr] sem_avail_cong [of h1 h env] by simp
    have "ret \<notin> set []" by simp
    then obtain h2 zs ws where h2: "mm_free env h1 ret = Some h2" "cs' = zs @ (True, ?s) # ws"
        "ret = mm_heapstart h1 + span zs + SIZEOF_MM_ALLOCNODE" "heap_inv h2 (free_chunk zs ?s ws) []" "node_frame {} h1 h2"
      using mm_free_chunk [OF m(3) bl _ av env(2)] by blast
    have "span zs = span xs" using h2(3) sp(6) a by simp
    then have "free_chunk zs ?s ws = cs"
      using take_free_chunk [OF ok sp(3-5) chunk_size_bounds(4) [OF n(1)] h2(2) [unfolded sp(2)]] sp(1) by simp
    then show ?thesis using h2(1,4) node_frame_trans [OF fr h2(5)] by auto
  qed
qed

theorem mm_malloc_free_roundtrip_witness:
  "\<exists>h ret h1 h2. heap_inv h [guard, (False, 0x3f0), guard] [] \<and> mm_malloc demo_env h 100 = Some (ret, h1) \<and>
     mm_free demo_env h1 ret = Some h2 \<and> heap_inv h2 [guard, (False, 0x3f0), guard] []"
proof -
  obtain h0 where h0: "heap_inv h0 [guard, (False, 0x3f0), guard] []" "sem_avail demo_env h0"
    by (rule demo_start) (rule that)
  have n: "0 < (100 :: nat)" "100 \<le> MALLOC_MAX" by (simp_all add: MALLOC_MAX_def mm_consts)
  obtain ret h1 where ma: "mm_malloc demo_env h0 100 = Some (ret, h1)"
    by (rule demo_malloc [OF h0 n(1)]) (simp, rule that)
  show ?thesis using mm_malloc_free_roundtrip [OF h0 demo_region(3) n ma] h0(1) ma by blast
qed

text \<open>
  C23. A release from an interrupt handler is delayed and not lost: \<open>mm_free\<close> does not touch the chunks
  nor the semaphore and only puts the block on the list of delayed releases, and the next \<open>mm_malloc\<close> of a task
  first releases all delayed blocks, the last one first, and then takes its chunk from what is free after that.
\<close>

theorem mm_free_isr_delayed:
  assumes inv: "heap_inv h cs ds" and bl: "(m, s) \<in> blocks (mm_heapstart h) cs" and m: "m \<notin> set ds" and isr: "env_isr env"
    and task: "sem_avail env' h" "\<not> env_isr env'" and n: "0 < n" "n \<le> MALLOC_MAX"
  shows "\<exists>h1 ret h2 cs1 cs'. mm_free env h m = Some h1 \<and> heap_inv h1 cs (m # ds) \<and>
    mm_semcount h1 = mm_semcount h \<and> nd_size h1 = nd_size h \<and> nd_preceding h1 = nd_preceding h \<and>
    mm_malloc env' h1 n = Some (ret, h2) \<and> freed (mm_heapstart h) cs (m # ds) cs1 \<and>
    blocks (mm_heapstart h) cs1 = blocks (mm_heapstart h) cs - {b. fst b \<in> set (m # ds)} \<and>
    malloc_post (chunk_size n) (mm_heapstart h) cs1 ret cs' \<and> heap_inv h2 cs' []"
proof -
  let ?h = "mm_add_delaylist h m"
  note d = mm_free_delay [OF inv bl m]
  have "m \<noteq> NULL" using bl by (auto simp: blocks_def mm_consts)
  then have f: "mm_free env h m = Some ?h" using isr by (simp add: mm_free_def)
  have av: "sem_avail env' ?h" using task(1) by (simp add: sem_avail_def mm_add_delaylist_def Let_def)
  have eq: "mm_semcount ?h = mm_semcount h" "nd_size ?h = nd_size h" "nd_preceding ?h = nd_preceding h"
    by (simp_all add: mm_add_delaylist_def Let_def)
  obtain ret h2 cs1 cs' where r: "mm_malloc env' ?h n = Some (ret, h2)" "freed (mm_heapstart ?h) cs (m # ds) cs1"
    "blocks (mm_heapstart ?h) cs1 = blocks (mm_heapstart ?h) cs - {b. fst b \<in> set (m # ds)}"
    "malloc_post (chunk_size n) (mm_heapstart ?h) cs1 ret cs'" "heap_inv h2 cs' []"
    by (rule mm_malloc_ok [OF d(1) av task(2) n]) (rule that)
  show ?thesis
    by (intro exI conjI) (rule f d(1) eq r(1) r(2) [unfolded d(2)] r(3) [unfolded d(2)] r(4) [unfolded d(2)] r(5))+
qed

theorem mm_free_isr_delayed_witness:
  "\<exists>h ret cs h1 ret' h2 cs'. heap_inv h cs [] \<and> mm_free (demo_env\<lparr>env_isr := True\<rparr>) h ret = Some h1 \<and> heap_inv h1 cs [ret] \<and>
     mm_malloc demo_env h1 100 = Some (ret', h2) \<and> heap_inv h2 cs' []"
proof -
  obtain h ret cs where m: "heap_inv h cs []" "(ret, 112) \<in> blocks (mm_heapstart h) cs" "sem_avail demo_env h"
    by (rule demo_block) (rule that)
  have n: "0 < (100 :: nat)" "100 \<le> MALLOC_MAX" "ret \<notin> set []" "env_isr (demo_env\<lparr>env_isr := True\<rparr>)"
    by (simp_all add: MALLOC_MAX_def mm_consts)
  from mm_free_isr_delayed [OF m(1,2) n(3,4) m(3) demo_region(3) n(1,2)] obtain h1 ret' h2 cs'
    where "mm_free (demo_env\<lparr>env_isr := True\<rparr>) h ret = Some h1" "heap_inv h1 cs [ret]"
      "mm_malloc demo_env h1 100 = Some (ret', h2)" "heap_inv h2 cs' []"
    by (elim exE conjE) (rule that)
  with m(1) show ?thesis by (intro exI conjI)
qed



end
