(* ===== verification/Mm_Info.thy ===== *)
theory Mm_Info
  imports Mm_Client
begin

unbundle bit_operations_syntax

text \<open>
  What the heap tells about itself (\<open>mm_mallinfo\<close>, \<open>mm_heapmember\<close>, \<open>malloc_usable_size\<close>) and the
  allocation of cleared memory (\<open>mm_calloc\<close>, \<open>mm_zalloc\<close>).
\<close>

section \<open>Walking over the chunks\<close>

abbreviation free_list :: "chunk list \<Rightarrow> nat list" where
  "free_list cs \<equiv> map snd (filter (\<lambda>c. \<not> fst c) cs)"

abbreviation used_list :: "chunk list \<Rightarrow> nat list" where
  "used_list cs \<equiv> map snd (filter fst cs)"

lemma span_parts: "sum_list (used_list cs) + sum_list (free_list cs) = span cs"
  by (induction cs) auto

lemma mm_mallinfo_loop_ok:
  assumes "tile (nd_size h) (nd_preceding h) a p (cs @ [e])" "solid cs" "mm_heapend h = a + span cs"
    "span cs < MM_ALLOC_BIT" "p < MM_ALLOC_BIT"
  shows "mm_mallinfo_loop h a mx k u f =
    Some (fold max (free_list cs) mx, k + length (free_list cs), u + sum_list (used_list cs), f + sum_list (free_list cs))"
  using assms
proof (induction cs arbitrary: a p mx k u f)
  case Nil
  then show ?case by (simp add: mm_mallinfo_loop.simps)
next
  case (Cons c cs)
  have "a < mm_heapend h" using Cons.prems(2,3) by (simp add: mm_consts)
  moreover have "nd_preceding h a AND MM_ALLOC_BIT \<noteq> 0 \<longleftrightarrow> fst c" "nd_size h a = snd c"
    using Cons.prems(1,5) by (simp_all add: penc_simps)
  moreover have "(if mx < s then s else mx) = max s mx" for s :: nat by auto
  moreover note Cons.IH [of "a + snd c" "snd c"]
  ultimately show ?case
    using Cons.prems by (subst mm_mallinfo_loop.simps) (simp add: add.assoc)
qed

text \<open>
  C25. \<open>mm_mallinfo\<close> is exact and its walk ends: on a well-formed heap with the chunks \<open>cs\<close> it reports the number of free
  chunks, the largest of them, and the bytes in free and in allocated chunks (the two guard nodes included), which
  add up to the extent of the heap; the heap, its semaphore included, is as before.
\<close>

theorem mm_mallinfo_exact:
  assumes inv: "heap_inv h cs ds" and env: "sem_avail env h"
  shows "\<exists>info. mm_mallinfo env h = Some (info, h) \<and> mi_arena info = mm_heapsize h \<and>
    mi_ordblks info = length (free_list cs) \<and> mi_mxordblk info = fold max (free_list cs) 0 \<and>
    mi_uordblks info = sum_list (used_list cs) \<and> mi_fordblks info = sum_list (free_list cs) \<and>
    mm_heapstart h + mi_uordblks info + mi_fordblks info = mm_heapend h + SIZEOF_MM_ALLOCNODE"
proof -
  have pre: "heap_pre h cs (free_at (mm_heapstart h) cs)" using inv by (simp add: heap_inv_def heap_ok_def)
  then obtain mid where mid: "cs = (guard # mid) @ [guard]"
    unfolding heap_pre_def geom_def wf_chunks_def by auto
  let ?cs = "guard # mid"
  obtain c p n where sem: "mm_takesemaphore env h = Some (h\<lparr>mm_semcount := c, mm_holder := p, mm_counts_held := n\<rparr>)"
    "\<And>h'. mm_semcount h' = c \<Longrightarrow> mm_holder h' = p \<Longrightarrow> mm_counts_held h' = n \<Longrightarrow>
       mm_givesemaphore h' = h'\<lparr>mm_semcount := mm_semcount h, mm_holder := mm_holder h, mm_counts_held := mm_counts_held h\<rparr>"
    by (rule sem_avail_take [OF env]) (rule that)
  let ?l = "h\<lparr>mm_semcount := c, mm_holder := p, mm_counts_held := n\<rparr>"
  have give: "mm_givesemaphore ?l = h" using sem(2) [of ?l] by simp
  have g: "mm_heapend h + SIZEOF_MM_ALLOCNODE = mm_heapstart h + span cs" "span cs < MM_ALLOC_BIT"
    "tile (nd_size ?l) (nd_preceding ?l) (mm_heapstart h) 0 (?cs @ [guard])" "solid ?cs"
    using pre heap_pre_solid [OF pre] mid by (auto simp: heap_pre_def geom_def)
  have sp: "mm_heapend ?l = mm_heapstart h + span ?cs" "span ?cs < MM_ALLOC_BIT" using g(1,2) mid by (auto simp: guard_def)
  have "mm_mallinfo_loop ?l (mm_heapstart h) 0 0 0 0 =
      Some (fold max (free_list ?cs) 0, length (free_list ?cs), sum_list (used_list ?cs), sum_list (free_list ?cs))"
    using mm_mallinfo_loop_ok [OF g(3,4) sp, of 0 0 0 0] by simp
  moreover have "free_list cs = free_list ?cs" "sum_list (used_list cs) = sum_list (used_list ?cs) + SIZEOF_MM_ALLOCNODE"
    using mid by (simp_all add: guard_def)
  ultimately show ?thesis
    using sem(1) give g(1) span_parts [of cs] by (simp add: mm_mallinfo_def)
qed

theorem mm_mallinfo_exact_witness:
  "\<exists>h info. heap_inv h [guard, (False, 0x3f0), guard] [] \<and> mm_mallinfo demo_env h = Some (info, h) \<and>
     mi_ordblks info = 1 \<and> mi_mxordblk info = 0x3f0 \<and> mi_uordblks info = 16 \<and> mi_fordblks info = 0x3f0"
proof -
  obtain h where h: "heap_inv h [guard, (False, 0x3f0), guard] []" "sem_avail demo_env h"
    by (rule demo_start) (rule that)
  from mm_mallinfo_exact [OF h] show ?thesis using h(1) by (auto simp: guard_def mm_consts)
qed

section \<open>Cleared memory\<close>



end
