(* ===== verification/Mm_Align.thy ===== *)
theory Mm_Align
  imports Mm_Info
begin

unbundle bit_operations_syntax

text \<open>
  Cutting chunks: \<open>mm_shrinkchunk\<close> and \<open>mm_memalign\<close>, and how the blocks of callers change with the chunks.
\<close>

section \<open>Blocks and the semaphore\<close>

text \<open>The blocks of callers when the chunks \<open>us\<close> are cut anew into \<open>vs\<close>.\<close>

definition mems :: "ptr \<Rightarrow> chunk list \<Rightarrow> (ptr \<times> nat) set" where
  "mems a cs = (\<lambda>(p, s). (p + SIZEOF_MM_ALLOCNODE, s)) ` alloc_locs a cs"

lemma mems_simps [simp]:
  "mems a [] = {}"
  "mems a (c # cs) = (if fst c then {(a + SIZEOF_MM_ALLOCNODE, snd c)} else {}) \<union> mems (a + snd c) cs"
  "mems a (xs @ ys) = mems a xs \<union> mems (a + span xs) ys"
  by (auto simp: mems_def)

lemma solid_pos: "solid cs \<Longrightarrow> c \<in> set cs \<Longrightarrow> 0 < snd c"
  unfolding solid_def SIZEOF_MM_ALLOCNODE_def by fastforce

lemma alloc_locs_pos:
  "(p, t) \<in> alloc_locs b cs \<Longrightarrow> \<forall>c \<in> set cs. 0 < snd c \<Longrightarrow> b \<le> p \<and> p + t \<le> b + span cs \<and> 0 < t"
  by (induction cs arbitrary: b) (auto split: if_splits, fastforce+)

lemma blocks_mems:
  assumes so: "solid xs" "solid ys" and vs: "\<forall>c \<in> set vs. 0 < snd c" and ne: "xs \<noteq> []" "ys \<noteq> []"
  shows "(m, s) \<in> blocks a (xs @ vs @ ys) \<longleftrightarrow>
     (m, s) \<in> mems a xs \<and> m \<noteq> a + SIZEOF_MM_ALLOCNODE \<or> (m, s) \<in> mems (a + span xs) vs \<or>
     (m, s) \<in> mems (a + span xs + span vs) ys \<and> m + s \<noteq> a + span xs + span vs + span ys + SIZEOF_MM_ALLOCNODE"
proof -
  have pos: "0 < span xs" "0 < span ys" using so ne by (cases xs; cases ys; auto simp: mm_consts)+
  have all: "\<forall>c \<in> set xs. 0 < snd c" "\<forall>c \<in> set ys. 0 < snd c" using so solid_pos by blast+
  show ?thesis
    unfolding blocks_alloc_locs mems_def using alloc_locs_pos [of _ _ a xs] alloc_locs_pos [of _ _ "a + span xs" vs]
      alloc_locs_pos [of _ _ "a + span xs + span vs" ys] all vs pos by (fastforce simp: add.assoc)
qed

lemma blocks_recut:
  assumes so: "solid xs" "solid ys" and us: "\<forall>c \<in> set us. 0 < snd c" and vs: "\<forall>c \<in> set vs. 0 < snd c"
    and ne: "xs \<noteq> []" "ys \<noteq> []" and sp: "span vs = span us"
  shows "blocks a (xs @ vs @ ys) = blocks a (xs @ us @ ys) - mems (a + span xs) us \<union> mems (a + span xs) vs"
proof -
  have all: "\<forall>c \<in> set xs. 0 < snd c" "\<forall>c \<in> set ys. 0 < snd c" using so solid_pos by blast+
  have "mems a xs \<inter> mems (a + span xs) us = {}" "mems (a + span xs + span us) ys \<inter> mems (a + span xs) us = {}"
    unfolding mems_def using alloc_locs_pos [of _ _ a xs] alloc_locs_pos [of _ _ "a + span xs" us]
      alloc_locs_pos [of _ _ "a + span xs + span us" ys] us all by fastforce+
  then have "(m, s) \<in> blocks a (xs @ vs @ ys) \<longleftrightarrow>
      (m, s) \<in> blocks a (xs @ us @ ys) - mems (a + span xs) us \<union> mems (a + span xs) vs" for m s
    unfolding Un_iff Diff_iff blocks_mems [OF so us ne] blocks_mems [OF so vs ne] sp by blast
  then show ?thesis by auto
qed

lemma blocks_not_in_free:
  assumes "solid (xs @ (False, t) # ys)" "q < t"
  shows "(a + span xs + SIZEOF_MM_ALLOCNODE + q, s) \<notin> blocks a (xs @ (False, t) # ys)"
proof
  let ?cs = "xs @ (False, t) # ys"
  assume "(a + span xs + SIZEOF_MM_ALLOCNODE + q, s) \<in> blocks a ?cs"
  then obtain p where "a + span xs + SIZEOF_MM_ALLOCNODE + q = p + SIZEOF_MM_ALLOCNODE" and l: "(p, True, s) \<in> set (locs a ?cs)"
    unfolding blocks_def mem_Collect_eq case_prod_conv by blast
  then have p: "p = a + span xs + q" by simp
  have "(a + span xs, False, t) \<in> set (locs a ?cs)" by simp
  from locs_disjoint [OF assms(1) this l] show False
    using assms(2) p locs_range [OF assms(1) l] by (simp add: mm_consts)
qed

text \<open>What an operation does between taking and giving the semaphore.\<close>

lemma sem_bracket:
  assumes "sem_avail env h"
  obtains l where "mm_takesemaphore env h = Some l" "\<And>cs. heap_ok l cs = heap_ok h cs" "mm_heapstart l = mm_heapstart h"
    "nd_size l = nd_size h" "nd_preceding l = nd_preceding h" "mm_bytes l = mm_bytes h"
    "\<And>A b h'. node_frame A (l\<lparr>mm_bytes := b\<rparr>) h' \<Longrightarrow> node_frame A (h\<lparr>mm_bytes := b\<rparr>) (mm_givesemaphore h')"
    "\<And>A h'. node_frame A l h' \<Longrightarrow> node_frame A h (mm_givesemaphore h')" "mm_givesemaphore l = h"
proof -
  obtain c p n where sem: "mm_takesemaphore env h = Some (h\<lparr>mm_semcount := c, mm_holder := p, mm_counts_held := n\<rparr>)"
    "\<And>h'. mm_semcount h' = c \<Longrightarrow> mm_holder h' = p \<Longrightarrow> mm_counts_held h' = n \<Longrightarrow>
       mm_givesemaphore h' = h'\<lparr>mm_semcount := mm_semcount h, mm_holder := mm_holder h, mm_counts_held := mm_counts_held h\<rparr>"
    by (rule sem_avail_take [OF assms]) (rule that)
  let ?l = "h\<lparr>mm_semcount := c, mm_holder := p, mm_counts_held := n\<rparr>"
  have fr: "node_frame A (h\<lparr>mm_bytes := b\<rparr>) (mm_givesemaphore h')" if f: "node_frame A (?l\<lparr>mm_bytes := b\<rparr>) h'" for A b h'
  proof -
    have "node_frame A ((h\<lparr>mm_bytes := b\<rparr>)\<lparr>mm_semcount := c, mm_holder := p, mm_counts_held := n\<rparr>) h'" using f by (cases h) simp
    note g = node_frame_locked [OF this]
    have "mm_givesemaphore h' = h'\<lparr>mm_semcount := mm_semcount h, mm_holder := mm_holder h, mm_counts_held := mm_counts_held h\<rparr>"
      using node_frameD [OF f] by (intro sem(2)) simp_all
    then show ?thesis using g by simp
  qed
  have "node_frame A h (mm_givesemaphore h')" if f: "node_frame A ?l h'" for A h'
    using fr [of A "mm_bytes h" h'] f by simp
  moreover have "mm_givesemaphore ?l = h" using sem(2) [of ?l] by simp
  ultimately show ?thesis using fr by (intro that [of ?l, OF sem(1)]) simp_all
qed

section \<open>Cutting a chunk\<close>

text \<open>The chunks after an allocated chunk of size \<open>s\<close> was cut to the size \<open>a\<close>.\<close>

definition shrink_chunk :: "chunk list \<Rightarrow> nat \<Rightarrow> nat \<Rightarrow> chunk list \<Rightarrow> chunk list" where
  "shrink_chunk xs a s ys = (let (s, ys) = merge_next s ys in xs @ (True, a) # (False, s - a) # ys)"

lemma heap_ok_split_back:
  assumes d: "detached h xs True s ys" and a: "chunk_ok (True, a)" "a < s" and ys: "fst (hd ys)"
    and co: "coalesced xs" "coalesced ys" and n: "n = mm_heapstart h + span xs"
  obtains h' where "mm_addfreechunk (h\<lparr>nd_size := (nd_size h)(n + a := s - a, n := a),
      nd_preceding := (nd_preceding h)(n + a := a, n + s := penc True (s - a))\<rparr>) (n + a) = Some h'"
    "heap_ok h' (xs @ (True, a) # (False, s - a) # ys)" "node_frame {} h h'"
proof -
  note D = detachedD [OF d]
  obtain h' where h': "mm_addfreechunk (h\<lparr>nd_size := (nd_size h)(n + a := s - a, n := a),
      nd_preceding := (nd_preceding h)(n + a := a, n + s := penc (fst (hd ys)) (s - a))\<rparr>) (n + a) = Some h'"
    "heap_pre h' (xs @ (True, a) # (False, s - a) # ys) (insert (n + a) (other_free (mm_heapstart h) xs s ys))"
    "node_frame (other_alloc (mm_heapstart h) xs s ys) h h'"
    by (rule detached_split [OF d a, folded n]) (rule that)
  have st: "mm_heapstart h' = mm_heapstart h" using node_frameD [OF h'(3)] by simp
  have "insert (n + a) (other_free (mm_heapstart h) xs s ys) = free_at (mm_heapstart h) (xs @ (True, a) # (False, s - a) # ys)"
    using a(2) by (auto simp: other_free_def n add.assoc)
  moreover have "coalesced (xs @ (True, a) # (False, s - a) # ys)"
    using co ys D(3) by (cases ys) auto
  ultimately have "heap_ok h' (xs @ (True, a) # (False, s - a) # ys)"
    using h'(2) by (simp add: heap_ok_def st)
  then show ?thesis using h'(1) ys node_frame_mono [OF h'(3)] by (intro that) auto
qed

lemma heap_ok_coalesced_parts:
  assumes "heap_ok h (xs @ c # ys)"
  shows "coalesced xs" "coalesced ys" "coalesced (c # ys)"
proof -
  show "coalesced xs" "coalesced (c # ys)" using assms by (auto simp: heap_ok_def)
  then show "coalesced ys" by (cases ys) auto
qed

lemma heap_ok_size: "heap_ok h (xs @ c # ys) \<Longrightarrow> nd_size h (mm_heapstart h + span xs) = snd c"
  unfolding heap_ok_def using heap_pre_at(1) by blast

lemma mm_shrinkchunk_ok:
  assumes ok: "heap_ok h (xs @ (True, s) # ys)" and ne: "xs \<noteq> []" "ys \<noteq> []"
    and n: "n = mm_heapstart h + span xs" and a: "chunk_ok (True, a)" "a < s"
  obtains h' where "mm_shrinkchunk h n a = Some h'" "heap_ok h' (shrink_chunk xs a s ys)" "node_frame {} h h'"
proof -
  note d = heap_ok_detach [OF ok ne] and co = heap_ok_coalesced_parts [OF ok]
  note D = detachedD [OF d]
  obtain f t ys' where ys: "ys = (f, t) # ys'" using ne(2) by (cases ys) auto
  have at: "nd_size h n = s" "nd_size h (n + s) = t" "nd_preceding h (n + s) = penc f s" "s < MM_ALLOC_BIT" "t < MM_ALLOC_BIT"
    using heap_pre_at [OF D(1)] heap_pre_at [of h "xs @ [(True, s)]" "(f, t)" ys'] D(1) n ys by (auto simp: add.assoc)
  show ?thesis
  proof (cases f)
    case True
    obtain h' where h': "mm_addfreechunk (h\<lparr>nd_size := (nd_size h)(n + a := s - a, n := a),
        nd_preceding := (nd_preceding h)(n + a := a, n + s := penc True (s - a))\<rparr>) (n + a) = Some h'"
      "heap_ok h' (xs @ (True, a) # (False, s - a) # ys)" "node_frame {} h h'"
      by (rule heap_ok_split_back [OF d a _ co(1,2) n]) (use ys True in simp, rule that)
    have "0 < a" "a + SIZEOF_MM_FREENODE \<le> s" using chunk_ok_diff [OF D(6) a] a by (auto simp: chunk_ok_def mm_consts)
    then have "mm_shrinkchunk h n a = Some h'"
      using h'(1) at True by (simp add: mm_shrinkchunk_def Let_def)
    then show ?thesis using h'(2,3) True ys by (intro that) (auto simp: shrink_chunk_def merge_next_def)
  next
    case False
    then have ysF: "ys = (False, t) # ys'" using ys by simp
    then obtain z ys2 where z: "ys' = (True, z) # ys2" using D(8) co(2) by (cases ys') auto
    obtain fl bl where u: "mm_unlink h (n + s) = h\<lparr>nd_flink := fl, nd_blink := bl\<rparr>"
      "detached (h\<lparr>nd_flink := fl, nd_blink := bl, nd_size := (nd_size h)(n := s + t),
         nd_preceding := (nd_preceding h)(n + s + t := penc (fst (hd ys')) (s + t))\<rparr>) xs True (s + t) ys'"
      "\<And>sz pr. node_frame (other_alloc (mm_heapstart h) xs s ((False, t) # ys')) h
         (h\<lparr>nd_flink := fl, nd_blink := bl, nd_size := sz, nd_preceding := pr\<rparr>)"
      by (rule detached_join_next [OF d [unfolded ysF] n]) (rule that)
    define h1 where "h1 = h\<lparr>nd_flink := fl, nd_blink := bl, nd_size := (nd_size h)(n := s + t),
         nd_preceding := (nd_preceding h)(n + s + t := penc (fst (hd ys')) (s + t))\<rparr>"
    have lt: "a < s + t" using a(2) by simp
    have co': "coalesced ys'" "fst (hd ys')" using co(2) ysF z by auto
    have n1: "n = mm_heapstart h1 + span xs" using n by (simp add: h1_def)
    obtain h' where h': "mm_addfreechunk (h1\<lparr>nd_size := (nd_size h1)(n + a := s + t - a, n := a),
        nd_preceding := (nd_preceding h1)(n + a := a, n + (s + t) := penc True (s + t - a))\<rparr>) (n + a) = Some h'"
      "heap_ok h' (xs @ (True, a) # (False, s + t - a) # ys')" "node_frame {} h1 h'"
      by (rule heap_ok_split_back [OF u(2) [folded h1_def] a(1) lt co'(2) co(1) co'(1) n1]) (rule that)
    have b: "nd_preceding h (n + s + t) = penc True t" "t + s - a < MM_ALLOC_BIT" "0 < a" "0 < t"
      using heap_pre_at [of h "xs @ [(True, s), (f, t)]" "(True, z)" ys2] D(1) n ys z a(1) D(5)
      by (auto simp: add.assoc heap_pre_def geom_def chunk_ok_def mm_consts)
    have "mm_shrinkchunk h n a = Some h'"
      using h'(1) at b u(1) False z a(2) by (simp add: mm_shrinkchunk_def Let_def h1_def add.assoc add.commute add.left_commute fun_upd_twist)
    moreover have "node_frame {} h h'"
      by (rule node_frame_trans [OF _ h'(3)]) (simp add: h1_def node_frame_def)
    ultimately show ?thesis
      using h'(2) ysF by (intro that) (auto simp: shrink_chunk_def merge_next_def)
  qed
qed

lemma blocks_shrink_chunk:
  assumes so: "solid (xs @ (True, s) # ys)" and ne: "xs \<noteq> []" and ys: "merge_next s ys = (t, zs)" "zs \<noteq> []" "ys \<noteq> []" and a: "0 < a" "a < s"
  shows "blocks b (shrink_chunk xs a s ys) =
    blocks b (xs @ (True, s) # ys) - {(b + span xs + SIZEOF_MM_ALLOCNODE, s)} \<union> {(b + span xs + SIZEOF_MM_ALLOCNODE, a)}"
proof -
  obtain us where us: "ys = us @ zs" "s + span us = t" "\<forall>c \<in> set us. \<not> fst c"
    using ys(1,3) by (cases ys) (auto simp: merge_next_def split: if_splits)
  have "\<forall>c \<in> set us. 0 < snd c" using so us(1) by (auto intro: solid_pos)
  moreover have "mems b' us = {}" for b' using us(3) by (induction us arbitrary: b') auto
  ultimately show ?thesis
    using blocks_recut [of xs zs "(True, s) # us" "[(True, a), (False, t - a)]" b] assms us by (auto simp: shrink_chunk_def mm_consts)
qed

text \<open>Cutting off the front of a chunk as a free chunk.\<close>

lemma heap_ok_split_front:
  assumes d: "detached h xs f s ys" and a: "chunk_ok (False, a)" "a < s" and xs: "fst (last xs)"
    and co: "coalesced xs" "coalesced ys" and n: "n = mm_heapstart h + span xs"
  obtains h' where "mm_addfreechunk (h\<lparr>nd_size := (nd_size h)(n + a := s - a, n := a),
      nd_preceding := (nd_preceding h)(n + a := penc True a, n := penc False (endsz 0 xs),
        n + s := penc (fst (hd ys)) (s - a))\<rparr>) n = Some h'"
    "heap_ok h' (xs @ (False, a) # (True, s - a) # ys)" "node_frame {} h h'"
proof -
  note D = detachedD [OF d]
  let ?F = "other_free (mm_heapstart h) xs s ys"
  obtain y ys' where ys: "ys = y # ys'" using D(3) by (cases ys) auto
  have r: "chunk_ok (True, s - a)" "0 < a"
    using chunk_ok_diff [OF D(6) a] a by (auto simp: chunk_ok_def mm_consts)
  have nF: "n \<notin> ?F" "n + a \<notin> ?F" using D(4,5) a(2) by (auto simp: other_free_def n)
  define h1 where "h1 = h\<lparr>nd_size := (nd_size h)(n + a := s - a, n := a),
      nd_preceding := (nd_preceding h)(n + a := penc True a, n := penc False (endsz 0 xs), n + s := penc (fst (hd ys)) (s - a))\<rparr>"
  have pre: "heap_pre h1 (xs @ (False, a) # (True, s - a) # ys) ?F"
    using heap_pre_split [of h xs f a "s - a" y ys' ?F False True] D(1,2) nF a r ys
    by (simp add: n [symmetric] h1_def del: penc_False)
  obtain fl bl where ad: "mm_addfreechunk h1 n = Some (h1\<lparr>nd_flink := fl, nd_blink := bl\<rparr>)"
    "heap_pre (h1\<lparr>nd_flink := fl, nd_blink := bl\<rparr>) (xs @ (False, a) # (True, s - a) # ys) (insert n ?F)"
    by (rule heap_pre_add [OF pre D(2) _ nF(1)]) (use n in \<open>simp add: h1_def\<close>, rule that)
  have "insert n ?F = free_at (mm_heapstart h) (xs @ (False, a) # (True, s - a) # ys)"
    using a(2) by (auto simp: other_free_def n add.assoc)
  moreover have "coalesced (xs @ (False, a) # (True, s - a) # ys)"
    using co xs ys by (cases ys') auto
  ultimately have "heap_ok (h1\<lparr>nd_flink := fl, nd_blink := bl\<rparr>) (xs @ (False, a) # (True, s - a) # ys)"
    using ad(2) by (simp add: heap_ok_def h1_def)
  then show ?thesis
    using ad(1) unfolding h1_def by (intro that) (auto simp: node_frame_def)
qed

section \<open>Aligned blocks\<close>

lemma clear_low_bits: "clear_bits x (2 ^ k - 1) = x div 2 ^ k * 2 ^ k"
proof -
  have "x AND (2 ^ k - 1) = x mod 2 ^ k"
    using take_bit_eq_mask [of k x] by (simp add: mask_eq_exp_minus_1 take_bit_eq_mod)
  then show ?thesis by (simp add: clear_bits_def minus_mod_eq_div_mult)
qed

lemma align_up_bounds:
  fixes x k :: nat
  assumes "16 dvd x" "5 \<le> k"
  defines "al \<equiv> (x + (2 ^ k - 1)) div 2 ^ k * 2 ^ k"
  shows "x \<le> al" "al < x + 2 ^ k" "2 ^ k dvd al" "16 dvd al - x"
proof -
  have "al = x + (2 ^ k - 1) - (x + (2 ^ k - 1)) mod 2 ^ k" by (simp add: al_def minus_mod_eq_div_mult)
  moreover have "(x + (2 ^ k - 1)) mod 2 ^ k < 2 ^ k" by simp
  ultimately show b: "x \<le> al" "al < x + 2 ^ k" using zero_less_power [of 2 k] by linarith+
  show d: "2 ^ k dvd al" by (simp add: al_def)
  have "(2 :: nat) ^ 4 dvd 2 ^ k" using assms(2) by (intro le_imp_power_dvd) simp
  then have "16 dvd al" using d dvd_trans by fastforce
  then show "16 dvd al - x" using assms(1) by simp
qed

lemma mm_memalign_lead_ok:
  assumes ok: "heap_ok h (xs @ (True, s) # ys)" and ne: "xs \<noteq> []" "ys \<noteq> []" and xs: "fst (last xs)"
    and raw: "raw = mm_heapstart h + span xs + SIZEOF_MM_ALLOCNODE" and k: "5 \<le> k" "2 ^ k + MM_MIN_CHUNK \<le> s"
  obtains p h' where
    "mm_memalign_lead h (2 ^ k) size0 raw = Some (raw - SIZEOF_MM_ALLOCNODE + p, raw + p,
       if p = 0 then size0 else s - p - SIZEOF_MM_ALLOCNODE, h')"
    "heap_ok h' (xs @ (if p = 0 then [] else [(False, p)]) @ (True, s - p) # ys)"
    "p < 2 ^ k" "2 ^ k dvd raw + p" "node_frame {} h h'"
proof -
  note d = heap_ok_detach [OF ok ne] and co = heap_ok_coalesced_parts [OF ok]
  note D = detachedD [OF d]
  define n where "n = mm_heapstart h + span xs"
  define al where "al = (raw + (2 ^ k - 1)) div 2 ^ k * 2 ^ k"
  have g: "geom h (xs @ (True, s) # ys)" using ok by (simp add: heap_ok_def heap_pre_def)
  have "MM_MIN_CHUNK dvd span xs + SIZEOF_MM_ALLOCNODE" "MM_MIN_CHUNK dvd mm_heapstart h"
    using geom_mids [of xs "(True, s)" ys] g ne by (simp_all add: geom_def)
  then have "16 dvd raw" unfolding raw add.assoc by (simp add: mm_consts)
  note al = align_up_bounds [OF this k(1), folded al_def]
  have "n + s \<le> 2 ^ 32" using g by (simp add: geom_def n_def)
  then have "raw + (2 ^ k - 1) < 2 ^ 32" using k(2) raw by (simp add: n_def mm_consts)
  then have al_eq: "clear_bits (sz32 (raw + (2 ^ k - 1))) (2 ^ k - 1) = al"
    unfolding sz32_def al_def by (simp only: mod_less clear_low_bits)
  obtain y ys' where ys: "ys = y # ys'" using ne(2) by (cases ys) auto
  have at: "nd_size h n = s" "nd_preceding h n = penc True (endsz 0 xs)" "endsz 0 xs < MM_ALLOC_BIT"
      "nd_preceding h (n + s) = penc (fst y) s" "s < MM_ALLOC_BIT"
    using heap_pre_at [OF D(1)] heap_pre_at [of h "xs @ [(True, s)]" y ys'] D(1) ys by (auto simp: n_def add.assoc)
  show ?thesis
  proof (cases "al = raw")
    case True
    then have "mm_memalign_lead h (2 ^ k) size0 raw = Some (raw - SIZEOF_MM_ALLOCNODE + 0, raw + 0, size0, h)"
      using al_eq by (simp add: mm_memalign_lead_def Let_def)
    then show ?thesis using that [of 0 h] ok al(3) True by simp
  next
    case False
    define p where "p = al - raw"
    have p: "al = raw + p" "16 dvd p" "16 \<le> p" "p < 2 ^ k" "p < s"
      using al False k(2) dvd_imp_le [of 16 p] by (auto simp: p_def)
    have ok_p: "chunk_ok (False, p)" using p by (simp add: chunk_ok_def mm_consts)
    obtain h' where h': "mm_addfreechunk (h\<lparr>nd_size := (nd_size h)(n + p := s - p, n := p),
        nd_preceding := (nd_preceding h)(n + p := penc True p, n := penc False (endsz 0 xs),
          n + s := penc (fst (hd ys)) (s - p))\<rparr>) n = Some h'"
      "heap_ok h' (xs @ (False, p) # (True, s - p) # ys)" "node_frame {} h h'"
      by (rule heap_ok_split_front [OF d ok_p p(5) xs co(1,2) n_def]) (rule that)
    have r: "raw = n + SIZEOF_MM_ALLOCNODE" by (simp add: raw n_def)
    have "mm_memalign_lead h (2 ^ k) size0 raw = Some (n + p, al, s - p - SIZEOF_MM_ALLOCNODE, h')"
      using h'(1) at al_eq False p ys
      by (simp add: mm_memalign_lead_def Let_def r mm_consts)
    then show ?thesis using that [of p h'] h'(2,3) p al(3) r by simp
  qed
qed

text \<open>The chunks of \<open>mm_memalign\<close>: a chunk \<open>t\<close> was taken, its front \<open>p\<close> and its rest given back.\<close>

definition align_chunk :: "chunk list \<Rightarrow> nat \<Rightarrow> nat \<Rightarrow> nat \<Rightarrow> chunk list \<Rightarrow> chunk list" where
  "align_chunk xs p a t ys = xs @ ((if p = 0 then [] else [(False, p)]) @ [(True, a), (False, t - p - a)]) @ ys"

lemma shrink_align_chunk:
  assumes "fst (hd ys)" "ys \<noteq> []" "s \<le> t" "p + a < s"
  shows "shrink_chunk (xs @ (if p = 0 then [] else [(False, p)])) a (s - p) ((if s = t then [] else [(False, t - s)]) @ ys)
    = align_chunk xs p a t ys"
  using assms by (auto simp: shrink_chunk_def align_chunk_def merge_next_def)

lemma blocks_align_chunk:
  assumes "solid (xs @ (False, t) # ys)" "xs \<noteq> []" "ys \<noteq> []" "p + a < t" "0 < a"
  shows "blocks b (align_chunk xs p a t ys) =
    insert (b + span xs + p + SIZEOF_MM_ALLOCNODE, a) (blocks b (xs @ (False, t) # ys))"
  using blocks_recut [of xs ys "[(False, t)]" "(if p = 0 then [] else [(False, p)]) @ [(True, a), (False, t - p - a)]" b] assms
  by (auto simp: align_chunk_def)

text \<open>What \<open>mm_memalign\<close> does with the chunk \<open>s\<close> that \<open>mm_malloc\<close> took from a free chunk \<open>t\<close>.\<close>

lemma memalign_cut_ok:
  assumes ok: "heap_ok h (take_chunk xs s t ys)" and ne: "xs \<noteq> []" "ys \<noteq> []" and nb: "fst (last xs)" "fst (hd ys)"
    and st: "s \<le> t" "5 \<le> k" "size0 + SIZEOF_MM_ALLOCNODE \<le> s" "a + 2 ^ k + MM_MIN_CHUNK \<le> s" "a < size0" "chunk_ok (True, a)"
    and raw: "raw = mm_heapstart h + span xs + SIZEOF_MM_ALLOCNODE"
  obtains p node size1 h1 h' where "mm_memalign_lead h (2 ^ k) size0 raw = Some (node, raw + p, size1, h1)"
    "a < size1" "mm_shrinkchunk h1 node a = Some h'" "heap_ok h' (align_chunk xs p a t ys)" "2 ^ k dvd raw + p"
    "node_frame {} h h'" "p + a < t"
proof -
  let ?ys = "(if s = t then [] else [(False, t - s)]) @ ys"
  have tk: "take_chunk xs s t ys = xs @ (True, s) # ?ys" by (simp add: take_chunk_def)
  have ys: "?ys \<noteq> []" using ne(2) by simp
  have k: "2 ^ k + MM_MIN_CHUNK \<le> s" using st(4) by simp
  obtain p h1 where l: "mm_memalign_lead h (2 ^ k) size0 raw = Some (raw - SIZEOF_MM_ALLOCNODE + p, raw + p,
       if p = 0 then size0 else s - p - SIZEOF_MM_ALLOCNODE, h1)"
    "heap_ok h1 (xs @ (if p = 0 then [] else [(False, p)]) @ (True, s - p) # ?ys)" "p < 2 ^ k" "2 ^ k dvd raw + p" "node_frame {} h h1"
    by (rule mm_memalign_lead_ok [OF ok [unfolded tk] ne(1) ys nb(1) raw st(2) k]) (rule that)
  let ?xs = "xs @ (if p = 0 then [] else [(False, p)])"
  have lt: "p + a < s" "a < s - p" using l(3) st(4) by (simp_all add: mm_consts)
  have ok1: "heap_ok h1 (?xs @ (True, s - p) # ?ys)" and ne1: "?xs \<noteq> []" using l(2) ne(1) by simp_all
  have n1: "raw - SIZEOF_MM_ALLOCNODE + p = mm_heapstart h1 + span ?xs" using node_frameD [OF l(5)] raw by simp
  obtain h' where h': "mm_shrinkchunk h1 (raw - SIZEOF_MM_ALLOCNODE + p) a = Some h'" "heap_ok h' (shrink_chunk ?xs a (s - p) ?ys)"
      "node_frame {} h1 h'"
    by (rule mm_shrinkchunk_ok [OF ok1 ne1 ys n1 st(6) lt(2)]) (rule that)
  have "heap_ok h' (align_chunk xs p a t ys)" using h'(2) shrink_align_chunk [OF nb(2) ne(2) st(1) lt(1), of xs] by simp
  moreover have "a < (if p = 0 then size0 else s - p - SIZEOF_MM_ALLOCNODE)" using l(3) st(4,5) by (auto simp: mm_consts less_diff_conv)
  ultimately show ?thesis
    using that [OF l(1)] h'(1) l(4) node_frame_trans [OF l(5) h'(3)] lt(1) st(1) by simp
qed

text \<open>
  C27. \<open>mm_memalign\<close> for an alignment \<open>2 ^ k\<close> above \<open>MM_MIN_CHUNK\<close>: the block returned is aligned, is new, has room for the
  request and ends in a chunk of the size rounded up plus \<open>MM_MIN_CHUNK\<close>; the space before it and behind it
  is given back, all other blocks and the contents of memory are unchanged, and the heap is well formed. The result
  is \<open>NULL\<close>, with the chunks unchanged, only if no free chunk has room for the request and twice the alignment.
\<close>

theorem mm_memalign_aligned:
  assumes inv: "heap_inv h cs []" and env: "sem_avail env h" "\<not> env_isr env" and k: "5 \<le> k"
    and n: "0 < n" "n + MM_GRAN_MASK + 2 * 2 ^ k \<le> MALLOC_MAX"
  defines "rnd \<equiv> (n + MM_GRAN_MASK) div MM_MIN_CHUNK * MM_MIN_CHUNK"
  shows "\<exists>ret h' cs'. mm_memalign env h (2 ^ k) n = Some (ret, h') \<and> heap_inv h' cs' [] \<and> node_frame {} h h' \<and>
    (if ret = NULL then cs' = cs \<and> (\<forall>t. (False, t) \<in> set cs \<longrightarrow> t < rnd + 2 * 2 ^ k + MM_MIN_CHUNK)
     else 2 ^ k dvd ret \<and> n \<le> rnd + MM_MIN_CHUNK - SIZEOF_MM_ALLOCNODE \<and> (\<forall>s. (ret, s) \<notin> blocks (mm_heapstart h) cs) \<and>
       blocks (mm_heapstart h) cs' = insert (ret, rnd + MM_MIN_CHUNK) (blocks (mm_heapstart h) cs))"
proof -
  let ?a = "mm_heapstart h" and ?s0 = "rnd + 2 * 2 ^ k" and ?c = "rnd + MM_MIN_CHUNK"
  have "(32 :: nat) dvd 2 ^ k" using le_imp_power_dvd [of 5 k "2 :: nat"] k by simp
  then have d: "16 dvd rnd" "16 dvd ?s0" "32 \<le> (2 :: nat) ^ k" using dvd_imp_le [of 32 "2 ^ k"] by (auto simp: rnd_def mm_consts elim!: dvdE)
  have r: "n \<le> rnd" "rnd \<le> n + MM_GRAN_MASK" by (simp_all add: rnd_def mm_consts)
  have s0: "0 < ?s0" "?s0 \<le> MALLOC_MAX" using n(2) r d(3) by auto
  have cs0: "chunk_size ?s0 = ?s0 + MM_MIN_CHUNK" using d(2) by (auto simp: chunk_size_def mm_consts elim!: dvdE)
  have up: "MM_ALIGN_UP n = rnd" "sz32 ?s0 = ?s0" "MM_ALIGN_UP (sz32 (rnd + SIZEOF_MM_ALLOCNODE)) = ?c" "\<not> 2 ^ k \<le> MM_MIN_CHUNK"
    using n(2) s0 r d alignsize_eq [of rnd]
    by (auto simp: MM_ALIGN_UP_eq rnd_def sz32_def MALLOC_MAX_def chunk_size_def mm_consts elim!: dvdE)
  obtain raw h1 cs1 cs2 where m: "mm_malloc env h ?s0 = Some (raw, h1)" "freed ?a cs [] cs1"
      "malloc_post (chunk_size ?s0) ?a cs1 raw cs2" "heap_inv h1 cs2 []" "node_frame {} (h\<lparr>mm_delaylist := NULL\<rparr>) h1"
      "heap_ok h1 cs2" "solid cs1"
    by (rule mm_malloc_ok [OF inv env s0]) (rule that)
  have cs1: "cs1 = cs" using m(2) by simp
  have dl: "mm_delaylist h = NULL" using inv by (simp add: heap_inv_def delay_chain_def)
  then have fr: "node_frame {} h h1" using m(5) by (cases h) simp
  show ?thesis
  proof (cases "raw = NULL")
    case True
    then have "mm_memalign env h (2 ^ k) n = Some (NULL, h1)" using m(1) up by (simp add: mm_memalign_def)
    moreover have "cs2 = cs" "\<forall>t. (False, t) \<in> set cs \<longrightarrow> t < rnd + 2 * 2 ^ k + MM_MIN_CHUNK"
      using m(3) True cs1 cs0 by (auto simp: malloc_post_def)
    ultimately show ?thesis using m(4) fr by auto
  next
    case False
    then obtain xs t ys where sp: "cs = xs @ (False, t) # ys" "cs2 = take_chunk xs (chunk_size ?s0) t ys" "xs \<noteq> []" "ys \<noteq> []"
        "chunk_size ?s0 \<le> t" "raw = ?a + span xs + SIZEOF_MM_ALLOCNODE"
      using m(3) unfolding cs1 malloc_post_def by auto
    have nb: "fst (last xs)" "fst (hd ys)"
      using heap_ok_take_coalesced [of h xs t ys] inv sp by (simp_all add: heap_inv_def)
    have av: "sem_avail env h1" using env(1) node_frameD [OF fr] sem_avail_cong [of h1 h env] by simp
    obtain l where l: "mm_takesemaphore env h1 = Some l" "heap_ok l cs2" "mm_heapstart l = ?a"
        "\<And>h'. node_frame {} l h' \<Longrightarrow> node_frame {} h1 (mm_givesemaphore h')"
      by (rule sem_bracket [OF av]) (use that m(6) node_frameD [OF fr] in metis)
    have c: "?s0 + SIZEOF_MM_ALLOCNODE \<le> chunk_size ?s0" "?c + 2 ^ k + MM_MIN_CHUNK \<le> chunk_size ?s0" "?c < ?s0" "chunk_ok (True, ?c)"
      using d r n(1) unfolding cs0 by (auto simp: mm_consts chunk_ok_def)
    obtain p node size1 h2 h' where p: "mm_memalign_lead l (2 ^ k) ?s0 raw = Some (node, raw + p, size1, h2)"
        "?c < size1" "mm_shrinkchunk h2 node ?c = Some h'" "heap_ok h' (align_chunk xs p ?c t ys)" "2 ^ k dvd raw + p"
        "node_frame {} l h'" "p + ?c < t"
      by (rule memalign_cut_ok [OF l(2) [unfolded sp(2)] sp(3,4) nb sp(5) k c sp(6) [folded l(3)]]) (rule that)
    have run: "mm_memalign env h (2 ^ k) n = Some (raw + p, mm_givesemaphore h')"
      using m(1) up l(1) p(1-3) False by (simp add: mm_memalign_def)
    note f = node_frame_trans [OF fr l(4) [OF p(6)]]
    have "heap_inv (mm_givesemaphore h') (align_chunk xs p ?c t ys) []"
      using p(4) node_frameD [OF f] dl by (simp add: heap_inv_def delay_chain_def)
    moreover have "blocks ?a (align_chunk xs p ?c t ys) = insert (raw + p, ?c) (blocks ?a cs)"
      using blocks_align_chunk [of xs t ys p ?c ?a] m(7) sp p(7) unfolding cs1 by (simp add: mm_consts ac_simps)
    moreover have "(raw + p, s) \<notin> blocks ?a cs" for s
      using blocks_not_in_free [of xs t ys p ?a s] m(7) cs1 sp p(7) by (simp add: ac_simps)
    ultimately show ?thesis using run f p(5) r False by (auto simp: mm_consts)
  qed
qed

theorem mm_memalign_aligned_witness:
  "\<exists>h ret h' cs'. heap_inv h [guard, (False, 0x3f0), guard] [] \<and> mm_memalign demo_env h 64 40 = Some (ret, h') \<and>
     heap_inv h' cs' [] \<and> ret \<noteq> NULL \<and> 64 dvd ret \<and> blocks (mm_heapstart h) cs' = {(ret, 64)}"
proof -
  obtain h where h: "heap_inv h [guard, (False, 0x3f0), guard] []" "sem_avail demo_env h"
    by (rule demo_start) (rule that)
  have n: "5 \<le> (6 :: nat)" "0 < (40 :: nat)" "40 + MM_GRAN_MASK + 2 * 2 ^ 6 \<le> MALLOC_MAX"
    by (simp_all add: MALLOC_MAX_def mm_consts)
  have big: "\<not> (\<forall>t. (False, t) \<in> set [guard, (False, 0x3f0), guard] \<longrightarrow> t < 192)" by auto
  have none: "blocks (mm_heapstart h) [guard, (False, 0x3f0), guard] = {}" by (auto simp: blocks_def guard_def)
  have e: "(2 :: nat) ^ 6 = 64" "(40 + MM_GRAN_MASK) div MM_MIN_CHUNK * MM_MIN_CHUNK = 48"
      "48 + 2 * 64 + MM_MIN_CHUNK = 192" "48 + MM_MIN_CHUNK = 64"
    by (simp_all add: mm_consts)
  from mm_memalign_aligned [OF h demo_region(3) n, unfolded e none] obtain ret h' cs' where
    r: "mm_memalign demo_env h 64 40 = Some (ret, h')" "heap_inv h' cs' []"
      "if ret = NULL then cs' = [guard, (False, 0x3f0), guard] \<and> (\<forall>t. (False, t) \<in> set [guard, (False, 0x3f0), guard] \<longrightarrow> t < 192)
       else 64 dvd ret \<and> 40 \<le> 64 - SIZEOF_MM_ALLOCNODE \<and> (\<forall>s :: nat. (ret, s) \<notin> {}) \<and> blocks (mm_heapstart h) cs' = insert (ret, 64) {}"
    by (elim exE conjE) (rule that)
  have "ret \<noteq> NULL" using r(3) big by argo
  then show ?thesis using h(1) r by auto
qed

end
