(* ===== verification/Mm_Realloc.thy ===== *)
theory Mm_Realloc
  imports Mm_Align
begin

unbundle bit_operations_syntax

text \<open>
  \<open>mm_realloc\<close>: cutting a block, extending it into its free neighbours, and moving it.
\<close>

section \<open>Changing the size of a block\<close>

text \<open>The copy goes upwards, so it may move a block down over itself.\<close>

definition moved :: "(ptr \<Rightarrow> byte) \<Rightarrow> ptr \<Rightarrow> ptr \<Rightarrow> nat \<Rightarrow> ptr \<Rightarrow> byte" where
  "moved m new old n = (\<lambda>x. if new \<le> x \<and> x < new + n then m (old + (x - new)) else m x)"

lemma moved_self [simp]: "moved m a a n = m"
  by (auto simp: moved_def)



















end
