(* ===== verification/Mm_Extend.thy ===== *)
theory Mm_Extend
  imports Mm_Align
begin

unbundle bit_operations_syntax

text \<open>
  Growing a heap: \<open>mm_extend\<close> and \<open>mm_sbrk\<close>.
\<close>

section \<open>Extending the region\<close>

text \<open>Room for \<open>n\<close> more bytes behind the heap.\<close>

definition room :: "mm_heap_s \<Rightarrow> nat \<Rightarrow> bool" where
  "room h n \<longleftrightarrow> MM_MIN_CHUNK \<le> n \<and> MM_MIN_CHUNK dvd n \<and> mm_heapend h + SIZEOF_MM_ALLOCNODE + n \<le> 2 ^ 32 \<and>
     mm_heapend h + SIZEOF_MM_ALLOCNODE + n - mm_heapstart h < MM_ALLOC_BIT \<and>
     (\<forall>p \<in> sents (mm_nodelist h). p + SIZEOF_MM_FREENODE \<le> mm_heapstart h \<or> mm_heapend h + SIZEOF_MM_ALLOCNODE + n \<le> p)"

text \<open>The last node becomes an allocated chunk and a new last node follows it.\<close>

lemma heap_ok_append:
  assumes ok: "heap_ok h (xs @ [guard])" and room: "room h n"
  defines "e \<equiv> mm_heapend h"
  shows "heap_ok (h\<lparr>nd_size := (nd_size h)(e := n, e + n := SIZEOF_MM_ALLOCNODE),
      nd_preceding := (nd_preceding h)(e + n := penc True n), mm_heapend := e + n\<rparr>) (xs @ [(True, n), guard])" (is "heap_ok ?h ?cs")
proof -
  let ?a = "mm_heapstart h" and ?sz = "(nd_size h)(e := n, e + n := SIZEOF_MM_ALLOCNODE)" and ?F = "free_at (mm_heapstart h) xs"
  have pre: "heap_pre h (xs @ [guard]) ?F" and co: "coalesced (xs @ [guard])"
    using ok by (simp_all add: heap_ok_def guard_def)
  have so: "solid xs" using heap_pre_solid [OF pre] by simp
  have g: "geom h (xs @ [guard])" "free_ok h ?F" "tile (nd_size h) (nd_preceding h) ?a 0 (xs @ [guard])"
    using pre by (simp_all add: heap_pre_def)
  have e: "e = ?a + span xs" "0 < n" using g(1) room by (auto simp: geom_def guard_def e_def room_def mm_consts)
  obtain mid where mid: "xs @ [guard] = guard # mid @ [guard]" "\<forall>c \<in> set mid. chunk_ok c"
    using g(1) by (auto simp: geom_def wf_chunks_def)
  then have "?cs = guard # (mid @ [(True, n)]) @ [guard]" by (simp add: append_eq_append_conv2 Cons_eq_append_conv)
  moreover have "chunk_ok (True, n)" using room by (simp add: room_def chunk_ok_def)
  ultimately have wf: "wf_chunks ?cs" using mid(2) unfolding wf_chunks_def by (intro exI [of _ "mid @ [(True, n)]"]) auto
  have geo: "geom ?h ?cs"
    using wf g(1) room e by (auto simp: geom_def room_def guard_def e_def [symmetric] mm_consts)
  have "p \<noteq> e \<and> p \<noteq> e + n" if "p \<in> ?F \<union> sents (mm_nodelist h)" for p
    using that free_at_range [OF so, of p ?a] room e by (fastforce simp: room_def e_def [symmetric] mm_consts)
  then have "free_ok (h\<lparr>nd_size := ?sz\<rparr>) ?F" using g(2) by (subst free_ok_size_cong) auto
  then have fo: "free_ok ?h ?F" by (simp add: free_ok_def)
  have "tile ?sz (nd_preceding ?h) ?a 0 xs"
    by (rule tile_cong [of "nd_size h" "nd_preceding h"]) (use g(3) so e in auto)
  moreover have "nd_preceding h e = penc True (endsz 0 xs)" using g(3) e by (simp add: guard_def)
  ultimately have "tile (nd_size ?h) (nd_preceding ?h) ?a 0 ?cs" using e by (simp add: guard_def)
  then have "heap_pre ?h ?cs ?F" using geo fo by (simp add: heap_pre_def)
  then show ?thesis using co by (simp add: heap_ok_def guard_def)
qed

lemma blocks_append_guard:
  assumes "solid xs" "xs \<noteq> []"
  shows "blocks a (free_chunk xs n [guard]) = blocks a (xs @ [guard])"
  using assms alloc_locs_range [OF assms(1)]
  by (fastforce simp: blocks_alloc_locs alloc_locs_free_chunk guard_def mm_consts)

lemma mm_extend_ok:
  assumes inv: "heap_inv h (xs @ [guard]) []" and room: "room h n" and mem: "mem = mm_heapend h + SIZEOF_MM_ALLOCNODE"
    and env: "sem_avail env h" "\<not> env_isr env"
  shows "\<exists>h'. mm_extend env h mem n = Some h' \<and> heap_inv h' (free_chunk xs n [guard]) [] \<and>
    mm_heapstart h' = mm_heapstart h \<and> mm_heapend h' = mm_heapend h + n \<and> mm_bytes h' = mm_bytes h \<and>
    sem_avail env h' \<and> blocks (mm_heapstart h) (free_chunk xs n [guard]) = blocks (mm_heapstart h) (xs @ [guard]) \<and>
    mm_heapsize h' = mm_heapsize h"
proof -
  let ?e = "mm_heapend h" and ?a = "mm_heapstart h" and ?cs = "xs @ (True, n) # [guard]"
  let ?up = "\<lambda>h. h\<lparr>nd_size := (nd_size h)(?e := n, ?e + n := SIZEOF_MM_ALLOCNODE),
      nd_preceding := (nd_preceding h)(?e + n := penc True n), mm_heapend := ?e + n\<rparr>"
  have ok: "heap_ok h (xs @ [guard])" and dl: "mm_delaylist h = NULL" using inv by (simp_all add: heap_inv_def delay_chain_def)
  have g: "wf_chunks (xs @ [guard])" "?e = ?a + span xs" using ok by (auto simp: heap_ok_def heap_pre_def geom_def guard_def)
  have n: "0 < n" "n < MM_ALLOC_BIT" using room g(2) by (auto simp: room_def mm_consts)
  obtain c p k where sem: "mm_takesemaphore env h = Some (h\<lparr>mm_semcount := c, mm_holder := p, mm_counts_held := k\<rparr>)"
    "\<And>h'. mm_semcount h' = c \<Longrightarrow> mm_holder h' = p \<Longrightarrow> mm_counts_held h' = k \<Longrightarrow>
       mm_givesemaphore h' = h'\<lparr>mm_semcount := mm_semcount h, mm_holder := mm_holder h, mm_counts_held := mm_counts_held h\<rparr>"
    by (rule sem_avail_take [OF env(1)]) (rule that)
  let ?l = "h\<lparr>mm_semcount := c, mm_holder := p, mm_counts_held := k\<rparr>"
  have "mm_givesemaphore (?up ?l) = ?up h" using sem(2) [of "?up ?l"] by simp
  moreover have "mem + n - SIZEOF_MM_ALLOCNODE = ?e + n" using mem by simp
  ultimately have run: "mm_extend env h mem n = mm_free env (?up h) mem"
    using sem(1) n by (simp add: mm_extend_def Let_def)
  have ok1: "heap_ok (?up h) ?cs" using heap_ok_append [OF ok room] by simp
  have inv1: "heap_inv (?up h) ?cs []" using ok1 dl by (simp add: heap_inv_def delay_chain_def)
  have av: "sem_avail env (?up h)" using env(1) by (simp add: sem_avail_def)
  have so: "solid ?cs" using ok1 by (rule heap_ok_solid)
  have ne: "xs \<noteq> []" using g(1) by (auto simp: wf_chunks_def)
  have "(?a + span xs + SIZEOF_MM_ALLOCNODE, n) \<in> blocks ?a ?cs" by (rule blocks_splitI [OF so ne]) simp
  then have bl: "(mem, n) \<in> blocks (mm_heapstart (?up h)) ?cs" using mem g(2) by simp
  have nd: "mem \<notin> set []" by simp
  from mm_free_chunk [OF inv1 bl nd av env(2)] obtain h' us vs where f: "mm_free env (?up h) mem = Some h'"
      "?cs = us @ (True, n) # vs" "mem = mm_heapstart (?up h) + span us + SIZEOF_MM_ALLOCNODE"
      "heap_inv h' (free_chunk us n vs) []" "node_frame {} (?up h) h'"
    by (elim exE conjE) (rule that)
  have "span us = span xs" using f(3) mem g(2) by simp
  then have "us = xs" "vs = [guard]" using split_unique [OF f(2)] so solid_pos by (metis, metis)
  moreover note fr = node_frameD [OF f(5)]
  moreover have "sem_avail env h'" using env(1) fr sem_avail_cong [of h' h env] by simp
  moreover have "blocks ?a (free_chunk xs n [guard]) = blocks ?a (xs @ [guard])"
    using blocks_append_guard [OF _ ne] so by simp
  ultimately show ?thesis using run f(1,4) by simp
qed

text \<open>
  C29. \<open>mm_extend\<close> with the block that follows the heap: the memory becomes part of the last free chunk (or a new one), all
  blocks stay, the heap is well formed and ends later by the size of the block. But \<open>mm_heapsize\<close>, which
  \<open>mm_mallinfo\<close> reports as the size of the arena, is not changed.
\<close>

theorem mm_extend_grows:
  assumes inv: "heap_inv h (xs @ [guard]) []" and room: "room h n" and mem: "mem = mm_heapend h + SIZEOF_MM_ALLOCNODE"
    and env: "sem_avail env h" "\<not> env_isr env"
  shows "\<exists>h'. mm_extend env h mem n = Some h' \<and> heap_inv h' (free_chunk xs n [guard]) [] \<and>
    mm_heapstart h' = mm_heapstart h \<and> mm_heapend h' = mm_heapend h + n \<and> mm_bytes h' = mm_bytes h \<and>
    sem_avail env h' \<and> blocks (mm_heapstart h) (free_chunk xs n [guard]) = blocks (mm_heapstart h) (xs @ [guard]) \<and>
    mm_heapsize h' = mm_heapsize h"
  by (rule mm_extend_ok [OF assms])

lemma demo_room:
  assumes "mm_heapstart h = 0x1000" "mm_heapend h = 0x13f8" "mm_nodelist h = 0x100"
  shows "room h 0x100"
proof -
  have "p + SIZEOF_MM_FREENODE \<le> 0x1000" if "p \<in> sents 0x100" for p
    using that by (auto simp: sents_def mm_consts)
  then show ?thesis using assms by (simp add: room_def mm_consts MM_ALLOC_BIT_def)
qed

theorem mm_extend_grows_witness:
  "\<exists>h h'. heap_inv h [guard, (False, 0x3f0), guard] [] \<and> mm_extend demo_env h 0x1400 0x100 = Some h' \<and>
     heap_inv h' [guard, (False, 0x4f0), guard] [] \<and> mm_heapsize h' = mm_heapsize h"
proof -
  obtain h where h: "heap_inv h [guard, (False, 0x3f0), guard] []" "sem_avail demo_env h" "mm_heapstart h = 0x1000"
      "mm_heapend h = 0x13f8" "mm_nodelist h = 0x100"
    by (rule demo_start) (rule that)
  have i: "heap_inv h ([guard, (False, 0x3f0)] @ [guard]) []" "0x1400 = mm_heapend h + SIZEOF_MM_ALLOCNODE"
    using h by (simp_all add: mm_consts)
  have "free_chunk [guard, (False, 0x3f0)] 0x100 [guard] = [guard, (False, 0x4f0), guard]"
    by (simp add: free_chunk_def merge_next_def merge_prev_def guard_def)
  then show ?thesis
    using mm_extend_grows [OF i(1) demo_room [OF h(3-5)] i(2) h(2) demo_region(3)] h(1) by auto
qed

section \<open>The break address\<close>




end
