(* ===== verification/Sched_Lists.thy ===== *)
theory Sched_Lists
  imports Queue_DQ "HOL-Library.Monad_Syntax"
begin

text \<open>
  The task lists of the scheduler (\<open>sched/sched\<close>) on a single CPU: the list of tasks that are ready to
  run, whose head is the running task, the list of pending tasks that wait for the running
  task to enable preemption, and the lists of blocked tasks. The lists are doubly linked queues of
  task control blocks, on one heap of links. \<open>up_block_task\<close>, \<open>up_unblock_task\<close>, \<open>up_release_pending\<close>
  and \<open>up_reprioritize_rtr\<close> are those of the simulator (\<open>arch/sim\<close>), as far as they change the
  lists; a flag tells whether they switch the context. Round robin and sporadic scheduling,
  paging and stopped tasks are off. A loop that runs forever, and a task list that ends where the
  code needs a task, is \<open>None\<close>. This theory is the code; \<open>Sched_Prio\<close> is about it.
\<close>

section \<open>Tasks and lists\<close>

datatype tstate =
    TSTATE_TASK_INVALID
  | TSTATE_TASK_PENDING
  | TSTATE_TASK_READYTORUN
  | TSTATE_TASK_RUNNING
  | TSTATE_TASK_INACTIVE
  | TSTATE_WAIT_SEM
  | TSTATE_WAIT_SIG
  | TSTATE_WAIT_MQNOTEMPTY
  | TSTATE_WAIT_MQNOTFULL

datatype tlist =
    G_READYTORUN
  | G_PENDINGTASKS
  | G_INACTIVETASKS
  | G_WAITINGFORSEMAPHORE
  | G_WAITINGFORSIGNAL
  | G_WAITINGFORMQNOTEMPTY
  | G_WAITINGFORMQNOTFULL

text \<open>The two columns of \<open>g_tasklisttable\<close>; a task in the state \<open>TSTATE_TASK_INVALID\<close> is on no list.\<close>

fun TLIST_HEAD :: "tstate \<Rightarrow> tlist option" where
  "TLIST_HEAD TSTATE_TASK_INVALID = None"
| "TLIST_HEAD TSTATE_TASK_PENDING = Some G_PENDINGTASKS"
| "TLIST_HEAD TSTATE_TASK_READYTORUN = Some G_READYTORUN"
| "TLIST_HEAD TSTATE_TASK_RUNNING = Some G_READYTORUN"
| "TLIST_HEAD TSTATE_TASK_INACTIVE = Some G_INACTIVETASKS"
| "TLIST_HEAD TSTATE_WAIT_SEM = Some G_WAITINGFORSEMAPHORE"
| "TLIST_HEAD TSTATE_WAIT_SIG = Some G_WAITINGFORSIGNAL"
| "TLIST_HEAD TSTATE_WAIT_MQNOTEMPTY = Some G_WAITINGFORMQNOTEMPTY"
| "TLIST_HEAD TSTATE_WAIT_MQNOTFULL = Some G_WAITINGFORMQNOTFULL"

fun TLIST_ISPRIORITIZED :: "tstate \<Rightarrow> bool" where
  "TLIST_ISPRIORITIZED TSTATE_TASK_INVALID = False"
| "TLIST_ISPRIORITIZED TSTATE_TASK_INACTIVE = False"
| "TLIST_ISPRIORITIZED TSTATE_WAIT_SIG = False"
| "TLIST_ISPRIORITIZED _ = True"

definition is_blocked_state :: "tstate \<Rightarrow> bool" where
  "is_blocked_state st \<longleftrightarrow> st \<in> {TSTATE_TASK_INACTIVE, TSTATE_WAIT_SEM, TSTATE_WAIT_SIG,
     TSTATE_WAIT_MQNOTEMPTY, TSTATE_WAIT_MQNOTFULL}"

definition SCHED_PRIORITY_MIN :: nat where "SCHED_PRIORITY_MIN = 1"

definition SCHED_PRIORITY_MAX :: nat where "SCHED_PRIORITY_MAX = 255"

definition SCHED_PRIORITY_IDLE :: nat where "SCHED_PRIORITY_IDLE = 0"

text \<open>The heads of the lists and the fields of the task control blocks that scheduling uses.\<close>

record sched_s =
  tcb_links :: dq_links
  task_list :: "tlist \<Rightarrow> dq_queue_s"
  sched_priority :: "ptr \<Rightarrow> nat"
  task_state :: "ptr \<Rightarrow> tstate"
  lockcount :: "ptr \<Rightarrow> int"

definition this_task :: "sched_s \<Rightarrow> ptr" where
  "this_task s = dq_head (task_list s G_READYTORUN)"

definition set_state :: "ptr \<Rightarrow> tstate \<Rightarrow> sched_s \<Rightarrow> sched_s" where
  "set_state tcb st s = s\<lparr>task_state := (task_state s)(tcb := st)\<rparr>"

definition set_prio :: "ptr \<Rightarrow> nat \<Rightarrow> sched_s \<Rightarrow> sched_s" where
  "set_prio tcb p s = s\<lparr>sched_priority := (sched_priority s)(tcb := p)\<rparr>"

text \<open>A queue operation on one of the lists.\<close>

definition on_list :: "tlist \<Rightarrow> (dq_state \<Rightarrow> dq_state) \<Rightarrow> sched_s \<Rightarrow> sched_s" where
  "on_list L f s =
     (let (h, q) = f (tcb_links s, task_list s L) in s\<lparr>tcb_links := h, task_list := (task_list s)(L := q)\<rparr>)"

section \<open>Prioritized lists\<close>

text \<open>
  The search for the first task of a lower priority, in \<open>nxsched_add_prioritized\<close> and
  \<open>nxsched_merge_pending\<close>.
\<close>

partial_function (option) prio_search :: "sched_s \<Rightarrow> nat \<Rightarrow> ptr \<Rightarrow> ptr option" where
  "prio_search s prio next =
     (if next \<noteq> NULL \<and> prio \<le> sched_priority s next
      then prio_search s prio (flink (tcb_links s) next)
      else Some next)"

declare prio_search.simps [code]

definition nxsched_add_prioritized :: "sched_s \<Rightarrow> ptr \<Rightarrow> tlist \<Rightarrow> (bool \<times> sched_s) option" where
  "nxsched_add_prioritized s tcb L =
     do { next \<leftarrow> prio_search s (sched_priority s tcb) (dq_head (task_list s L));
          Some (if next = NULL
                then let prev = dq_tail (task_list s L)
                     in if prev = NULL
                        then (True, on_list L (\<lambda>(h, q). (set_blink tcb NULL (set_flink tcb NULL h),
                               q\<lparr>dq_head := tcb, dq_tail := tcb\<rparr>)) s)
                        else (False, on_list L (\<lambda>(h, q). (set_flink prev tcb (set_blink tcb prev (set_flink tcb NULL h)),
                               q\<lparr>dq_tail := tcb\<rparr>)) s)
                else let prev = blink (tcb_links s) next
                     in if prev = NULL
                        then (True, on_list L (\<lambda>(h, q). (set_blink next tcb (set_blink tcb NULL (set_flink tcb next h)),
                               q\<lparr>dq_head := tcb\<rparr>)) s)
                        else (False, on_list L (\<lambda>(h, q). (set_blink next tcb (set_flink prev tcb
                               (set_blink tcb prev (set_flink tcb next h))), q)) s)) }"

section \<open>The list of tasks that are ready to run\<close>

definition nxsched_add_readytorun :: "sched_s \<Rightarrow> ptr \<Rightarrow> (bool \<times> sched_s) option" where
  "nxsched_add_readytorun s btcb =
     (let rtcb = this_task s
      in if lockcount s rtcb > 0 \<and> sched_priority s rtcb < sched_priority s btcb
         then do { (_, s) \<leftarrow> nxsched_add_prioritized s btcb G_PENDINGTASKS;
                   Some (False, set_state btcb TSTATE_TASK_PENDING s) }
         else do { (head, s) \<leftarrow> nxsched_add_prioritized s btcb G_READYTORUN;
                   if head
                   then let s = set_state btcb TSTATE_TASK_RUNNING s;
                            s = set_state (flink (tcb_links s) btcb) TSTATE_TASK_READYTORUN s
                        in Some (True, s)
                   else Some (False, set_state btcb TSTATE_TASK_READYTORUN s) })"

definition nxsched_remove_readytorun :: "sched_s \<Rightarrow> ptr \<Rightarrow> bool \<times> sched_s" where
  "nxsched_remove_readytorun s rtcb =
     (let (doswitch, s) = (if blink (tcb_links s) rtcb = NULL
                           then let nxttcb = flink (tcb_links s) rtcb
                                in (True, set_state nxttcb TSTATE_TASK_RUNNING s)
                           else (False, s));
          s = on_list G_READYTORUN (dq_rem rtcb) s;
          s = set_state rtcb TSTATE_TASK_INVALID s
      in (doswitch, s))"

partial_function (option) merge_pending_loop :: "sched_s \<Rightarrow> ptr \<Rightarrow> ptr \<Rightarrow> bool \<Rightarrow> (bool \<times> sched_s) option" where
  "merge_pending_loop s ptcb rtcb ret =
     (if ptcb \<noteq> NULL
      then let pnext = flink (tcb_links s) ptcb
           in Option.bind (prio_search s (sched_priority s ptcb) rtcb) (\<lambda>rtcb.
              if rtcb = NULL then None
              else let rprev = blink (tcb_links s) rtcb
                   in if rprev = NULL
                      then let s = on_list G_READYTORUN (\<lambda>(h, q). (set_blink rtcb ptcb (set_blink ptcb NULL (set_flink ptcb rtcb h)),
                                     q\<lparr>dq_head := ptcb\<rparr>)) s;
                               s = set_state rtcb TSTATE_TASK_READYTORUN s;
                               s = set_state ptcb TSTATE_TASK_RUNNING s
                           in merge_pending_loop s pnext ptcb True
                      else let s = on_list G_READYTORUN (\<lambda>(h, q). (set_blink rtcb ptcb (set_flink rprev ptcb
                                     (set_blink ptcb rprev (set_flink ptcb rtcb h))), q)) s;
                               s = set_state ptcb TSTATE_TASK_READYTORUN s
                           in merge_pending_loop s pnext ptcb ret)
      else Some (ret, s))"

declare merge_pending_loop.simps [code]

definition nxsched_merge_pending :: "sched_s \<Rightarrow> (bool \<times> sched_s) option" where
  "nxsched_merge_pending s =
     do { (ret, s) \<leftarrow> merge_pending_loop s (dq_head (task_list s G_PENDINGTASKS)) (this_task s) False;
          Some (ret, on_list G_PENDINGTASKS (\<lambda>(h, q). (h, q\<lparr>dq_head := NULL, dq_tail := NULL\<rparr>)) s) }"

section \<open>Blocked tasks\<close>

text \<open>\<open>tasklist_of\<close> is the macro \<open>TLIST_BLOCKED\<close>; the callers pass states that have a list.\<close>

definition tasklist_of :: "tstate \<Rightarrow> tlist" where
  "tasklist_of st = (case TLIST_HEAD st of Some L \<Rightarrow> L | None \<Rightarrow> G_INACTIVETASKS)"

definition nxsched_add_blocked :: "sched_s \<Rightarrow> ptr \<Rightarrow> tstate \<Rightarrow> sched_s option" where
  "nxsched_add_blocked s btcb st =
     do { let tasklist = tasklist_of st;
          s \<leftarrow> (if TLIST_ISPRIORITIZED st
                then do { (_, s) \<leftarrow> nxsched_add_prioritized s btcb tasklist; Some s }
                else Some (on_list tasklist (dq_addlast btcb) s));
          Some (set_state btcb st s) }"

definition nxsched_remove_blocked :: "sched_s \<Rightarrow> ptr \<Rightarrow> sched_s" where
  "nxsched_remove_blocked s btcb =
     (let st = task_state s btcb;
          s = on_list (tasklist_of st) (dq_rem btcb) s
      in set_state btcb TSTATE_TASK_INVALID s)"

section \<open>Changes of the running task\<close>

definition up_block_task :: "sched_s \<Rightarrow> ptr \<Rightarrow> tstate \<Rightarrow> (bool \<times> sched_s) option" where
  "up_block_task s tcb st =
     do { let (switch_needed, s) = nxsched_remove_readytorun s tcb;
          s \<leftarrow> nxsched_add_blocked s tcb st;
          if dq_head (task_list s G_PENDINGTASKS) \<noteq> NULL
          then do { (ret, s) \<leftarrow> nxsched_merge_pending s; Some (switch_needed \<or> ret, s) }
          else Some (switch_needed, s) }"

definition up_unblock_task :: "sched_s \<Rightarrow> ptr \<Rightarrow> (bool \<times> sched_s) option" where
  "up_unblock_task s tcb = nxsched_add_readytorun (nxsched_remove_blocked s tcb) tcb"

definition up_release_pending :: "sched_s \<Rightarrow> (bool \<times> sched_s) option" where
  "up_release_pending s = nxsched_merge_pending s"

definition up_reprioritize_rtr :: "sched_s \<Rightarrow> ptr \<Rightarrow> nat \<Rightarrow> (bool \<times> sched_s) option" where
  "up_reprioritize_rtr s tcb priority =
     do { let (switch_needed, s) = nxsched_remove_readytorun s tcb;
          let s = set_prio tcb priority s;
          (ret, s) \<leftarrow> nxsched_add_readytorun s tcb;
          let switch_needed = (switch_needed \<noteq> ret);
          if switch_needed \<and> dq_head (task_list s G_PENDINGTASKS) \<noteq> NULL
          then do { (_, s) \<leftarrow> nxsched_merge_pending s; Some (switch_needed, s) }
          else Some (switch_needed, s) }"

text \<open>The count of locks has 16 bits; \<open>lockable\<close> is what \<open>sched_lock\<close> asserts in debug builds.\<close>

definition MAX_LOCK_COUNT :: int where "MAX_LOCK_COUNT = 127"

definition lockable :: "sched_s \<Rightarrow> bool" where
  "lockable s = (lockcount s (this_task s) < MAX_LOCK_COUNT)"

definition sched_lock :: "bool \<Rightarrow> sched_s \<Rightarrow> sched_s" where
  "sched_lock isr s =
     (let rtcb = this_task s
      in if rtcb \<noteq> NULL \<and> \<not> isr
         then s\<lparr>lockcount := (lockcount s)(rtcb := to_int16 (lockcount s rtcb + 1))\<rparr> else s)"

definition sched_unlock :: "bool \<Rightarrow> sched_s \<Rightarrow> (bool \<times> sched_s) option" where
  "sched_unlock isr s =
     (let rtcb = this_task s
      in if rtcb \<noteq> NULL \<and> \<not> isr
         then let s = (if lockcount s rtcb > 0
                       then s\<lparr>lockcount := (lockcount s)(rtcb := lockcount s rtcb - 1)\<rparr> else s)
              in if lockcount s rtcb \<le> 0
                 then let s = s\<lparr>lockcount := (lockcount s)(rtcb := 0)\<rparr>
                      in if dq_head (task_list s G_PENDINGTASKS) \<noteq> NULL then up_release_pending s
                         else Some (False, s)
                 else Some (False, s)
         else Some (False, s))"

section \<open>Priorities\<close>

definition nxsched_running_setpriority :: "sched_s \<Rightarrow> ptr \<Rightarrow> nat \<Rightarrow> (bool \<times> sched_s) option" where
  "nxsched_running_setpriority s tcb prio =
     (let nxttcb = flink (tcb_links s) tcb
      in if prio \<le> sched_priority s nxttcb then up_reprioritize_rtr s tcb prio
         else Some (False, set_prio tcb prio s))"

definition nxsched_readytorun_setpriority :: "sched_s \<Rightarrow> ptr \<Rightarrow> nat \<Rightarrow> (bool \<times> sched_s) option" where
  "nxsched_readytorun_setpriority s tcb prio =
     (let rtcb = this_task s
      in if prio > sched_priority s rtcb then up_reprioritize_rtr s tcb prio
         else do { let (_, s) = nxsched_remove_readytorun s tcb;
                   let s = set_prio tcb prio s;
                   (_, s) \<leftarrow> nxsched_add_readytorun s tcb;
                   Some (False, s) })"

definition nxsched_blocked_setpriority :: "sched_s \<Rightarrow> ptr \<Rightarrow> nat \<Rightarrow> (bool \<times> sched_s) option" where
  "nxsched_blocked_setpriority s tcb prio =
     (let st = task_state s tcb
      in if TLIST_ISPRIORITIZED st
         then do { let s = on_list (tasklist_of st) (dq_rem tcb) s;
                   let s = set_prio tcb prio s;
                   (_, s) \<leftarrow> nxsched_add_prioritized s tcb (tasklist_of st);
                   Some (False, s) }
         else Some (False, set_prio tcb prio s))"

text \<open>The result is the value returned and whether the context switches.\<close>

definition nxsched_set_priority :: "sched_s \<Rightarrow> ptr \<Rightarrow> int \<Rightarrow> (int \<times> bool \<times> sched_s) option" where
  "nxsched_set_priority s tcb prio =
     (if prio < int SCHED_PRIORITY_MIN \<or> prio > int SCHED_PRIORITY_MAX then Some (- EINVAL, False, s)
      else do { (sw, s) \<leftarrow> (case task_state s tcb of
                  TSTATE_TASK_RUNNING \<Rightarrow> nxsched_running_setpriority s tcb (nat prio)
                | TSTATE_TASK_READYTORUN \<Rightarrow> nxsched_readytorun_setpriority s tcb (nat prio)
                | _ \<Rightarrow> nxsched_blocked_setpriority s tcb (nat prio));
                Some (OK, sw, s) })"

text \<open>
  A new task: the part of \<open>nxthread_setup_scheduler\<close> that enters the task control block in the list of inactive
  tasks. A later \<open>up_unblock_task\<close> (\<open>nxtask_activate\<close>) starts the task.
\<close>

definition setup_scheduler_lists :: "sched_s \<Rightarrow> ptr \<Rightarrow> int \<Rightarrow> (bool \<times> sched_s) option" where
  "setup_scheduler_lists s tcb priority =
     (let s = set_prio tcb (nat (priority mod 256)) s;
          s = set_state tcb TSTATE_TASK_INVALID s;
          s = sched_lock False s;
          s = on_list G_INACTIVETASKS (dq_addfirst tcb) s;
          s = set_state tcb TSTATE_TASK_INACTIVE s
      in sched_unlock False s)"

text \<open>
  The start in \<open>nx_start\<close>: all lists are empty and all control blocks zero, where the state 0 is
  \<open>TSTATE_TASK_INVALID\<close>; the idle task is marked as running and becomes the only task of the list of ready tasks.
\<close>

definition init_task_lists :: sched_s where
  "init_task_lists =
     \<lparr>tcb_links = \<lparr>flink = \<lambda>_. NULL, blink = \<lambda>_. NULL\<rparr>, task_list = \<lambda>_. dq_init, sched_priority = \<lambda>_. 0,
      task_state = \<lambda>_. TSTATE_TASK_INVALID, lockcount = \<lambda>_. 0\<rparr>"

definition init_idle_tcb :: "ptr \<Rightarrow> sched_s \<Rightarrow> sched_s" where
  "init_idle_tcb idle s = set_state idle TSTATE_TASK_RUNNING s"

definition nx_start_lists :: "ptr \<Rightarrow> sched_s" where
  "nx_start_lists idle =
     on_list (tasklist_of TSTATE_TASK_RUNNING) (dq_addfirst idle) (init_idle_tcb idle init_task_lists)"

end
