(* ===== verification/Sched_Prio.thy ===== *)
theory Sched_Prio
  imports Sched_Lists
begin

text \<open>
  The task lists of the scheduler as lists ordered by priority. \<open>lists_ok s A\<close> says that memory holds the lists
  \<open>A\<close>, disjoint from one another; every operation is shown to be an operation on these lists, where
  \<open>prio_insert\<close> is the insertion behind all tasks of the same or a higher priority.
\<close>

section \<open>Operations on one list leave the others alone\<close>

definition only_at :: "ptr set \<Rightarrow> dq_links \<Rightarrow> dq_links \<Rightarrow> bool" where
  "only_at X h h' \<longleftrightarrow> (\<forall>x. x \<notin> X \<longrightarrow> flink h' x = flink h x \<and> blink h' x = blink h x)"

lemma only_at_rep:
  assumes "only_at X h h'" "set xs \<inter> X = {}" "dq_rep (h, q) xs"
  shows "dq_rep (h', q) xs"
proof -
  have "flink h' x = flink h x" "blink h' x = blink h x" if "x \<in> set xs" for x
    using assms(1,2) that by (auto simp: only_at_def)
  then show ?thesis
    using assms(3) lseg_cong_on [of xs "flink h'" "flink h"] lseg_cong_on [of "rev xs" "blink h'" "blink h"]
    by (simp add: dq_rep_def)
qed

lemma addlast_only:
  assumes "dq_rep (h, q) xs"
  shows "only_at (insert n (set xs)) h (fst (dq_addlast n (h, q)))"
proof (cases xs rule: rev_cases)
  case Nil
  then show ?thesis using dq_repD [OF assms] by (auto simp: only_at_def dq_addlast_def Let_def)
next
  case (snoc ys y)
  then show ?thesis using dq_repD(4) [OF assms] by (auto simp: only_at_def dq_addlast_def Let_def)
qed

lemma addfirst_only:
  assumes "dq_rep (h, q) xs"
  shows "only_at (insert n (set xs)) h (fst (dq_addfirst n (h, q)))"
  using dq_repD(3) [OF assms] hd0_in_set [of xs] by (cases xs) (auto simp: only_at_def dq_addfirst_def Let_def)

lemma addbefore_only:
  assumes "dq_rep (h, q) (ys @ p # zs)"
  shows "only_at (insert n (set (ys @ p # zs))) h (fst (dq_addbefore p n (h, q)))"
proof (cases "dq_head q = NULL \<or> p = dq_head q")
  case True
  then show ?thesis using addfirst_only [OF assms, of n] by (simp add: dq_addbefore_def)
next
  case False
  then have "ys \<noteq> []" using dq_repD(3) [OF assms] by auto
  then have "blink h p \<in> set ys" using dq_rep_links(2) [OF assms] hd0_in_set [of "rev ys"] by simp
  then show ?thesis using False by (auto simp: only_at_def dq_addbefore_def Let_def)
qed

lemma rem_only:
  assumes "dq_rep (h, q) (ys @ n # zs)"
  shows "only_at (set (ys @ n # zs)) h (fst (dq_rem n (h, q)))"
proof -
  have "flink h n \<noteq> NULL \<Longrightarrow> flink h n \<in> set zs" "blink h n \<noteq> NULL \<Longrightarrow> blink h n \<in> set ys"
    using dq_rep_links [OF assms] hd0_in_set [of zs] hd0_in_set [of "rev ys"] by (cases zs; cases ys rule: rev_cases; auto)+
  then show ?thesis by (auto simp: only_at_def dq_rem_def Let_def)
qed

section \<open>The lists in memory\<close>

definition lists_ok :: "sched_s \<Rightarrow> (tlist \<Rightarrow> ptr list) \<Rightarrow> bool" where
  "lists_ok s A \<longleftrightarrow> (\<forall>L. dq_rep (tcb_links s, task_list s L) (A L)) \<and> (\<forall>L L'. L \<noteq> L' \<longrightarrow> set (A L) \<inter> set (A L') = {})"

abbreviation in_lists :: "(tlist \<Rightarrow> ptr list) \<Rightarrow> ptr \<Rightarrow> bool" where
  "in_lists A t \<equiv> \<exists>L. t \<in> set (A L)"

lemma lists_ok_on_list:
  assumes ok: "lists_ok s A" and f: "dq_rep (f (tcb_links s, task_list s L)) xs'"
    and o: "only_at (insert n (set (A L))) (tcb_links s) (fst (f (tcb_links s, task_list s L)))" "n \<in> set (A L) \<or> \<not> in_lists A n"
    and x: "set xs' \<subseteq> insert n (set (A L))"
  shows "lists_ok (on_list L f s) (A(L := xs'))"
proof -
  obtain h' q' where f': "f (tcb_links s, task_list s L) = (h', q')" by fastforce
  have dis: "set (A L') \<inter> insert n (set (A L)) = {}" if "L' \<noteq> L" for L'
    using ok o(2) that unfolding lists_ok_def by fast
  have "dq_rep (h', task_list s L') (A L')" if "L' \<noteq> L" for L'
    using only_at_rep [OF o(1) dis [OF that]] ok f' by (simp add: lists_ok_def)
  moreover have "set (A L') \<inter> set xs' = {}" if "L' \<noteq> L" for L'
    using dis [OF that] x by fast
  ultimately show ?thesis
    using ok f f' unfolding lists_ok_def on_list_def by (simp add: Int_commute)
qed

lemma on_list_fields [simp]:
  "sched_priority (on_list L f s) = sched_priority s" "task_state (on_list L f s) = task_state s"
  "lockcount (on_list L f s) = lockcount s"
  by (simp_all add: on_list_def split: prod.splits)

lemma set_fields [simp]:
  "sched_priority (set_state t st s) = sched_priority s" "task_state (set_state t st s) = (task_state s)(t := st)"
  "lockcount (set_state t st s) = lockcount s" "tcb_links (set_state t st s) = tcb_links s" "task_list (set_state t st s) = task_list s"
  "sched_priority (set_prio t p s) = (sched_priority s)(t := p)" "task_state (set_prio t p s) = task_state s"
  "lockcount (set_prio t p s) = lockcount s" "tcb_links (set_prio t p s) = tcb_links s" "task_list (set_prio t p s) = task_list s"
  by (simp_all add: set_state_def set_prio_def)

lemma lists_ok_cong [simp]:
  "lists_ok (set_state t st s) A = lists_ok s A" "lists_ok (set_prio t p s) A = lists_ok s A"
  "lists_ok (s\<lparr>lockcount := l\<rparr>) A = lists_ok s A"
  by (simp_all add: lists_ok_def)

lemma lists_okD:
  assumes "lists_ok s A"
  shows "dq_rep (tcb_links s, task_list s L) (A L)" "dq_head (task_list s L) = hd0 (A L)" "dq_tail (task_list s L) = hd0 (rev (A L))"
    "distinct (A L)" "NULL \<notin> set (A L)" "L \<noteq> L' \<Longrightarrow> set (A L) \<inter> set (A L') = {}"
  using assms dq_repD(3-6) [of "tcb_links s" "task_list s L" "A L"] by (auto simp: lists_ok_def)


lemma lists_ok_rem:
  assumes "lists_ok s A" "t \<in> set (A L)"
  shows "lists_ok (on_list L (dq_rem t) s) (A(L := remove1 t (A L)))"
proof -
  obtain ys zs where a: "A L = ys @ t # zs" "t \<notin> set ys" using split_list_first [OF assms(2)] by blast
  have r: "dq_rep (tcb_links s, task_list s L) (ys @ t # zs)" using lists_okD(1) [OF assms(1), of L] a(1) by simp
  show ?thesis
  proof (rule lists_ok_on_list [where n = t, OF assms(1)])
    show "dq_rep (dq_rem t (tcb_links s, task_list s L)) (remove1 t (A L))" using dq_rep_rem [OF r] a by (simp add: remove1_append)
    show "only_at (insert t (set (A L))) (tcb_links s) (fst (dq_rem t (tcb_links s, task_list s L)))"
      using rem_only [OF r] a by simp
  qed (use assms(2) set_remove1_subset [of t "A L"] in auto)
qed

lemma lists_ok_addlast:
  assumes "lists_ok s A" "\<not> in_lists A t" "t \<noteq> NULL"
  shows "lists_ok (on_list L (dq_addlast t) s) (A(L := A L @ [t]))"
proof -
  note r = lists_okD(1) [OF assms(1), of L]
  show ?thesis
    using lists_ok_on_list [where n = t, OF assms(1), of _ L "A L @ [t]"] dq_rep_addlast [OF r, of t] addlast_only [OF r, of t] assms
    by simp
qed

lemma lists_ok_addfirst:
  assumes "lists_ok s A" "\<not> in_lists A t" "t \<noteq> NULL"
  shows "lists_ok (on_list L (dq_addfirst t) s) (A(L := t # A L))"
proof -
  note r = lists_okD(1) [OF assms(1), of L]
  show ?thesis
    using lists_ok_on_list [where n = t, OF assms(1), of _ L "t # A L"] dq_rep_addfirst [OF r, of t] addfirst_only [OF r, of t] assms
    by simp
qed

lemma lists_ok_addbefore:
  assumes "lists_ok s A" "\<not> in_lists A t" "t \<noteq> NULL" "A L = ys @ p # zs"
  shows "lists_ok (on_list L (dq_addbefore p t) s) (A(L := ys @ t # p # zs))"
proof -
  have r: "dq_rep (tcb_links s, task_list s L) (ys @ p # zs)" using lists_okD(1) [OF assms(1), of L] assms(4) by simp
  have "t \<notin> set (ys @ p # zs)" using assms(2,4) by metis
  then show ?thesis
    using lists_ok_on_list [where n = t, OF assms(1), of _ L "ys @ t # p # zs"] dq_rep_addbefore [OF r, of t] addbefore_only [OF r, of t] assms
    by auto
qed

section \<open>Insertion by priority\<close>

definition prio_insert :: "(ptr \<Rightarrow> nat) \<Rightarrow> ptr \<Rightarrow> ptr list \<Rightarrow> ptr list" where
  "prio_insert pf t xs = takeWhile (\<lambda>x. pf t \<le> pf x) xs @ t # dropWhile (\<lambda>x. pf t \<le> pf x) xs"

abbreviation by_prio :: "(ptr \<Rightarrow> nat) \<Rightarrow> ptr list \<Rightarrow> bool" where
  "by_prio pf xs \<equiv> sorted_wrt (\<lambda>a b. pf b \<le> pf a) xs"

lemma set_prio_insert [simp]: "set (prio_insert pf t xs) = insert t (set xs)"
  using set_append [of "takeWhile (\<lambda>x. pf t \<le> pf x) xs" "dropWhile (\<lambda>x. pf t \<le> pf x) xs"]
  by (auto simp: prio_insert_def)

lemma prio_insert_not_Nil [simp]: "prio_insert pf t xs \<noteq> []"
  by (simp add: prio_insert_def)

lemma by_prio_dropWhile:
  assumes "by_prio pf xs" "x \<in> set (dropWhile (\<lambda>x. p \<le> pf x) xs)"
  shows "pf x < p"
  using assms
proof (induction xs)
  case (Cons y ys)
  then show ?case by (cases "p \<le> pf y") (auto intro: order.strict_trans1)
qed simp

lemma by_prio_insert:
  assumes "by_prio pf xs"
  shows "by_prio pf (prio_insert pf t xs)"
proof -
  have "by_prio pf (takeWhile (\<lambda>x. pf t \<le> pf x) xs @ dropWhile (\<lambda>x. pf t \<le> pf x) xs)" using assms by simp
  then show ?thesis
    using by_prio_dropWhile [OF assms, of _ "pf t"] unfolding prio_insert_def sorted_wrt_append
    by (auto simp: less_imp_le dest!: set_takeWhileD)
qed

lemma hd0_prio_insert: "hd0 (prio_insert pf t xs) = (if xs \<noteq> [] \<and> pf t \<le> pf (hd0 xs) then hd0 xs else t)"
  by (cases xs) (auto simp: prio_insert_def)

lemma last_prio_insert: "xs \<noteq> [] \<Longrightarrow> pf (last xs) < pf t \<Longrightarrow> last (prio_insert pf t xs) = last xs"
  unfolding prio_insert_def by (induction xs) (auto split: if_splits)

lemma prio_insert_cong: "(\<And>x. x \<in> insert t (set xs) \<Longrightarrow> pf x = pf' x) \<Longrightarrow> prio_insert pf t xs = prio_insert pf' t xs"
  unfolding prio_insert_def by (simp cong: takeWhile_cong dropWhile_cong)

lemma prio_search_ok:
  "lseg (flink (tcb_links s)) p xs NULL \<Longrightarrow> prio_search s k p = Some (hd0 (dropWhile (\<lambda>x. k \<le> sched_priority s x) xs))"
proof (induction xs arbitrary: p)
  case Nil
  then show ?case by (subst prio_search.simps) simp
next
  case (Cons x xs)
  then show ?case by (subst prio_search.simps) simp
qed

lemma link_commute: "set_flink a b (set_blink c d h) = set_blink c d (set_flink a b h)"
  by (simp add: set_flink_def set_blink_def)

lemma on_list_cong: "f (tcb_links s, task_list s L) = g (tcb_links s, task_list s L) \<Longrightarrow> on_list L f s = on_list L g s"
  by (simp add: on_list_def)

lemma add_before_is:
  assumes ok: "lists_ok s A" and a: "A L = ys @ p # zs"
  shows "ys = [] \<Longrightarrow> on_list L (\<lambda>(h, q). (set_blink p t (set_blink t NULL (set_flink t p h)), q\<lparr>dq_head := t\<rparr>)) s
            = on_list L (dq_addbefore p t) s"
    and "ys \<noteq> [] \<Longrightarrow> on_list L (\<lambda>(h, q). (set_blink p t (set_flink (hd0 (rev ys)) t (set_blink t (hd0 (rev ys)) (set_flink t p h))), q)) s
            = on_list L (dq_addbefore p t) s"
    and "blink (tcb_links s) p = hd0 (rev ys)" "p \<noteq> NULL" "ys \<noteq> [] \<Longrightarrow> hd0 (rev ys) \<noteq> NULL"
proof -
  have r: "dq_rep (tcb_links s, task_list s L) (ys @ p # zs)" using lists_okD(1) [OF ok, of L] a by simp
  note l = dq_rep_links [OF r] and d = dq_repD(3-6) [OF r]
  show "blink (tcb_links s) p = hd0 (rev ys)" "p \<noteq> NULL" by (rule l)+
  show "hd0 (rev ys) \<noteq> NULL" if "ys \<noteq> []" using that d(4) by (cases ys rule: rev_cases) auto
  show "ys = [] \<Longrightarrow> on_list L (\<lambda>(h, q). (set_blink p t (set_blink t NULL (set_flink t p h)), q\<lparr>dq_head := t\<rparr>)) s
            = on_list L (dq_addbefore p t) s"
    using d(1) l(3) by (intro on_list_cong) (simp add: dq_addbefore_def dq_addfirst_def Let_def link_commute)
  show "on_list L (\<lambda>(h, q). (set_blink p t (set_flink (hd0 (rev ys)) t (set_blink t (hd0 (rev ys)) (set_flink t p h))), q)) s
            = on_list L (dq_addbefore p t) s" if "ys \<noteq> []"
    using d(1,3,4) l(2) that by (intro on_list_cong) (cases ys; auto simp: dq_addbefore_def Let_def)
qed

lemma add_prioritized_ok:
  assumes ok: "lists_ok s A" and t: "\<not> in_lists A t" "t \<noteq> NULL"
  shows "\<exists>s'. nxsched_add_prioritized s t L = Some (hd0 (prio_insert (sched_priority s) t (A L)) = t, s') \<and>
    lists_ok s' (A(L := prio_insert (sched_priority s) t (A L))) \<and>
    sched_priority s' = sched_priority s \<and> task_state s' = task_state s \<and> lockcount s' = lockcount s"
proof -
  let ?P = "\<lambda>x. sched_priority s t \<le> sched_priority s x"
  note r = lists_okD [OF ok, of L]
  have srch: "prio_search s (sched_priority s t) (dq_head (task_list s L)) = Some (hd0 (dropWhile ?P (A L)))"
    by (rule prio_search_ok [OF dq_repD(1) [OF r(1)]])
  have nt: "t \<notin> set (A L)" using t(1) by blast
  show ?thesis
  proof (cases "dropWhile ?P (A L)")
    case Nil
    then have tw: "takeWhile ?P (A L) = A L" by simp
    have tl: "(dq_tail (task_list s L) = NULL) = (A L = [])" using r(3,5) by (cases "A L" rule: rev_cases) auto
    have "nxsched_add_prioritized s t L = Some (A L = [], on_list L (dq_addlast t) s)"
    proof (cases "A L = []")
      case True
      then show ?thesis
        using srch Nil r(2) tl by (simp add: nxsched_add_prioritized_def Let_def dq_addlast_def on_list_def)
    next
      case False
      then have "dq_head (task_list s L) \<noteq> NULL" using r(2,5) hd0_in_set [of "A L"] by metis
      then show ?thesis
        using srch Nil False tl by (simp add: nxsched_add_prioritized_def Let_def dq_addlast_def on_list_def)
    qed
    moreover have "prio_insert (sched_priority s) t (A L) = A L @ [t]" using Nil tw by (simp add: prio_insert_def)
    moreover have "(hd0 (A L @ [t]) = t) = (A L = [])" using nt by (cases "A L") auto
    ultimately show ?thesis using lists_ok_addlast [OF ok t, of L] by simp
  next
    case (Cons p zs)
    let ?ys = "takeWhile ?P (A L)"
    have a: "A L = ?ys @ p # zs" using takeWhile_dropWhile_id [of ?P "A L"] Cons by simp
    note b = add_before_is [OF ok a]
    have "nxsched_add_prioritized s t L = Some (?ys = [], on_list L (dq_addbefore p t) s)"
      using srch Cons b by (cases "?ys = []") (simp_all add: nxsched_add_prioritized_def Let_def)
    moreover have "prio_insert (sched_priority s) t (A L) = ?ys @ t # p # zs" using Cons by (simp add: prio_insert_def)
    moreover have "(hd0 (?ys @ t # p # zs) = t) = (?ys = [])" using nt a by (cases ?ys) (auto dest: set_takeWhileD)
    ultimately show ?thesis using lists_ok_addbefore [OF ok t a] by simp
  qed
qed

section \<open>Merging the pending tasks\<close>

text \<open>The states of the tasks on the list of tasks that are ready to run: the head runs, the others wait.\<close>

definition mark_rtr :: "ptr list \<Rightarrow> (ptr \<Rightarrow> tstate) \<Rightarrow> ptr \<Rightarrow> tstate" where
  "mark_rtr xs st t =
     (if t \<in> set xs then (if t = hd0 xs then TSTATE_TASK_RUNNING else TSTATE_TASK_READYTORUN) else st t)"

lemma mark_rtr_idem: "set xs \<subseteq> set ys \<Longrightarrow> mark_rtr ys (mark_rtr xs st) = mark_rtr ys st"
  by (auto simp: mark_rtr_def fun_eq_iff)

lemma mark_rtr_fix: "mark_rtr xs st = st \<longleftrightarrow>
    (\<forall>t \<in> set xs. st t = (if t = hd0 xs then TSTATE_TASK_RUNNING else TSTATE_TASK_READYTORUN))"
  unfolding fun_eq_iff mark_rtr_def by (metis (no_types, lifting))

lemma mark_rtr_insert:
  assumes "mark_rtr (ys @ r # zs) st = st" "p \<notin> set (ys @ r # zs)"
  shows "mark_rtr (ys @ p # r # zs) st =
    (if ys = [] then st(r := TSTATE_TASK_READYTORUN, p := TSTATE_TASK_RUNNING) else st(p := TSTATE_TASK_READYTORUN))"
proof -
  have "mark_rtr (ys @ p # r # zs) st t = (if ys = [] then st(r := TSTATE_TASK_READYTORUN, p := TSTATE_TASK_RUNNING)
      else st(p := TSTATE_TASK_READYTORUN)) t" for t
    using assms unfolding mark_rtr_fix by (cases ys) (auto simp: mark_rtr_def)
  then show ?thesis by blast
qed

definition no_pending :: "sched_s \<Rightarrow> sched_s" where
  "no_pending s = on_list G_PENDINGTASKS (\<lambda>(h, q). (h, q\<lparr>dq_head := NULL, dq_tail := NULL\<rparr>)) s"

lemma no_pending_simps [simp]:
  "tcb_links (no_pending s) = tcb_links s" "task_list (no_pending s) G_READYTORUN = task_list s G_READYTORUN"
  "no_pending (on_list G_READYTORUN f s) = on_list G_READYTORUN f (no_pending s)"
  "no_pending (set_state t x s) = set_state t x (no_pending s)"
  "sched_priority (no_pending s) = sched_priority s" "task_state (no_pending s) = task_state s" "lockcount (no_pending s) = lockcount s"
  by (auto simp: no_pending_def on_list_def set_state_def fun_upd_twist split: prod.splits)

lemma on_list_links: "tcb_links (on_list L f s) = fst (f (tcb_links s, task_list s L))"
  by (simp add: on_list_def split: prod.splits)

lemma no_pending_ok:
  assumes "lists_ok s A"
  shows "lists_ok (no_pending s) (A(G_PENDINGTASKS := []))"
  using assms unfolding lists_ok_def no_pending_def on_list_def by (auto simp: dq_rep_def)

lemma merge_insert_ok:
  assumes ok: "lists_ok s A" and a: "A L = ys @ r # zs" and t: "\<not> in_lists A t" "t \<noteq> NULL"
    and f: "f = (if ys = [] then (\<lambda>(h, q). (set_blink r t (set_blink t NULL (set_flink t r h)), q\<lparr>dq_head := t\<rparr>))
      else (\<lambda>(h, q). (set_blink r t (set_flink (hd0 (rev ys)) t (set_blink t (hd0 (rev ys)) (set_flink t r h))), q)))"
  shows "lists_ok (on_list L f s) (A(L := ys @ t # r # zs))"
    "lseg (flink (tcb_links s)) p ps NULL \<Longrightarrow> set ps \<inter> insert t (set (A L)) = {} \<Longrightarrow>
       lseg (flink (tcb_links (on_list L f s))) p ps NULL"
proof -
  have e: "on_list L f s = on_list L (dq_addbefore r t) s"
    using add_before_is(1,2) [OF ok a, of t] by (cases "ys = []") (simp_all add: f)
  show "lists_ok (on_list L f s) (A(L := ys @ t # r # zs))" unfolding e by (rule lists_ok_addbefore [OF ok t a])
  assume p: "lseg (flink (tcb_links s)) p ps NULL" "set ps \<inter> insert t (set (A L)) = {}"
  have "dq_rep (tcb_links s, task_list s L) (ys @ r # zs)" using lists_okD(1) [OF ok, of L] a by simp
  from addbefore_only [OF this, of t]
  have "only_at (insert t (set (A L))) (tcb_links s) (tcb_links (on_list L f s))" unfolding e on_list_links a .
  then have "flink (tcb_links (on_list L f s)) x = flink (tcb_links s) x" if "x \<in> set ps" for x
    using p(2) that by (auto simp: only_at_def)
  then show "lseg (flink (tcb_links (on_list L f s))) p ps NULL"
    using p(1) lseg_cong_on [of ps "flink (tcb_links (on_list L f s))"] by auto
qed

lemma takeWhile_prefix: "(\<forall>x \<in> set xs. P x) \<Longrightarrow> takeWhile P (xs @ ys) = xs @ takeWhile P ys"
  by (induction xs) auto

lemma dropWhile_prefix: "(\<forall>x \<in> set xs. P x) \<Longrightarrow> dropWhile P (xs @ ys) = dropWhile P ys"
  by (induction xs) auto

lemma hd0_fold_insert: "hd0 (fold (prio_insert pf) ps xs) \<in> insert (hd0 xs) (set ps)"
proof (induction ps arbitrary: xs)
  case (Cons p ps)
  then show ?case using Cons.IH [of "prio_insert pf p xs"] by (auto simp: hd0_prio_insert split: if_splits)
qed simp

lemma set_fold_insert: "set (fold (prio_insert pf) ps xs) = set ps \<union> set xs"
  by (induction ps arbitrary: xs) auto

text \<open>One round of the loop: the next pending task goes before the first task of a lower priority.\<close>

lemma merge_pending_step:
  assumes ok: "lists_ok (no_pending s) A" and a: "A G_READYTORUN = front @ r # rest"
    and p: "lseg (flink (tcb_links s)) p (p # ps) NULL" "\<not> in_lists A p" "set ps \<inter> insert p (set (A G_READYTORUN)) = {}"
    and front: "\<forall>x \<in> set front. sched_priority s p \<le> sched_priority s x"
    and last: "sched_priority s (last (A G_READYTORUN)) < sched_priority s p"
    and mark: "mark_rtr (A G_READYTORUN) (task_state s) = task_state s"
  shows "\<exists>s1 ys zs. merge_pending_loop s p r ret = merge_pending_loop s1 (hd0 ps) p (ret \<or> ys = []) \<and>
    prio_insert (sched_priority s) p (A G_READYTORUN) = ys @ p # zs \<and>
    (\<forall>x \<in> set ys. sched_priority s p \<le> sched_priority s x) \<and>
    lists_ok (no_pending s1) (A(G_READYTORUN := ys @ p # zs)) \<and> lseg (flink (tcb_links s1)) (hd0 ps) ps NULL \<and>
    task_state s1 = mark_rtr (ys @ p # zs) (task_state s) \<and>
    sched_priority s1 = sched_priority s \<and> lockcount s1 = lockcount s"
proof -
  let ?P = "\<lambda>x. sched_priority s p \<le> sched_priority s x" and ?R = "A G_READYTORUN"
  let ?ys = "takeWhile ?P ?R"
  have rep: "dq_rep (tcb_links s, task_list s G_READYTORUN) (front @ r # rest)"
    using lists_okD(1) [OF ok, of G_READYTORUN] a by simp
  have "lseg (flink (tcb_links s)) r (r # rest) NULL"
    using lseg_mid(1,3,4) [OF dq_repD(1) [OF rep]] by simp
  from prio_search_ok [OF this] have srch: "prio_search s (sched_priority s p) r = Some (hd0 (dropWhile ?P ?R))"
    unfolding a dropWhile_prefix [OF front] .
  have "dropWhile ?P ?R \<noteq> []" using last a unfolding dropWhile_eq_Nil_conv by (metis last_in_set linorder_not_less append_is_Nil_conv list.distinct(1))
  then obtain q zs where d: "dropWhile ?P ?R = q # zs" by (cases "dropWhile ?P ?R") auto
  have r': "?R = ?ys @ q # zs" using takeWhile_dropWhile_id [of ?P ?R] d by simp
  note b = add_before_is [OF ok r'] and pn = lseg_ConsD [OF p(1)]
  have np: "p \<notin> set ?R" using p(2) by blast
  let ?f = "if ?ys = [] then (\<lambda>(h, qq). (set_blink q p (set_blink p NULL (set_flink p q h)), qq\<lparr>dq_head := p\<rparr>))
      else (\<lambda>(h, qq). (set_blink q p (set_flink (hd0 (rev ?ys)) p (set_blink p (hd0 (rev ?ys)) (set_flink p q h))), qq))"
  let ?s1 = "on_list G_READYTORUN ?f s"
  let ?s2 = "if ?ys = [] then set_state p TSTATE_TASK_RUNNING (set_state q TSTATE_TASK_READYTORUN ?s1)
             else set_state p TSTATE_TASK_READYTORUN ?s1"
  have "merge_pending_loop s p r ret = merge_pending_loop ?s2 (hd0 ps) p (ret \<or> ?ys = [])"
    using b(3-5) pn srch d by (subst merge_pending_loop.simps, cases "?ys = []") (simp_all add: Let_def)
  moreover have "prio_insert (sched_priority s) p ?R = ?ys @ p # q # zs" using d by (simp add: prio_insert_def)
  moreover note m = merge_insert_ok [OF ok r' p(2) pn(2) refl]
  have "lists_ok (no_pending ?s2) (A(G_READYTORUN := ?ys @ p # q # zs))" using m(1) by (cases "?ys = []") simp_all
  moreover have "lseg (flink (tcb_links ?s2)) (hd0 ps) ps NULL"
    using m(2) [OF _ p(3), of "hd0 ps"] pn(4) by (cases "?ys = []") (simp_all add: on_list_links)
  moreover have "task_state ?s2 = mark_rtr (?ys @ p # q # zs) (task_state s)"
    using mark_rtr_insert [of ?ys q zs "task_state s" p] mark np r' by simp
  moreover have "\<forall>x \<in> set ?ys. ?P x" by (auto dest: set_takeWhileD)
  ultimately show ?thesis by (intro exI [of _ ?s2] exI [of _ ?ys] exI [of _ "q # zs"]) simp
qed

lemma merge_pending_loop_ok:
  assumes "lists_ok (no_pending s) A" "A G_READYTORUN = front @ r # rest"
    "lseg (flink (tcb_links s)) p ps NULL" "\<forall>t \<in> set ps. \<not> in_lists A t" "by_prio (sched_priority s) ps"
    "\<forall>t \<in> set ps. \<forall>x \<in> set front. sched_priority s t \<le> sched_priority s x"
    "\<forall>t \<in> set ps. sched_priority s (last (A G_READYTORUN)) < sched_priority s t"
    "mark_rtr (A G_READYTORUN) (task_state s) = task_state s"
    "R' = fold (prio_insert (sched_priority s)) ps (A G_READYTORUN)"
  shows "\<exists>s'. merge_pending_loop s p r ret = Some (ret \<or> hd0 R' \<noteq> hd0 (A G_READYTORUN), s') \<and>
    lists_ok (no_pending s') (A(G_READYTORUN := R')) \<and> task_state s' = mark_rtr R' (task_state s) \<and>
    sched_priority s' = sched_priority s \<and> lockcount s' = lockcount s"
  using assms
proof (induction ps arbitrary: s A front r rest p ret)
  case Nil
  then have "R' = A G_READYTORUN" "p = NULL" by simp_all
  with Nil(1,8) show ?case by (subst merge_pending_loop.simps) simp
next
  case (Cons t ps)
  let ?R = "A G_READYTORUN" and ?pf = "sched_priority s"
  have pt: "p = t" using Cons.prems(3) by simp
  have dis: "set ps \<inter> insert t (set ?R) = {}" using lseg_ConsD(5) [OF Cons.prems(3)] Cons.prems(4) by fastforce
  have tn: "\<not> in_lists A t" using Cons.prems(4) by simp
  obtain s1 ys zs where 1: "merge_pending_loop s p r ret = merge_pending_loop s1 (hd0 ps) t (ret \<or> ys = [])"
    "prio_insert ?pf t ?R = ys @ t # zs" "\<forall>x \<in> set ys. ?pf t \<le> ?pf x"
    "lists_ok (no_pending s1) (A(G_READYTORUN := ys @ t # zs))" "lseg (flink (tcb_links s1)) (hd0 ps) ps NULL"
    "task_state s1 = mark_rtr (ys @ t # zs) (task_state s)" "sched_priority s1 = ?pf" "lockcount s1 = lockcount s"
    using merge_pending_step [of s A front r rest t ps ret] Cons.prems dis tn unfolding pt by auto
  let ?A = "A(G_READYTORUN := ys @ t # zs)"
  have set1: "set (ys @ t # zs) = insert t (set ?R)" using set_prio_insert [of ?pf t ?R] 1(2) by simp
  have last1: "last (ys @ t # zs) = last ?R"
    using last_prio_insert [of ?R ?pf t] Cons.prems(2,7) 1(2) by simp
  have "\<exists>s'. merge_pending_loop s1 (hd0 ps) t (ret \<or> ys = []) = Some ((ret \<or> ys = []) \<or> hd0 R' \<noteq> hd0 (?A G_READYTORUN), s') \<and>
    lists_ok (no_pending s') (?A(G_READYTORUN := R')) \<and> task_state s' = mark_rtr R' (task_state s1) \<and>
    sched_priority s' = sched_priority s1 \<and> lockcount s' = lockcount s1"
  proof (rule Cons.IH [of s1 ?A ys t zs])
    show "lists_ok (no_pending s1) ?A" by (rule 1(4))
    show "\<forall>u \<in> set ps. \<not> in_lists ?A u" using Cons.prems(4) dis set1 by auto
    show "\<forall>u \<in> set ps. \<forall>x \<in> set ys. sched_priority s1 u \<le> sched_priority s1 x"
      using Cons.prems(5) 1(3,7) by (auto intro: order.trans)
    show "\<forall>u \<in> set ps. sched_priority s1 (last (?A G_READYTORUN)) < sched_priority s1 u"
      using Cons.prems(7) last1 1(7) by simp
    show "mark_rtr (?A G_READYTORUN) (task_state s1) = task_state s1" using 1(6) by (simp add: mark_rtr_idem)
    show "R' = fold (prio_insert (sched_priority s1)) ps (?A G_READYTORUN)" using Cons.prems(9) 1(2,7) by simp
  qed (use 1 Cons.prems(5) in simp_all)
  moreover have "(ys = [] \<or> hd0 R' \<noteq> hd0 (ys @ t # zs)) = (hd0 R' \<noteq> hd0 ?R)"
  proof -
    have "hd0 ?R \<in> set ?R" using Cons.prems(2) hd0_in_set [of ?R] by simp
    moreover have "hd0 R' \<in> insert (hd0 (ys @ t # zs)) (set ps)"
      using hd0_fold_insert [of ?pf ps "ys @ t # zs"] Cons.prems(9) 1(2) by simp
    moreover have "ys \<noteq> [] \<Longrightarrow> hd0 (ys @ t # zs) = hd0 ?R"
      using hd0_prio_insert [of ?pf t ?R] 1(2) lists_okD(4) [OF 1(4), of G_READYTORUN] by (cases ys) (auto split: if_splits)
    moreover have "t \<notin> set ?R" using tn by blast
    ultimately show ?thesis using dis by (cases ys) auto
  qed
  moreover have "mark_rtr R' (task_state s1) = mark_rtr R' (task_state s)"
    using 1(6) set1 set_fold_insert [of ?pf ps "ys @ t # zs"] Cons.prems(9) 1(2) by (auto intro: mark_rtr_idem)
  ultimately show ?case using 1(1,7,8) by (auto simp: fun_upd_def cong: if_cong)
qed

lemma merge_pending_ok:
  assumes ok: "lists_ok s A" and r: "A G_READYTORUN \<noteq> []" "by_prio (sched_priority s) (A G_PENDINGTASKS)"
    "\<forall>t \<in> set (A G_PENDINGTASKS). sched_priority s (last (A G_READYTORUN)) < sched_priority s t"
    "mark_rtr (A G_READYTORUN) (task_state s) = task_state s"
    and R': "R' = fold (prio_insert (sched_priority s)) (A G_PENDINGTASKS) (A G_READYTORUN)"
  shows "\<exists>s'. nxsched_merge_pending s = Some (hd0 R' \<noteq> hd0 (A G_READYTORUN), s') \<and>
    lists_ok s' (A(G_READYTORUN := R', G_PENDINGTASKS := [])) \<and> task_state s' = mark_rtr R' (task_state s) \<and>
    sched_priority s' = sched_priority s \<and> lockcount s' = lockcount s"
proof -
  let ?A = "A(G_PENDINGTASKS := [])" and ?ps = "A G_PENDINGTASKS"
  obtain x rest where x: "A G_READYTORUN = x # rest" using r(1) by (cases "A G_READYTORUN") auto
  have d: "\<forall>t \<in> set ?ps. \<not> in_lists ?A t"
    using lists_okD(6) [OF ok, of _ G_PENDINGTASKS] by (fastforce split: if_splits)
  have l: "lseg (flink (tcb_links s)) (dq_head (task_list s G_PENDINGTASKS)) ?ps NULL"
    using dq_repD(1) [OF lists_okD(1) [OF ok]] .
  have "\<exists>s'. merge_pending_loop s (dq_head (task_list s G_PENDINGTASKS)) x False = Some (False \<or> hd0 R' \<noteq> hd0 (?A G_READYTORUN), s') \<and>
    lists_ok (no_pending s') (?A(G_READYTORUN := R')) \<and> task_state s' = mark_rtr R' (task_state s) \<and>
    sched_priority s' = sched_priority s \<and> lockcount s' = lockcount s"
    using r x R' by (intro merge_pending_loop_ok [OF no_pending_ok [OF ok] _ l d, of "[]" x rest]) simp_all
  then obtain s' where s': "merge_pending_loop s (dq_head (task_list s G_PENDINGTASKS)) x False = Some (hd0 R' \<noteq> hd0 (A G_READYTORUN), s')"
    "lists_ok (no_pending s') (?A(G_READYTORUN := R'))" "task_state s' = mark_rtr R' (task_state s)"
    "sched_priority s' = sched_priority s" "lockcount s' = lockcount s"
    by auto
  moreover have "this_task s = x" using lists_okD(2) [OF ok, of G_READYTORUN] x by (simp add: this_task_def)
  ultimately show ?thesis
    by (intro exI [of _ "no_pending s'"]) (simp add: nxsched_merge_pending_def no_pending_def [symmetric] fun_upd_twist)
qed

end
