(* ===== verification/Sched_Inv.thy ===== *)
theory Sched_Inv
  imports Sched_Prio
begin

text \<open>
  The invariant of the task lists and its preservation by every operation that moves a task: a task is on
  the list of its state, the head of the list of ready tasks runs and has the highest priority of its list, the idle task
  ends this list, and no task is pending unless the running task has disabled preemption.
\<close>

section \<open>The invariant\<close>

text \<open>The part that also holds between the steps of an operation; \<open>A\<close> is the content of the lists.\<close>

definition lists_inv :: "ptr \<Rightarrow> (tlist \<Rightarrow> ptr list) \<Rightarrow> (ptr \<Rightarrow> nat) \<Rightarrow> (ptr \<Rightarrow> tstate) \<Rightarrow> bool" where
  "lists_inv idle A pf st \<longleftrightarrow>
     (\<forall>t L. t \<in> set (A L) \<longleftrightarrow> TLIST_HEAD (st t) = Some L) \<and>
     mark_rtr (A G_READYTORUN) st = st \<and>
     (\<forall>L. L \<notin> {G_INACTIVETASKS, G_WAITINGFORSIGNAL} \<longrightarrow> by_prio pf (A L)) \<and>
     A G_READYTORUN \<noteq> [] \<and> last (A G_READYTORUN) = idle \<and> pf idle = SCHED_PRIORITY_IDLE \<and>
     (\<forall>L. \<forall>t \<in> set (A L). t \<noteq> idle \<longrightarrow> SCHED_PRIORITY_MIN \<le> pf t)"

definition sched_inv :: "ptr \<Rightarrow> sched_s \<Rightarrow> (tlist \<Rightarrow> ptr list) \<Rightarrow> bool" where
  "sched_inv idle s A \<longleftrightarrow> lists_ok s A \<and> lists_inv idle A (sched_priority s) (task_state s) \<and>
     (A G_PENDINGTASKS \<noteq> [] \<longrightarrow> 0 < lockcount s (this_task s)) \<and> (\<forall>t. 0 \<le> lockcount s t)"

lemma lists_invD:
  assumes "lists_inv idle A pf st"
  shows "t \<in> set (A L) \<longleftrightarrow> TLIST_HEAD (st t) = Some L" "mark_rtr (A G_READYTORUN) st = st"
    "L \<notin> {G_INACTIVETASKS, G_WAITINGFORSIGNAL} \<Longrightarrow> by_prio pf (A L)"
    "A G_READYTORUN \<noteq> []" "last (A G_READYTORUN) = idle" "pf idle = SCHED_PRIORITY_IDLE"
    "t \<in> set (A L) \<Longrightarrow> t \<noteq> idle \<Longrightarrow> SCHED_PRIORITY_MIN \<le> pf t"
    "idle \<in> set (A G_READYTORUN)"
  using assms last_in_set [of "A G_READYTORUN"] unfolding lists_inv_def by auto

lemma idle_below: "SCHED_PRIORITY_IDLE < SCHED_PRIORITY_MIN"
  by (simp add: SCHED_PRIORITY_IDLE_def SCHED_PRIORITY_MIN_def)

lemma TLIST_simps:
  "TLIST_HEAD st = None \<longleftrightarrow> st = TSTATE_TASK_INVALID"
  "TLIST_HEAD st = Some L \<Longrightarrow> TLIST_ISPRIORITIZED st \<longleftrightarrow> L \<notin> {G_INACTIVETASKS, G_WAITINGFORSIGNAL}"
  "TLIST_HEAD st = Some L \<Longrightarrow> tasklist_of st = L"
  "TLIST_HEAD st = Some G_READYTORUN \<longleftrightarrow> st \<in> {TSTATE_TASK_RUNNING, TSTATE_TASK_READYTORUN}"
  "TLIST_HEAD st = Some G_PENDINGTASKS \<longleftrightarrow> st = TSTATE_TASK_PENDING"
  "is_blocked_state st \<longleftrightarrow> (\<exists>L. TLIST_HEAD st = Some L \<and> L \<notin> {G_READYTORUN, G_PENDINGTASKS})"
  by (cases st; auto simp: tasklist_of_def is_blocked_state_def)+

lemma off_lists: "lists_inv idle A pf st \<Longrightarrow> st t = TSTATE_TASK_INVALID \<Longrightarrow> \<not> in_lists A t"
  using lists_invD(1) [of idle A pf st t] by simp

section \<open>What the list operations keep\<close>

lemma lists_inv_set_prio:
  assumes "lists_inv idle A pf st" "t \<noteq> idle" "SCHED_PRIORITY_MIN \<le> p"
    "\<And>L. L \<notin> {G_INACTIVETASKS, G_WAITINGFORSIGNAL} \<Longrightarrow> t \<notin> set (A L)"
  shows "lists_inv idle A (pf(t := p)) st"
proof -
  have "by_prio (pf(t := p)) (A L)" if "L \<notin> {G_INACTIVETASKS, G_WAITINGFORSIGNAL}" for L
    using lists_invD(3) [OF assms(1) that] by (rule sorted_wrt_mono_rel [rotated]) (use assms(4) [OF that] in auto)
  then show ?thesis
    using assms(1-3) lists_invD(8) [OF assms(1)] unfolding lists_inv_def by auto
qed

lemma remove1_last: "t \<noteq> last xs \<Longrightarrow> xs \<noteq> [] \<Longrightarrow> remove1 t xs \<noteq> [] \<and> last (remove1 t xs) = last xs"
  by (induction xs) auto

lemma sorted_wrt_remove1: "sorted_wrt P xs \<Longrightarrow> sorted_wrt P (remove1 t xs)"
  by (induction xs) (auto dest: in_set_remove1 notin_set_remove1)

lemma lists_inv_remove:
  assumes inv: "lists_inv idle A pf st" and t: "t \<in> set (A L)" "t \<noteq> idle" and d: "\<And>L. distinct (A L)"
    and A': "A' = A(L := remove1 t (A L))"
  shows "lists_inv idle A' pf ((mark_rtr (A' G_READYTORUN) st)(t := TSTATE_TASK_INVALID))"
proof -
  note i = lists_invD [OF inv]
  have s: "set (A' K) = set (A K) - {t}" for K
    using d [of K] i(1) t(1) by (auto simp: A')
  let ?st = "(mark_rtr (A' G_READYTORUN) st)(t := TSTATE_TASK_INVALID)"
  have m: "TLIST_HEAD (mark_rtr (A' G_READYTORUN) st u) = TLIST_HEAD (st u)" for u
    using i(1) [of u G_READYTORUN] s [of G_READYTORUN] by (auto simp: mark_rtr_def)
  have 1: "u \<in> set (A' K) \<longleftrightarrow> TLIST_HEAD (?st u) = Some K" for u K
    using i(1) [of u K] m s [of K] by auto
  have 2: "mark_rtr (A' G_READYTORUN) ?st = ?st"
    using s [of G_READYTORUN] by (auto simp: mark_rtr_def fun_eq_iff)
  have 3: "by_prio pf (A' K)" if "K \<notin> {G_INACTIVETASKS, G_WAITINGFORSIGNAL}" for K
    using i(3) [OF that] by (cases "K = L") (simp_all add: A' sorted_wrt_remove1)
  have 4: "A' G_READYTORUN \<noteq> [] \<and> last (A' G_READYTORUN) = idle"
    using remove1_last [of t "A G_READYTORUN"] i(4,5) t(2) by (simp add: A')
  have 5: "\<forall>K. \<forall>u \<in> set (A' K). u \<noteq> idle \<longrightarrow> SCHED_PRIORITY_MIN \<le> pf u" using i(7) s by auto
  show ?thesis unfolding lists_inv_def using 1 2 3 4 5 i(6) by blast
qed

lemma lists_inv_ready:
  assumes inv: "lists_inv idle A pf st" and t: "st t = TSTATE_TASK_INVALID" "SCHED_PRIORITY_MIN \<le> pf t"
    and R': "R' = prio_insert pf t (A G_READYTORUN)"
  shows "lists_inv idle (A(G_READYTORUN := R')) pf (mark_rtr R' st)"
proof -
  note i = lists_invD [OF inv]
  have s: "set R' = insert t (set (A G_READYTORUN))" by (simp add: R')
  have 1: "u \<in> set ((A(G_READYTORUN := R')) K) \<longleftrightarrow> TLIST_HEAD (mark_rtr R' st u) = Some K" for u K
    using i(1) [of u K] i(1) [of u G_READYTORUN] t(1) s by (auto simp: mark_rtr_def)
  have 4: "last R' = idle" using last_prio_insert [of "A G_READYTORUN" pf t] i(4-6) t(2) idle_below by (simp add: R')
  have 5: "\<forall>K. \<forall>u \<in> set ((A(G_READYTORUN := R')) K). u \<noteq> idle \<longrightarrow> SCHED_PRIORITY_MIN \<le> pf u"
    using i(7) s t(2) by auto
  show ?thesis
    unfolding lists_inv_def using 1 4 5 i(3,6) by_prio_insert [of pf "A G_READYTORUN" t] mark_rtr_idem [of R' R' st] by (simp add: R')
qed

lemma lists_inv_add:
  assumes inv: "lists_inv idle A pf st" and t: "st t = TSTATE_TASK_INVALID" "SCHED_PRIORITY_MIN \<le> pf t"
    and x: "TLIST_HEAD st' = Some L" "L \<noteq> G_READYTORUN" "set xs = insert t (set (A L))"
      "L \<notin> {G_INACTIVETASKS, G_WAITINGFORSIGNAL} \<Longrightarrow> by_prio pf xs"
  shows "lists_inv idle (A(L := xs)) pf (st(t := st'))"
proof -
  note i = lists_invD [OF inv]
  have 1: "u \<in> set ((A(L := xs)) K) \<longleftrightarrow> TLIST_HEAD ((st(t := st')) u) = Some K" for u K
    using i(1) [of u K] t(1) x(1,3) by auto
  have 2: "mark_rtr (A G_READYTORUN) (st(t := st')) = st(t := st')"
    using i(1) [of t G_READYTORUN] i(2) t(1) unfolding mark_rtr_fix by auto
  have 5: "\<forall>K. \<forall>u \<in> set ((A(L := xs)) K). u \<noteq> idle \<longrightarrow> SCHED_PRIORITY_MIN \<le> pf u"
    using i(7) x(3) t(2) by auto
  show ?thesis
    unfolding lists_inv_def using 1 2 5 i(3-6) x(2,4) by simp
qed

lemma lists_inv_merge:
  assumes inv: "lists_inv idle A pf st" and R': "R' = fold (prio_insert pf) (A G_PENDINGTASKS) (A G_READYTORUN)"
  shows "lists_inv idle (A(G_READYTORUN := R', G_PENDINGTASKS := [])) pf (mark_rtr R' st)"
proof -
  note i = lists_invD [OF inv]
  have s: "set R' = set (A G_PENDINGTASKS) \<union> set (A G_READYTORUN)" by (simp add: R' set_fold_insert)
  have ps: "SCHED_PRIORITY_MIN \<le> pf u" if "u \<in> set (A G_PENDINGTASKS)" for u
    using i(1) [of u] i(7,8) that by (metis option.inject tlist.distinct(1))
  have *: "xs \<noteq> [] \<Longrightarrow> last xs = idle \<Longrightarrow> by_prio pf xs \<Longrightarrow> \<forall>u \<in> set ps. SCHED_PRIORITY_MIN \<le> pf u \<Longrightarrow>
      last (fold (prio_insert pf) ps xs) = idle \<and> by_prio pf (fold (prio_insert pf) ps xs) \<and> fold (prio_insert pf) ps xs \<noteq> []" for ps xs
    using i(6) idle_below by (induction ps arbitrary: xs) (auto simp: last_prio_insert by_prio_insert)
  have 1: "u \<in> set ((A(G_READYTORUN := R', G_PENDINGTASKS := [])) K) \<longleftrightarrow> TLIST_HEAD (mark_rtr R' st u) = Some K" for u K
    using i(1) [of u K] i(1) [of u G_READYTORUN] i(1) [of u G_PENDINGTASKS] s by (auto simp: mark_rtr_def)
  have 5: "\<forall>K. \<forall>u \<in> set ((A(G_READYTORUN := R', G_PENDINGTASKS := [])) K). u \<noteq> idle \<longrightarrow> SCHED_PRIORITY_MIN \<le> pf u"
    using i(7) s ps by auto
  show ?thesis
    unfolding lists_inv_def using 1 5 i(3,6) * [OF i(4,5) i(3), of "A G_PENDINGTASKS"] ps mark_rtr_idem [of R' R' st] R' by simp
qed

text \<open>The tasks outside \<open>X\<close> stay blocked, in the same state, or stay not blocked.\<close>

definition blocked_eq :: "ptr set \<Rightarrow> (ptr \<Rightarrow> tstate) \<Rightarrow> (ptr \<Rightarrow> tstate) \<Rightarrow> bool" where
  "blocked_eq X st st' \<longleftrightarrow> (\<forall>u x. u \<notin> X \<longrightarrow> is_blocked_state x \<longrightarrow> (st' u = x) = (st u = x))"

lemma blocked_eq_refl [simp]: "blocked_eq X st st"
  by (auto simp: blocked_eq_def)

lemma blocked_eq_trans: "blocked_eq X st st1 \<Longrightarrow> blocked_eq Y st1 st2 \<Longrightarrow> blocked_eq (X \<union> Y) st st2"
  by (auto simp: blocked_eq_def)

lemma blocked_eq_upd: "t \<in> X \<Longrightarrow> blocked_eq X st (st'(t := x)) = blocked_eq X st st'" "blocked_eq {t} st (st(t := x))"
  by (auto simp: blocked_eq_def)

lemma blocked_eq_ready:
  assumes "blocked_eq {t} st st'" "\<not> is_blocked_state (st t)" "\<not> is_blocked_state (st' t)"
  shows "blocked_eq {} st st'"
  using assms unfolding blocked_eq_def by (metis singletonD)

lemma ready_not_blocked:
  assumes "lists_inv idle A pf st" "t \<in> set (A G_READYTORUN) \<or> t \<in> set (A G_PENDINGTASKS)"
  shows "\<not> is_blocked_state (st t)"
  using assms(2) lists_invD(1) [OF assms(1), of t] TLIST_simps(6) [of "st t"] by auto

lemma blocked_eq_mark:
  assumes "lists_inv idle A pf st" "set R \<subseteq> X \<union> set (A G_READYTORUN) \<union> set (A G_PENDINGTASKS)"
  shows "blocked_eq X st (mark_rtr R st)"
proof -
  have n: "\<not> is_blocked_state (st u)" if "u \<in> set R" "u \<notin> X" for u
    using assms(2) that ready_not_blocked [OF assms(1), of u] by auto
  have "\<not> is_blocked_state (mark_rtr R st u)" if "u \<in> set R" for u
    using that by (simp add: mark_rtr_def is_blocked_state_def)
  with n show ?thesis unfolding blocked_eq_def by (metis mark_rtr_def)
qed

section \<open>What the operations do to the lists\<close>

definition sched_core :: "ptr \<Rightarrow> sched_s \<Rightarrow> (tlist \<Rightarrow> ptr list) \<Rightarrow> bool" where
  "sched_core idle s A \<longleftrightarrow> lists_ok s A \<and> lists_inv idle A (sched_priority s) (task_state s)"

abbreviation same_tcbs :: "sched_s \<Rightarrow> sched_s \<Rightarrow> bool" where
  "same_tcbs s s' \<equiv> sched_priority s' = sched_priority s \<and> lockcount s' = lockcount s"

lemma sched_coreD:
  assumes "sched_core idle s A"
  shows "lists_ok s A" "lists_inv idle A (sched_priority s) (task_state s)" "this_task s = hd0 (A G_READYTORUN)"
    "t \<in> set (A L) \<Longrightarrow> t \<noteq> NULL" "distinct (A L)"
proof -
  show ok: "lists_ok s A" "lists_inv idle A (sched_priority s) (task_state s)" using assms by (simp_all add: sched_core_def)
  show "this_task s = hd0 (A G_READYTORUN)" "distinct (A L)" using lists_okD(2,4) [OF ok(1)] by (simp_all add: this_task_def)
  show "t \<in> set (A L) \<Longrightarrow> t \<noteq> NULL" using lists_okD(5) [OF ok(1)] by metis
qed

lemma mark_rtr_remove:
  assumes "mark_rtr (ys @ t # zs) st = st" "zs \<noteq> []"
  shows "(mark_rtr (ys @ zs) st)(t := x) = (if ys = [] then st(hd0 zs := TSTATE_TASK_RUNNING) else st)(t := x)"
proof -
  have "((mark_rtr (ys @ zs) st)(t := x)) u = ((if ys = [] then st(hd0 zs := TSTATE_TASK_RUNNING) else st)(t := x)) u" for u
    using assms hd0_in_set [OF assms(2)] unfolding mark_rtr_fix by (cases ys) (auto simp: mark_rtr_def)
  then show ?thesis by blast
qed

lemma remove_readytorun_ok:
  assumes core: "sched_core idle s A" and t: "t \<in> set (A G_READYTORUN)" "t \<noteq> idle"
  shows "\<exists>s'. nxsched_remove_readytorun s t = (t = this_task s, s') \<and>
    sched_core idle s' (A(G_READYTORUN := remove1 t (A G_READYTORUN))) \<and>
    task_state s' t = TSTATE_TASK_INVALID \<and> same_tcbs s s' \<and> blocked_eq {t} (task_state s) (task_state s')"
proof -
  note c = sched_coreD [OF core] and i = lists_invD [OF sched_coreD(2) [OF core]]
  let ?R = "A G_READYTORUN" and ?A' = "A(G_READYTORUN := remove1 t (A G_READYTORUN))"
  obtain ys zs where r: "?R = ys @ t # zs" "t \<notin> set ys" using split_list_first [OF t(1)] by blast
  have rep: "dq_rep (tcb_links s, task_list s G_READYTORUN) (ys @ t # zs)" using lists_okD(1) [OF c(1)] r(1) by metis
  note l = dq_rep_links [OF rep]
  have "(blink (tcb_links s) t = NULL) = (ys = [])"
    using l(2) dq_repD(6) [OF rep] by (cases ys rule: rev_cases) auto
  moreover have "(t = hd0 ?R) = (ys = [])" using r by (cases ys) auto
  ultimately have hd: "(blink (tcb_links s) t = NULL) = (ys = [])" "(t = this_task s) = (ys = [])" using c(3) by simp_all
  let ?s0 = "if ys = [] then set_state (hd0 zs) TSTATE_TASK_RUNNING s else s"
  let ?s' = "set_state t TSTATE_TASK_INVALID (on_list G_READYTORUN (dq_rem t) ?s0)"
  have e: "nxsched_remove_readytorun s t = (t = this_task s, ?s')"
    using hd l(1) by (simp add: nxsched_remove_readytorun_def Let_def)
  have rm: "remove1 t ?R = ys @ zs" using r by (simp add: remove1_append)
  have zs: "zs \<noteq> []" using i(5) t(2) r by auto
  have st: "task_state ?s' = (mark_rtr (?A' G_READYTORUN) (task_state s))(t := TSTATE_TASK_INVALID)"
    using mark_rtr_remove [of ys t zs "task_state s" TSTATE_TASK_INVALID] i(2) zs rm r by simp
  have lo: "lists_ok ?s' ?A'" using lists_ok_rem [of ?s0 A t G_READYTORUN] c(1) t(1) by simp
  have pr: "sched_priority ?s' = sched_priority s" "lockcount ?s' = lockcount s" by simp_all
  have "lists_inv idle ?A' (sched_priority ?s') (task_state ?s')"
    unfolding st pr by (rule lists_inv_remove [OF c(2) t c(5) refl])
  moreover have "blocked_eq {t} (task_state s) (task_state ?s')"
    unfolding st using blocked_eq_mark [OF c(2), of "remove1 t ?R" "{t}"] set_remove1_subset [of t ?R]
    by (auto simp: blocked_eq_upd)
  ultimately show ?thesis using lo pr e unfolding sched_core_def by (intro exI [of _ ?s']) simp
qed

lemma remove_blocked_ok:
  assumes core: "sched_core idle s A" and t: "TLIST_HEAD (task_state s t) = Some L" "L \<noteq> G_READYTORUN"
  shows "sched_core idle (nxsched_remove_blocked s t) (A(L := remove1 t (A L)))"
    "task_state (nxsched_remove_blocked s t) = (task_state s)(t := TSTATE_TASK_INVALID)" "same_tcbs s (nxsched_remove_blocked s t)"
proof -
  note c = sched_coreD [OF core] and i = lists_invD [OF sched_coreD(2) [OF core]]
  have tl: "t \<in> set (A L)" using i(1) t(1) by simp
  have ti: "t \<noteq> idle" using i(1,8) t by force
  have e: "nxsched_remove_blocked s t = set_state t TSTATE_TASK_INVALID (on_list L (dq_rem t) s)"
    by (simp add: nxsched_remove_blocked_def Let_def TLIST_simps(3) [OF t(1)])
  have "mark_rtr (A G_READYTORUN) (task_state s) = task_state s" by (rule i(2))
  then have "lists_inv idle (A(L := remove1 t (A L))) (sched_priority s) ((task_state s)(t := TSTATE_TASK_INVALID))"
    using lists_inv_remove [OF c(2) tl ti c(5) refl] t(2) by simp
  then show "sched_core idle (nxsched_remove_blocked s t) (A(L := remove1 t (A L)))"
    using lists_ok_rem [OF c(1) tl] by (simp add: e sched_core_def)
qed (simp_all add: nxsched_remove_blocked_def Let_def)

lemma add_readytorun_ok:
  assumes core: "sched_core idle s A" and t: "task_state s t = TSTATE_TASK_INVALID" "t \<noteq> NULL" "SCHED_PRIORITY_MIN \<le> sched_priority s t"
    and R': "R' = prio_insert (sched_priority s) t (A G_READYTORUN)" and P': "P' = prio_insert (sched_priority s) t (A G_PENDINGTASKS)"
  shows "\<exists>s'. same_tcbs s s' \<and>
    (if 0 < lockcount s (this_task s) \<and> sched_priority s (this_task s) < sched_priority s t
     then nxsched_add_readytorun s t = Some (False, s') \<and> sched_core idle s' (A(G_PENDINGTASKS := P')) \<and>
       task_state s' = (task_state s)(t := TSTATE_TASK_PENDING)
     else nxsched_add_readytorun s t = Some (hd0 R' = t, s') \<and> sched_core idle s' (A(G_READYTORUN := R')) \<and>
       task_state s' = mark_rtr R' (task_state s))"
proof -
  note c = sched_coreD [OF core] and i = lists_invD [OF sched_coreD(2) [OF core]]
  have off: "\<not> in_lists A t" by (rule off_lists [OF c(2) t(1)])
  show ?thesis
  proof (cases "0 < lockcount s (this_task s) \<and> sched_priority s (this_task s) < sched_priority s t")
    case True
    obtain s1 where s1: "nxsched_add_prioritized s t G_PENDINGTASKS = Some (hd0 P' = t, s1)"
      "lists_ok s1 (A(G_PENDINGTASKS := P'))" "sched_priority s1 = sched_priority s" "task_state s1 = task_state s" "lockcount s1 = lockcount s"
      using add_prioritized_ok [OF c(1) off t(2), of G_PENDINGTASKS] unfolding P' by blast
    have "lists_inv idle (A(G_PENDINGTASKS := P')) (sched_priority s) ((task_state s)(t := TSTATE_TASK_PENDING))"
      using i(3) by (intro lists_inv_add [OF c(2) t(1,3)]) (auto simp: P' by_prio_insert)
    then show ?thesis using s1 True
      by (intro exI [of _ "set_state t TSTATE_TASK_PENDING s1"]) (simp add: nxsched_add_readytorun_def Let_def sched_core_def)
  next
    case False
    obtain s1 where s1: "nxsched_add_prioritized s t G_READYTORUN = Some (hd0 R' = t, s1)"
      "lists_ok s1 (A(G_READYTORUN := R'))" "sched_priority s1 = sched_priority s" "task_state s1 = task_state s" "lockcount s1 = lockcount s"
      using add_prioritized_ok [OF c(1) off t(2), of G_READYTORUN] unfolding R' by blast
    let ?P = "\<lambda>x. sched_priority s t \<le> sched_priority s x" and ?R = "A G_READYTORUN"
    have "dropWhile ?P ?R \<noteq> []"
      using i(5,6,8) t(3) idle_below unfolding dropWhile_eq_Nil_conv by (metis linorder_not_less order.strict_trans2)
    then obtain q zs where d: "dropWhile ?P ?R = q # zs" by (cases "dropWhile ?P ?R") auto
    let ?ys = "takeWhile ?P ?R"
    have r: "?R = ?ys @ q # zs" "R' = ?ys @ t # q # zs" using takeWhile_dropWhile_id [of ?P ?R] d by (simp_all add: R' prio_insert_def)
    have nt: "t \<notin> set (?ys @ q # zs)" using off r(1) by metis
    have hd: "(hd0 R' = t) = (?ys = [])" using r(2) nt by (cases ?ys) auto
    have m: "mark_rtr R' (task_state s) = (if ?ys = [] then (task_state s)(q := TSTATE_TASK_READYTORUN, t := TSTATE_TASK_RUNNING)
        else (task_state s)(t := TSTATE_TASK_READYTORUN))"
      using mark_rtr_insert [of ?ys q zs "task_state s" t] nt i(2) r by simp
    have rep: "dq_rep (tcb_links s1, task_list s1 G_READYTORUN) (?ys @ t # q # zs)" using lists_okD(1) [OF s1(2), of G_READYTORUN] r(2) by simp
    let ?s' = "if ?ys = [] then set_state q TSTATE_TASK_READYTORUN (set_state t TSTATE_TASK_RUNNING s1) else set_state t TSTATE_TASK_READYTORUN s1"
    have "nxsched_add_readytorun s t = Some (hd0 R' = t, ?s')"
      using s1(1) False dq_rep_links(1) [OF rep] hd by (auto simp: nxsched_add_readytorun_def Let_def)
    moreover have "task_state ?s' = mark_rtr R' (task_state s)" unfolding m using s1(4) nt by (auto simp: fun_eq_iff)
    moreover have "lists_ok ?s' (A(G_READYTORUN := R'))" "same_tcbs s ?s'" using s1 by simp_all
    moreover have "lists_inv idle (A(G_READYTORUN := R')) (sched_priority s) (mark_rtr R' (task_state s))"
      by (rule lists_inv_ready [OF c(2) t(1,3) R'])
    ultimately show ?thesis
      unfolding if_not_P [OF False] sched_core_def by (intro exI [of _ ?s'] conjI) (simp_all only: simp_thms)
  qed
qed

lemma add_blocked_ok:
  assumes core: "sched_core idle s A" and t: "task_state s t = TSTATE_TASK_INVALID" "t \<noteq> NULL" "SCHED_PRIORITY_MIN \<le> sched_priority s t"
    and L: "TLIST_HEAD st = Some L" "L \<noteq> G_READYTORUN"
  shows "\<exists>s'. nxsched_add_blocked s t st = Some s' \<and>
    sched_core idle s' (A(L := if TLIST_ISPRIORITIZED st then prio_insert (sched_priority s) t (A L) else A L @ [t])) \<and>
    task_state s' = (task_state s)(t := st) \<and> same_tcbs s s'"
proof -
  note c = sched_coreD [OF core] and i = lists_invD [OF sched_coreD(2) [OF core]]
  have off: "\<not> in_lists A t" by (rule off_lists [OF c(2) t(1)])
  let ?xs = "if TLIST_ISPRIORITIZED st then prio_insert (sched_priority s) t (A L) else A L @ [t]"
  have inv: "lists_inv idle (A(L := ?xs)) (sched_priority s) ((task_state s)(t := st))"
    using i(3) [of L] by (intro lists_inv_add [OF c(2) t(1,3) L]) (auto simp: by_prio_insert TLIST_simps(2) [OF L(1)])
  obtain s1 where s1: "nxsched_add_prioritized s t L = Some (hd0 (prio_insert (sched_priority s) t (A L)) = t, s1)"
    "lists_ok s1 (A(L := prio_insert (sched_priority s) t (A L)))" "sched_priority s1 = sched_priority s"
    "task_state s1 = task_state s" "lockcount s1 = lockcount s"
    using add_prioritized_ok [OF c(1) off t(2), of L] by blast
  let ?s' = "set_state t st (if TLIST_ISPRIORITIZED st then s1 else on_list L (dq_addlast t) s)"
  have "nxsched_add_blocked s t st = Some ?s'"
    using s1(1) by (simp add: nxsched_add_blocked_def Let_def TLIST_simps(3) [OF L(1)])
  then show ?thesis
    using inv s1 lists_ok_addlast [OF c(1) off t(2), of L] by (intro exI [of _ ?s']) (auto simp: sched_core_def)
qed

lemma merge_pending_core:
  assumes core: "sched_core idle s A"
    and R': "R' = fold (prio_insert (sched_priority s)) (A G_PENDINGTASKS) (A G_READYTORUN)"
  shows "\<exists>s'. nxsched_merge_pending s = Some (hd0 R' \<noteq> this_task s, s') \<and>
    sched_core idle s' (A(G_READYTORUN := R', G_PENDINGTASKS := [])) \<and>
    task_state s' = mark_rtr R' (task_state s) \<and> same_tcbs s s' \<and> blocked_eq {} (task_state s) (task_state s')"
proof -
  note c = sched_coreD [OF core] and i = lists_invD [OF sched_coreD(2) [OF core]]
  have "sched_priority s idle < sched_priority s u" if "u \<in> set (A G_PENDINGTASKS)" for u
    using i(1) [of u] i(6-8) that idle_below by (metis option.inject tlist.distinct(1) order.strict_trans2)
  then obtain s' where "nxsched_merge_pending s = Some (hd0 R' \<noteq> hd0 (A G_READYTORUN), s')"
    "lists_ok s' (A(G_READYTORUN := R', G_PENDINGTASKS := []))" "task_state s' = mark_rtr R' (task_state s)"
    "sched_priority s' = sched_priority s" "lockcount s' = lockcount s"
    using merge_pending_ok [OF c(1) i(4) i(3) [of G_PENDINGTASKS] _ i(2) R'] i(5) by auto
  then show ?thesis
    using lists_inv_merge [OF c(2) R'] c(3) blocked_eq_mark [OF c(2), of R' "{}"]
    by (intro exI [of _ s']) (simp add: sched_core_def R' set_fold_insert)
qed

end
