(* ===== verification/Sched_Safe.thy ===== *)
theory Sched_Safe
  imports Sched_Inv
begin

text \<open>
  Preemption: every operation of the scheduler returns and keeps the invariant of \<open>Sched_Inv\<close>, from the state after
  start-up through every sequence of operations; the context switches exactly when the running task changes.
\<close>

section \<open>The operations keep the invariant\<close>

lemma sched_invD:
  assumes "sched_inv idle s A"
  shows "sched_core idle s A" "A G_PENDINGTASKS \<noteq> [] \<Longrightarrow> 0 < lockcount s (this_task s)" "0 \<le> lockcount s t"
  using assms by (simp_all add: sched_inv_def sched_core_def)

lemma sched_invI:
  assumes "sched_core idle s A" "A G_PENDINGTASKS \<noteq> [] \<Longrightarrow> 0 < lockcount s (this_task s)" "\<And>t. 0 \<le> lockcount s t"
  shows "sched_inv idle s A"
  using assms by (simp add: sched_inv_def sched_core_def)

lemma pending_head:
  assumes "sched_core idle s A"
  shows "dq_head (task_list s G_PENDINGTASKS) = NULL \<longleftrightarrow> A G_PENDINGTASKS = []"
  using lists_okD(2,5) [OF sched_coreD(1) [OF assms], of G_PENDINGTASKS] hd0_in_set [of "A G_PENDINGTASKS"]
  by (metis hd0_simps(1))

lemma running_state:
  assumes "sched_core idle s A"
  shows "task_state s t = TSTATE_TASK_RUNNING \<longleftrightarrow> t = this_task s"
proof -
  note i = lists_invD [OF sched_coreD(2) [OF assms]]
  show ?thesis
    using i(1) [of t G_READYTORUN] i(2) hd0_in_set [OF i(4)] sched_coreD(3) [OF assms] unfolding mark_rtr_fix
    by (cases "t \<in> set (A G_READYTORUN)") (auto split: if_splits)
qed

lemma up_block_task_ok:
  assumes inv: "sched_inv idle s A" and t: "t = this_task s" "t \<noteq> idle" and st: "is_blocked_state st"
  shows "\<exists>s' A'. up_block_task s t st = Some (True, s') \<and> sched_inv idle s' A' \<and> same_tcbs s s' \<and>
    A' G_READYTORUN = fold (prio_insert (sched_priority s)) (A G_PENDINGTASKS) (remove1 t (A G_READYTORUN)) \<and>
    A' G_PENDINGTASKS = [] \<and> task_state s' t = st \<and> blocked_eq {t} (task_state s) (task_state s')"
proof -
  note c = sched_invD(1) [OF inv]
  note i = lists_invD [OF sched_coreD(2) [OF c]]
  have tr: "t \<in> set (A G_READYTORUN)" using t(1) sched_coreD(3) [OF c] hd0_in_set [OF i(4)] by simp
  obtain L where L: "TLIST_HEAD st = Some L" "L \<notin> {G_READYTORUN, G_PENDINGTASKS}" using st TLIST_simps(6) by blast
  let ?A1 = "A(G_READYTORUN := remove1 t (A G_READYTORUN))"
  obtain s1 where 1: "nxsched_remove_readytorun s t = (True, s1)" "sched_core idle s1 ?A1"
    "task_state s1 t = TSTATE_TASK_INVALID" "same_tcbs s s1" "blocked_eq {t} (task_state s) (task_state s1)"
    using remove_readytorun_ok [OF c tr t(2)] t(1) by auto
  have p: "SCHED_PRIORITY_MIN \<le> sched_priority s1 t" using i(7) [OF tr t(2)] 1(4) by simp
  obtain s2 A2 where 2: "nxsched_add_blocked s1 t st = Some s2" "sched_core idle s2 A2" "A2 G_READYTORUN = ?A1 G_READYTORUN"
    "A2 G_PENDINGTASKS = A G_PENDINGTASKS" "task_state s2 = (task_state s1)(t := st)" "same_tcbs s1 s2"
    using add_blocked_ok [OF 1(2,3) sched_coreD(4) [OF c tr] p L(1)] L(2) by auto
  let ?R = "fold (prio_insert (sched_priority s2)) (A2 G_PENDINGTASKS) (A2 G_READYTORUN)"
  obtain s3 where 3: "nxsched_merge_pending s2 = Some (hd0 ?R \<noteq> this_task s2, s3)"
    "sched_core idle s3 (A2(G_READYTORUN := ?R, G_PENDINGTASKS := []))" "task_state s3 = mark_rtr ?R (task_state s2)" "same_tcbs s2 s3"
    "blocked_eq {} (task_state s2) (task_state s3)"
    using merge_pending_core [OF 2(2) refl] by blast
  have b2: "blocked_eq {t} (task_state s) (task_state s2)" using 1(5) by (simp add: 2(5) blocked_eq_upd)
  have b3: "blocked_eq {t} (task_state s) (task_state s3)" using blocked_eq_trans [OF b2 3(5)] by simp
  have "t \<notin> set ?R"
    using i(1) [of t] tr 2(3,4) sched_coreD(5) [OF c, of G_READYTORUN] by (auto simp: set_fold_insert)
  then have ts: "task_state s3 t = st" using 3(3) 2(5) by (simp add: mark_rtr_def)
  show ?thesis
  proof (cases "A G_PENDINGTASKS = []")
    case True
    then have "up_block_task s t st = Some (True, s2)"
      using 1(1) 2(1,4) pending_head [OF 2(2)] by (simp add: up_block_task_def)
    then show ?thesis using True b2 1(4) 2 sched_invD(3) [OF inv] by (intro exI [of _ s2] exI [of _ A2]) (simp add: sched_inv_def sched_core_def)
  next
    case False
    then have "up_block_task s t st = Some (True, s3)"
      using 1(1) 2(1,4) 3(1) pending_head [OF 2(2)] by (simp add: up_block_task_def)
    then show ?thesis using ts b3 1(4) 2(3,4,6) 3(2,4) sched_invD(3) [OF inv]
      by (intro exI [of _ s3] exI [of _ "A2(G_READYTORUN := ?R, G_PENDINGTASKS := [])"]) (simp add: sched_inv_def sched_core_def)
  qed
qed

text \<open>A task that becomes ready, from a state in which it is on no list.\<close>

lemma add_readytorun_inv:
  assumes inv: "sched_inv idle s A" and t: "task_state s t = TSTATE_TASK_INVALID" "t \<noteq> NULL" "SCHED_PRIORITY_MIN \<le> sched_priority s t"
  shows "\<exists>b s' A'. nxsched_add_readytorun s t = Some (b, s') \<and> sched_inv idle s' A' \<and> same_tcbs s s' \<and>
    b = (this_task s' \<noteq> this_task s) \<and> b = (lockcount s (this_task s) = 0 \<and> sched_priority s (this_task s) < sched_priority s t) \<and>
    (b \<longrightarrow> A' G_PENDINGTASKS = A G_PENDINGTASKS) \<and> blocked_eq {t} (task_state s) (task_state s') \<and>
    task_state s' t = (if sched_priority s t \<le> sched_priority s (this_task s) then TSTATE_TASK_READYTORUN
      else if 0 < lockcount s (this_task s) then TSTATE_TASK_PENDING else TSTATE_TASK_RUNNING)"
proof -
  note c = sched_invD(1) [OF inv]
  note i = lists_invD [OF sched_coreD(2) [OF c]] and th = sched_coreD(3) [OF c]
  let ?R = "prio_insert (sched_priority s) t (A G_READYTORUN)" and ?P = "prio_insert (sched_priority s) t (A G_PENDINGTASKS)"
  have nt: "t \<noteq> this_task s" using running_state [OF c, of t] t(1) by auto
  have hR: "hd0 ?R = (if sched_priority s t \<le> sched_priority s (this_task s) then this_task s else t)"
    using i(4) th by (simp add: hd0_prio_insert)
  note ok = add_readytorun_ok [OF c t refl refl]
  show ?thesis
  proof (cases "0 < lockcount s (this_task s) \<and> sched_priority s (this_task s) < sched_priority s t")
    case True
    with ok obtain s' where s': "nxsched_add_readytorun s t = Some (False, s')" "sched_core idle s' (A(G_PENDINGTASKS := ?P))"
      "task_state s' = (task_state s)(t := TSTATE_TASK_PENDING)" "same_tcbs s s'" by auto
    have "this_task s' = this_task s" using sched_coreD(3) [OF s'(2)] th by simp
    moreover have "blocked_eq {t} (task_state s) (task_state s')" unfolding s'(3) by (rule blocked_eq_upd(2))
    ultimately show ?thesis using s' True sched_invD(3) [OF inv]
      by (intro exI [of _ False] exI [of _ s'] exI [of _ "A(G_PENDINGTASKS := ?P)"]) (auto intro!: sched_invI)
  next
    case False
    with ok obtain s' where s': "nxsched_add_readytorun s t = Some (hd0 ?R = t, s')" "sched_core idle s' (A(G_READYTORUN := ?R))"
      "task_state s' = mark_rtr ?R (task_state s)" "same_tcbs s s'" by (auto split: if_splits)
    have th': "this_task s' = hd0 ?R" using sched_coreD(3) [OF s'(2)] by simp
    have l0: "lockcount s (this_task s) = 0 \<or> sched_priority s t \<le> sched_priority s (this_task s)"
      using False sched_invD(3) [OF inv, of "this_task s"] by force
    have ts: "task_state s' t = (if hd0 ?R = t then TSTATE_TASK_RUNNING else TSTATE_TASK_READYTORUN)"
      by (simp add: s'(3) mark_rtr_def)
    have "sched_inv idle s' (A(G_READYTORUN := ?R))"
      using s'(2,4) sched_invD(2,3) [OF inv] th' hR l0 by (intro sched_invI) auto
    moreover have "blocked_eq {t} (task_state s) (task_state s')"
      unfolding s'(3) by (rule blocked_eq_mark [OF sched_coreD(2) [OF c]]) auto
    ultimately show ?thesis using s'(1,4) ts th' hR nt l0
      by (intro exI [of _ "hd0 ?R = t"] exI [of _ s'] exI [of _ "A(G_READYTORUN := ?R)"]) auto
  qed
qed

lemma blocked_list:
  assumes "is_blocked_state st"
  obtains L where "TLIST_HEAD st = Some L" "L \<noteq> G_READYTORUN" "L \<noteq> G_PENDINGTASKS"
  using assms TLIST_simps(6) that by blast

lemma up_unblock_task_ok:
  assumes inv: "sched_inv idle s A" and t: "is_blocked_state (task_state s t)"
  shows "\<exists>b s' A'. up_unblock_task s t = Some (b, s') \<and> sched_inv idle s' A' \<and> same_tcbs s s' \<and>
    blocked_eq {t} (task_state s) (task_state s') \<and>
    b = (this_task s' \<noteq> this_task s) \<and> b = (lockcount s (this_task s) = 0 \<and> sched_priority s (this_task s) < sched_priority s t) \<and>
    task_state s' t = (if sched_priority s t \<le> sched_priority s (this_task s) then TSTATE_TASK_READYTORUN
      else if 0 < lockcount s (this_task s) then TSTATE_TASK_PENDING else TSTATE_TASK_RUNNING)"
proof -
  note c = sched_invD(1) [OF inv]
  note i = lists_invD [OF sched_coreD(2) [OF c]]
  obtain L where L: "TLIST_HEAD (task_state s t) = Some L" "L \<noteq> G_READYTORUN" "L \<noteq> G_PENDINGTASKS" by (rule blocked_list [OF t])
  let ?s = "nxsched_remove_blocked s t"
  have tl: "t \<in> set (A L)" using i(1) L(1) by simp
  have ti: "t \<noteq> idle" using i(1,8) L by force
  note r = remove_blocked_ok [OF c L(1,2)]
  have th: "this_task ?s = this_task s" using sched_coreD(3) [OF r(1)] sched_coreD(3) [OF c] L(2) by simp
  have inv': "sched_inv idle ?s (A(L := remove1 t (A L)))"
    using r L(3) th sched_invD(2,3) [OF inv] by (intro sched_invI) auto
  have sp: "sched_priority ?s = sched_priority s" and lc: "lockcount ?s = lockcount s" using r(3) by simp_all
  have st: "task_state ?s t = TSTATE_TASK_INVALID" using r(2) by simp
  have "blocked_eq {t} (task_state s) (task_state ?s)" unfolding r(2) by (rule blocked_eq_upd(2))
  note b = blocked_eq_trans [OF this, of "{t}", simplified]
  show ?thesis
    unfolding up_unblock_task_def
    using add_readytorun_inv [OF inv' st sched_coreD(4) [OF c tl], unfolded th sp lc, OF i(7) [OF tl ti]] b by blast
qed

lemma sched_lock_eq:
  assumes "sched_inv idle s A" "lockable s"
  shows "sched_lock isr s =
    (if this_task s \<noteq> NULL \<and> \<not> isr then s\<lparr>lockcount := (lockcount s)(this_task s := lockcount s (this_task s) + 1)\<rparr> else s)"
proof -
  have "to_int16 (lockcount s (this_task s) + 1) = lockcount s (this_task s) + 1"
    using sched_invD(3) [OF assms(1), of "this_task s"] assms(2)
    by (intro to_int16_id) (simp_all add: lockable_def MAX_LOCK_COUNT_def SEM_VALUE_MAX_def)
  then show ?thesis by (simp add: sched_lock_def Let_def)
qed

lemma sched_lock_ok:
  assumes "sched_inv idle s A" "lockable s"
  shows "sched_inv idle (sched_lock isr s) A" "this_task (sched_lock isr s) = this_task s"
proof -
  show th: "this_task (sched_lock isr s) = this_task s" by (simp add: sched_lock_def this_task_def Let_def)
  have "sched_core idle (sched_lock isr s) A"
    using sched_invD(1) [OF assms(1)] by (simp add: sched_lock_def sched_core_def lists_ok_def Let_def)
  then show "sched_inv idle (sched_lock isr s) A"
    using sched_invD(2,3) [OF assms(1)] th by (intro sched_invI) (auto simp: sched_lock_eq [OF assms] add_nonneg_nonneg add_pos_nonneg)
qed

lemma lockcount_core: "sched_core idle (s\<lparr>lockcount := l\<rparr>) A = sched_core idle s A" "this_task (s\<lparr>lockcount := l\<rparr>) = this_task s"
  by (simp_all add: sched_core_def this_task_def)

lemma sched_unlock_ok:
  assumes inv: "sched_inv idle s A"
  shows "\<exists>b s' A'. sched_unlock False s = Some (b, s') \<and> sched_inv idle s' A' \<and> b = (this_task s' \<noteq> this_task s) \<and>
    sched_priority s' = sched_priority s \<and> blocked_eq {} (task_state s) (task_state s') \<and>
    lockcount s' = (lockcount s)(this_task s := max 0 (lockcount s (this_task s) - 1)) \<and>
    (if 1 < lockcount s (this_task s) then A' = A
     else A' = A(G_READYTORUN := fold (prio_insert (sched_priority s)) (A G_PENDINGTASKS) (A G_READYTORUN), G_PENDINGTASKS := []))"
proof -
  note c = sched_invD(1) [OF inv]
  note i = lists_invD [OF sched_coreD(2) [OF c]]
  let ?t = "this_task s" and ?n = "max 0 (lockcount s (this_task s) - 1)"
  have t: "?t \<noteq> NULL" using sched_coreD(3,4) [OF c] hd0_in_set [OF i(4)] by metis
  let ?s = "s\<lparr>lockcount := (lockcount s)(?t := ?n)\<rparr>"
  have e: "sched_unlock False s = (if ?n = 0 \<and> dq_head (task_list ?s G_PENDINGTASKS) \<noteq> NULL then up_release_pending ?s else Some (False, ?s))"
  proof -
    consider "lockcount s ?t = 0" | "lockcount s ?t = 1" | "1 < lockcount s ?t" using sched_invD(3) [OF inv, of ?t] by linarith
    then show ?thesis using t by cases (simp_all add: sched_unlock_def Let_def lockcount_core)
  qed
  have c': "sched_core idle ?s A" "this_task ?s = ?t" using c by (simp_all add: lockcount_core)
  have n: "0 \<le> lockcount ?s u" for u using sched_invD(3) [OF inv] by simp
  let ?R = "fold (prio_insert (sched_priority s)) (A G_PENDINGTASKS) (A G_READYTORUN)"
  let ?A' = "A(G_READYTORUN := ?R, G_PENDINGTASKS := [])"
  show ?thesis
  proof (cases "?n = 0 \<and> A G_PENDINGTASKS \<noteq> []")
    case True
    obtain s' where s': "nxsched_merge_pending ?s = Some (hd0 ?R \<noteq> ?t, s')" "sched_core idle s' ?A'" "same_tcbs ?s s'"
      "blocked_eq {} (task_state s) (task_state s')"
      using merge_pending_core [OF c'(1) refl] c'(2) by auto
    have "this_task s' = hd0 ?R" using sched_coreD(3) [OF s'(2)] by simp
    then show ?thesis
      using True s' e pending_head [OF c'(1)] n
      by (intro exI [of _ "hd0 ?R \<noteq> ?t"] exI [of _ s'] exI [of _ ?A']) (auto simp: up_release_pending_def intro!: sched_invI)
  next
    case False
    then have "sched_unlock False s = Some (False, ?s)" using e pending_head [OF c'(1)] by auto
    moreover have "sched_inv idle ?s A"
    proof (rule sched_invI [OF c'(1) _ n])
      show "0 < lockcount ?s (this_task ?s)" if "A G_PENDINGTASKS \<noteq> []" using False that c'(2) by simp
    qed
    moreover have "if 1 < lockcount s ?t then A = A else A = ?A'"
    proof (cases "1 < lockcount s ?t")
      case f: False
      then have "A G_PENDINGTASKS = []" using False by simp
      then have "?A' = A" by (simp add: fun_upd_idem)
      with f show ?thesis by (simp only: if_False)
    qed simp
    ultimately show ?thesis using c'(2) by (intro exI [of _ False] exI [of _ ?s] exI [of _ A] conjI) simp_all
  qed
qed

section \<open>Changes of priority\<close>

lemma set_prio_core:
  assumes "sched_core idle s A" "t \<noteq> idle" "SCHED_PRIORITY_MIN \<le> p"
    "\<And>L. L \<notin> {G_INACTIVETASKS, G_WAITINGFORSIGNAL} \<Longrightarrow> t \<notin> set (A L)"
  shows "sched_core idle (set_prio t p s) A" "this_task (set_prio t p s) = this_task s"
  using lists_inv_set_prio [OF sched_coreD(2) [OF assms(1)] assms(2-4)] sched_coreD(1) [OF assms(1)]
  by (simp_all add: sched_core_def this_task_def)

text \<open>A task leaves the list of ready tasks and gets its new priority.\<close>

lemma take_out:
  assumes core: "sched_core idle s A" and t: "t \<in> set (A G_READYTORUN)" "t \<noteq> idle" and p: "SCHED_PRIORITY_MIN \<le> p"
  shows "\<exists>s1. nxsched_remove_readytorun s t = (t = this_task s, s1) \<and>
    sched_core idle (set_prio t p s1) (A(G_READYTORUN := remove1 t (A G_READYTORUN))) \<and>
    task_state s1 t = TSTATE_TASK_INVALID \<and> same_tcbs s s1 \<and> blocked_eq {t} (task_state s) (task_state s1) \<and>
    this_task (set_prio t p s1) = hd0 (remove1 t (A G_READYTORUN)) \<and> remove1 t (A G_READYTORUN) \<noteq> []"
proof -
  let ?A1 = "A(G_READYTORUN := remove1 t (A G_READYTORUN))"
  obtain s1 where 1: "nxsched_remove_readytorun s t = (t = this_task s, s1)" "sched_core idle s1 ?A1"
    "task_state s1 t = TSTATE_TASK_INVALID" "same_tcbs s s1" "blocked_eq {t} (task_state s) (task_state s1)"
    using remove_readytorun_ok [OF core t] by blast
  have off: "t \<notin> set (?A1 L)" for L using off_lists [OF sched_coreD(2) [OF 1(2)] 1(3)] by blast
  have c: "sched_core idle (set_prio t p s1) ?A1" "this_task (set_prio t p s1) = this_task s1"
    using off by (auto intro!: set_prio_core [OF 1(2) t(2) p])
  show ?thesis
    using 1 c sched_coreD(3) [OF 1(2)] lists_invD(4) [OF sched_coreD(2) [OF 1(2)]] by (intro exI [of _ s1]) simp
qed

lemma requeue_blocked_eq:
  assumes "blocked_eq {t} (task_state s) (task_state s0)" "blocked_eq {t} (task_state (set_prio t p s0)) (task_state s')"
    "\<not> is_blocked_state (task_state s t)" "\<not> is_blocked_state (task_state s' t)"
  shows "blocked_eq {} (task_state s) (task_state s')"
proof (rule blocked_eq_ready [of t])
  show "blocked_eq {t} (task_state s) (task_state s')" using blocked_eq_trans [OF assms(1), of "{t}" "task_state s'"] assms(2) by simp
qed (fact assms(3,4))+

text \<open>A ready task that does not run, taken out and put back with its new priority.\<close>

lemma requeue_ready:
  assumes inv: "sched_inv idle s A" and t: "t \<in> set (A G_READYTORUN)" "t \<noteq> idle" "t \<noteq> this_task s" and p: "SCHED_PRIORITY_MIN \<le> p"
  shows "\<exists>s0 b s' A'. nxsched_remove_readytorun s t = (False, s0) \<and> nxsched_add_readytorun (set_prio t p s0) t = Some (b, s') \<and>
    sched_inv idle s' A' \<and> b = (this_task s' \<noteq> this_task s) \<and> b = (lockcount s (this_task s) = 0 \<and> sched_priority s (this_task s) < p) \<and>
    sched_priority s' = (sched_priority s)(t := p) \<and> lockcount s' = lockcount s \<and> blocked_eq {} (task_state s) (task_state s') \<and>
    (b \<longrightarrow> A' G_PENDINGTASKS = [])"
proof -
  note c = sched_invD(1) [OF inv]
  let ?R1 = "remove1 t (A G_READYTORUN)"
  obtain s0 where 0: "nxsched_remove_readytorun s t = (t = this_task s, s0)" "sched_core idle (set_prio t p s0) (A(G_READYTORUN := ?R1))"
    "task_state s0 t = TSTATE_TASK_INVALID" "same_tcbs s s0" "this_task (set_prio t p s0) = hd0 ?R1"
    "blocked_eq {t} (task_state s) (task_state s0)"
    using take_out [OF c t(1,2) p] by blast
  let ?s1 = "set_prio t p s0"
  have s1: "task_state ?s1 t = TSTATE_TASK_INVALID" "t \<noteq> NULL" "SCHED_PRIORITY_MIN \<le> sched_priority ?s1 t"
    using 0(3) p sched_coreD(4) [OF c t(1)] by simp_all
  have "hd0 ?R1 = this_task s" using t(3) sched_coreD(3) [OF c] by (cases "A G_READYTORUN") (auto split: if_splits)
  then have th: "this_task ?s1 = this_task s" using 0(5) by simp
  have inv1: "sched_inv idle ?s1 (A(G_READYTORUN := ?R1))"
    using 0(2,4) th sched_invD(2,3) [OF inv] by (intro sched_invI) simp_all
  obtain b s' A' where 2: "nxsched_add_readytorun ?s1 t = Some (b, s')" "sched_inv idle s' A'" "same_tcbs ?s1 s'"
    "b = (this_task s' \<noteq> this_task ?s1)" "b = (lockcount ?s1 (this_task ?s1) = 0 \<and> sched_priority ?s1 (this_task ?s1) < sched_priority ?s1 t)"
    "b \<longrightarrow> A' G_PENDINGTASKS = (A(G_READYTORUN := ?R1)) G_PENDINGTASKS" "blocked_eq {t} (task_state ?s1) (task_state s')"
    "task_state s' t = (if sched_priority ?s1 t \<le> sched_priority ?s1 (this_task ?s1) then TSTATE_TASK_READYTORUN
      else if 0 < lockcount ?s1 (this_task ?s1) then TSTATE_TASK_PENDING else TSTATE_TASK_RUNNING)"
    using add_readytorun_inv [OF inv1 s1] by (elim exE conjE) (rule that, assumption+, intro conjI)
  have "\<not> is_blocked_state (task_state s t)" using ready_not_blocked [OF sched_coreD(2) [OF c]] t(1) by blast
  moreover have "\<not> is_blocked_state (task_state s' t)" unfolding 2(8) by (simp add: is_blocked_state_def)
  ultimately have bl: "blocked_eq {} (task_state s) (task_state s')" by (rule requeue_blocked_eq [OF 0(6) 2(7)])
  have b: "b = (lockcount s (this_task s) = 0 \<and> sched_priority s (this_task s) < p)" using 2(5) th 0(4) t(3) by auto
  then have "b \<longrightarrow> A' G_PENDINGTASKS = []" using 2(6) sched_invD(2) [OF inv] by fastforce
  then show ?thesis using 0(1,4) 2(1-4) t(3) th b bl by (intro exI [of _ s0] exI [of _ b] exI [of _ s'] exI [of _ A']) simp
qed

text \<open>The running task, taken out and put back with a priority not above that of the next task, which then runs.\<close>

lemma requeue_running:
  assumes inv: "sched_inv idle s A" and t: "t \<in> set (A G_READYTORUN)" "t \<noteq> idle" "t = this_task s" and p: "SCHED_PRIORITY_MIN \<le> p"
    and guard: "p \<le> sched_priority s (hd0 (remove1 t (A G_READYTORUN)))"
  shows "\<exists>s0 s' A'. nxsched_remove_readytorun s t = (True, s0) \<and> nxsched_add_readytorun (set_prio t p s0) t = Some (False, s') \<and>
    sched_core idle s' A' \<and> A' G_PENDINGTASKS = A G_PENDINGTASKS \<and> this_task s' \<noteq> t \<and>
    sched_priority s' = (sched_priority s)(t := p) \<and> lockcount s' = lockcount s \<and> blocked_eq {} (task_state s) (task_state s')"
proof -
  note c = sched_invD(1) [OF inv]
  let ?R1 = "remove1 t (A G_READYTORUN)"
  let ?A1 = "A(G_READYTORUN := ?R1)"
  obtain s0 where 0: "nxsched_remove_readytorun s t = (t = this_task s, s0)" "sched_core idle (set_prio t p s0) ?A1"
    "task_state s0 t = TSTATE_TASK_INVALID" "same_tcbs s s0" "this_task (set_prio t p s0) = hd0 ?R1" "?R1 \<noteq> []"
    "blocked_eq {t} (task_state s) (task_state s0)"
    using take_out [OF c t(1,2) p] by blast
  let ?s1 = "set_prio t p s0"
  have s1: "task_state ?s1 t = TSTATE_TASK_INVALID" "t \<noteq> NULL" "SCHED_PRIORITY_MIN \<le> sched_priority ?s1 t"
    using 0(3) p sched_coreD(4) [OF c t(1)] by simp_all
  have hd1: "hd0 ?R1 \<noteq> t" using hd0_in_set [OF 0(6)] sched_coreD(5) [OF c, of G_READYTORUN] by auto
  let ?R' = "prio_insert (sched_priority ?s1) t ?R1"
  have le: "sched_priority ?s1 t \<le> sched_priority ?s1 (hd0 ?R1)" using guard 0(4) hd1 by simp
  obtain s' where 2: "nxsched_add_readytorun ?s1 t = Some (False, s')" "sched_core idle s' (?A1(G_READYTORUN := ?R'))" "same_tcbs ?s1 s'"
      "task_state s' = mark_rtr ?R' (task_state ?s1)"
    using add_readytorun_ok [OF 0(2) s1 refl refl] le 0(5,6) hd1 by (auto simp: hd0_prio_insert)
  have "blocked_eq {t} (task_state ?s1) (task_state s')"
    unfolding 2(4) by (rule blocked_eq_mark [OF sched_coreD(2) [OF 0(2)]]) auto
  moreover have "\<not> is_blocked_state (task_state s t)" using ready_not_blocked [OF sched_coreD(2) [OF c]] t(1) by blast
  moreover have "\<not> is_blocked_state (task_state s' t)" using ready_not_blocked [OF sched_coreD(2) [OF 2(2)], of t] by simp
  ultimately have bl: "blocked_eq {} (task_state s) (task_state s')" by (rule requeue_blocked_eq [OF 0(7)])
  have th: "this_task s' \<noteq> t" using sched_coreD(3) [OF 2(2)] le 0(6) hd1 by (simp add: hd0_prio_insert)
  show ?thesis
    using 0(1,4) 2(1-3) t(3) th bl by (intro exI [of _ s0] exI [of _ s'] exI [of _ "?A1(G_READYTORUN := ?R')"]) simp
qed

lemma up_reprioritize_rtr_ok:
  assumes inv: "sched_inv idle s A" and t: "t \<in> set (A G_READYTORUN)" "t \<noteq> idle" and p: "SCHED_PRIORITY_MIN \<le> p"
    and guard: "t = this_task s \<Longrightarrow> p \<le> sched_priority s (hd0 (remove1 t (A G_READYTORUN)))"
  shows "\<exists>b s' A'. up_reprioritize_rtr s t p = Some (b, s') \<and> sched_inv idle s' A' \<and> b = (this_task s' \<noteq> this_task s) \<and>
    sched_priority s' = (sched_priority s)(t := p) \<and> lockcount s' = lockcount s \<and> blocked_eq {} (task_state s) (task_state s') \<and>
    (t \<noteq> this_task s \<longrightarrow> 0 < lockcount s (this_task s) \<longrightarrow> this_task s' = this_task s)"
proof (cases "t = this_task s")
  case True
  obtain s0 s2 A2 where 2: "nxsched_remove_readytorun s t = (True, s0)" "nxsched_add_readytorun (set_prio t p s0) t = Some (False, s2)"
    "sched_core idle s2 A2" "A2 G_PENDINGTASKS = A G_PENDINGTASKS" "this_task s2 \<noteq> t"
    "sched_priority s2 = (sched_priority s)(t := p)" "lockcount s2 = lockcount s" "blocked_eq {} (task_state s) (task_state s2)"
    using requeue_running [OF inv t True p guard [OF True]] by blast
  show ?thesis
  proof (cases "A G_PENDINGTASKS = []")
    case True2: True
    have "up_reprioritize_rtr s t p = Some (True, s2)"
      using 2(1,2,4) True2 pending_head [OF 2(3)] by (simp add: up_reprioritize_rtr_def Let_def)
    moreover have "sched_inv idle s2 A2" using 2(3,4,7) True2 sched_invD(3) [OF inv] by (intro sched_invI) simp_all
    ultimately show ?thesis using 2(5-8) True by (intro exI [of _ True] exI [of _ s2] exI [of _ A2]) simp
  next
    case False
    let ?R = "fold (prio_insert (sched_priority s2)) (A2 G_PENDINGTASKS) (A2 G_READYTORUN)"
    let ?A3 = "A2(G_READYTORUN := ?R, G_PENDINGTASKS := [])"
    obtain s3 where 3: "nxsched_merge_pending s2 = Some (hd0 ?R \<noteq> this_task s2, s3)" "sched_core idle s3 ?A3" "same_tcbs s2 s3"
      "blocked_eq {} (task_state s2) (task_state s3)"
      using merge_pending_core [OF 2(3) refl] by blast
    have "up_reprioritize_rtr s t p = Some (True, s3)"
      using 2(1,2,4) 3(1) False pending_head [OF 2(3)] by (simp add: up_reprioritize_rtr_def Let_def)
    moreover have "sched_inv idle s3 ?A3" using 3(2,3) 2(7) sched_invD(3) [OF inv] by (intro sched_invI) simp_all
    moreover have "this_task s3 \<noteq> t"
    proof -
      have "t \<notin> set (A2 G_PENDINGTASKS)"
        using lists_invD(1) [OF sched_coreD(2) [OF sched_invD(1) [OF inv]]] t(1) 2(4) by simp
      then show ?thesis
        using hd0_fold_insert [of "sched_priority s2" "A2 G_PENDINGTASKS" "A2 G_READYTORUN"] sched_coreD(3) [OF 3(2)] sched_coreD(3) [OF 2(3)] 2(5)
        by auto
    qed
    moreover have "blocked_eq {} (task_state s) (task_state s3)" using blocked_eq_trans [OF 2(8) 3(4)] by simp
    ultimately show ?thesis using 3(3) 2(6,7) True by (intro exI [of _ True] exI [of _ s3] exI [of _ ?A3]) simp
  qed
next
  case False
  obtain s0 b s2 A2 where 2: "nxsched_remove_readytorun s t = (False, s0)" "nxsched_add_readytorun (set_prio t p s0) t = Some (b, s2)"
    "sched_inv idle s2 A2" "b = (this_task s2 \<noteq> this_task s)" "b = (lockcount s (this_task s) = 0 \<and> sched_priority s (this_task s) < p)"
    "sched_priority s2 = (sched_priority s)(t := p)" "lockcount s2 = lockcount s" "blocked_eq {} (task_state s) (task_state s2)"
    "b \<longrightarrow> A2 G_PENDINGTASKS = []"
    using requeue_ready [OF inv t False p] by (elim exE conjE) (rule that)
  have "up_reprioritize_rtr s t p = Some (b, s2)"
    using 2(1,2,9) pending_head [OF sched_invD(1) [OF 2(3)]] by (auto simp: up_reprioritize_rtr_def Let_def)
  then show ?thesis using 2(3-8) by (intro exI [of _ b] exI [of _ s2] exI [of _ A2]) auto
qed

end
