(* ===== verification/Sched_Run.thy ===== *)
theory Sched_Run
  imports Sched_Safe
begin

text \<open>
  Sequences of operations of the scheduler: \<open>sched_run\<close> executes a list of events from the state after start-up, each
  under the conditions under which the system calls it. The properties are the contract of the scheduler: the running
  task has the highest priority of all ready tasks, a task that disabled preemption keeps the processor, and what
  became ready meanwhile is released with the lock.
\<close>

section \<open>Changes of priority, by state\<close>

abbreviation prio_changed :: "ptr \<Rightarrow> sched_s \<Rightarrow> ptr \<Rightarrow> nat \<Rightarrow> bool \<Rightarrow> sched_s \<Rightarrow> bool" where
  "prio_changed idle s t p b s' \<equiv> (\<exists>A'. sched_inv idle s' A') \<and> b = (this_task s' \<noteq> this_task s) \<and>
     sched_priority s' = (sched_priority s)(t := p) \<and> lockcount s' = lockcount s \<and> blocked_eq {} (task_state s) (task_state s') \<and>
     (t \<noteq> this_task s \<longrightarrow> 0 < lockcount s (this_task s) \<longrightarrow> this_task s' = this_task s)"

lemma running_setpriority_ok:
  assumes inv: "sched_inv idle s A" and t: "task_state s t = TSTATE_TASK_RUNNING" "t \<noteq> idle" and p: "SCHED_PRIORITY_MIN \<le> p"
  shows "\<exists>b s'. nxsched_running_setpriority s t p = Some (b, s') \<and> prio_changed idle s t p b s'"
proof -
  note c = sched_invD(1) [OF inv]
  note i = lists_invD [OF sched_coreD(2) [OF c]]
  obtain zs where r: "A G_READYTORUN = t # zs"
    using t(1) running_state [OF c, of t] sched_coreD(3) [OF c] i(4) by (cases "A G_READYTORUN") auto
  have rep: "dq_rep (tcb_links s, task_list s G_READYTORUN) ([] @ t # zs)"
    using lists_okD(1) [OF sched_coreD(1) [OF c], of G_READYTORUN] r by simp
  have nx: "flink (tcb_links s) t = hd0 zs" by (rule dq_rep_links(1) [OF rep])
  have tr: "t \<in> set (A G_READYTORUN)" using r by simp
  show ?thesis
  proof (cases "p \<le> sched_priority s (hd0 zs)")
    case True
    have "\<exists>b s' A'. up_reprioritize_rtr s t p = Some (b, s') \<and> sched_inv idle s' A' \<and> b = (this_task s' \<noteq> this_task s) \<and>
        sched_priority s' = (sched_priority s)(t := p) \<and> lockcount s' = lockcount s \<and> blocked_eq {} (task_state s) (task_state s') \<and>
        (t \<noteq> this_task s \<longrightarrow> 0 < lockcount s (this_task s) \<longrightarrow> this_task s' = this_task s)"
      by (rule up_reprioritize_rtr_ok [OF inv tr t(2) p]) (use True r in simp)
    then show ?thesis using True nx unfolding nxsched_running_setpriority_def Let_def by auto
  next
    case False
    let ?pf = "(sched_priority s)(t := p)" and ?s' = "set_prio t p s"
    have d: "t \<notin> set zs" using sched_coreD(5) [OF c, of G_READYTORUN] r by simp
    have rest: "by_prio (sched_priority s) zs" using i(3) [of G_READYTORUN] r by simp
    have le: "sched_priority s u \<le> p" if "u \<in> set zs" for u
      using rest that False by (cases zs) auto
    have n: "t \<notin> set (A L)" if "L \<noteq> G_READYTORUN" for L using i(1) tr that by simp
    have "by_prio ?pf zs" using rest by (rule sorted_wrt_mono_rel [rotated]) (use d in auto)
    then have "by_prio ?pf (A L)" if "L \<notin> {G_INACTIVETASKS, G_WAITINGFORSIGNAL}" for L
    proof (cases "L = G_READYTORUN")
      case False
      show ?thesis using i(3) [OF that] by (rule sorted_wrt_mono_rel [rotated]) (use n [OF False] in auto)
    qed (use le d r in auto)
    then have "lists_inv idle A ?pf (task_state s)"
      using sched_coreD(2) [OF c] t(2) p unfolding lists_inv_def by auto
    then have "sched_inv idle ?s' A"
      using c sched_invD(2,3) [OF inv] by (intro sched_invI) (simp_all add: sched_core_def this_task_def)
    then show ?thesis using False nx by (auto simp: nxsched_running_setpriority_def Let_def this_task_def)
  qed
qed

lemma readytorun_setpriority_ok:
  assumes inv: "sched_inv idle s A" and t: "task_state s t = TSTATE_TASK_READYTORUN" "t \<noteq> idle" and p: "SCHED_PRIORITY_MIN \<le> p"
  shows "\<exists>b s'. nxsched_readytorun_setpriority s t p = Some (b, s') \<and> prio_changed idle s t p b s'"
proof -
  note c = sched_invD(1) [OF inv]
  note i = lists_invD [OF sched_coreD(2) [OF c]]
  have tr: "t \<in> set (A G_READYTORUN)" using i(1) t(1) by simp
  have nt: "t \<noteq> this_task s" using running_state [OF c, of t] t(1) by auto
  show ?thesis
  proof (cases "sched_priority s (this_task s) < p")
    case True
    then show ?thesis using up_reprioritize_rtr_ok [OF inv tr t(2) p] nt by (auto simp: nxsched_readytorun_setpriority_def)
  next
    case False
    obtain s0 b s2 A2 where 2: "nxsched_remove_readytorun s t = (False, s0)" "nxsched_add_readytorun (set_prio t p s0) t = Some (b, s2)"
      "sched_inv idle s2 A2" "b = (this_task s2 \<noteq> this_task s)" "b = (lockcount s (this_task s) = 0 \<and> sched_priority s (this_task s) < p)"
      "sched_priority s2 = (sched_priority s)(t := p)" "lockcount s2 = lockcount s" "blocked_eq {} (task_state s) (task_state s2)"
      using requeue_ready [OF inv tr t(2) nt p] by (elim exE conjE) (rule that)
    have "\<not> b" using 2(5) False by simp
    moreover have "nxsched_readytorun_setpriority s t p = Some (False, s2)"
      using 2(1,2) False by (simp add: nxsched_readytorun_setpriority_def Let_def)
    ultimately show ?thesis using 2(3,4,6-8) by (intro exI [of _ False] exI [of _ s2]) auto
  qed
qed

lemma blocked_setpriority_ok:
  assumes inv: "sched_inv idle s A" and t: "task_state s t \<notin> {TSTATE_TASK_RUNNING, TSTATE_TASK_READYTORUN}" "t \<noteq> idle"
    and p: "SCHED_PRIORITY_MIN \<le> p"
  shows "\<exists>b s'. nxsched_blocked_setpriority s t p = Some (b, s') \<and> prio_changed idle s t p b s'"
proof -
  note c = sched_invD(1) [OF inv]
  note i = lists_invD [OF sched_coreD(2) [OF c]] and ok = sched_coreD(1) [OF c]
  let ?st = "task_state s t"
  show ?thesis
  proof (cases "TLIST_ISPRIORITIZED ?st")
    case True
    then obtain L where L: "TLIST_HEAD ?st = Some L" "L \<noteq> G_READYTORUN" using t(1) by (cases ?st) auto
    have tl: "t \<in> set (A L)" using i(1) L(1) by simp
    let ?A1 = "A(L := remove1 t (A L))" and ?s1 = "set_prio t p (on_list L (dq_rem t) s)"
    let ?pf = "(sched_priority s)(t := p)"
    let ?xs = "prio_insert ?pf t (remove1 t (A L))"
    have inv1: "lists_inv idle ?A1 (sched_priority s) ((task_state s)(t := TSTATE_TASK_INVALID))"
      using lists_inv_remove [OF sched_coreD(2) [OF c] tl t(2) sched_coreD(5) [OF c] refl] i(2) L(2) by simp
    have off: "\<not> in_lists ?A1 t" by (rule off_lists [OF inv1]) simp
    have inv2: "lists_inv idle ?A1 ?pf ((task_state s)(t := TSTATE_TASK_INVALID))"
      using off by (intro lists_inv_set_prio [OF inv1 t(2) p]) blast
    have ok1: "lists_ok ?s1 ?A1" using lists_ok_rem [OF ok tl] by simp
    obtain s2 where 2: "nxsched_add_prioritized ?s1 t L = Some (hd0 ?xs = t, s2)" "lists_ok s2 (?A1(L := ?xs))"
      "sched_priority s2 = ?pf" "task_state s2 = task_state s" "lockcount s2 = lockcount s"
      using add_prioritized_ok [of ?s1 ?A1 t L, OF ok1 off sched_coreD(4) [OF c tl]] by auto
    have "lists_inv idle (?A1(L := ?xs)) ?pf (((task_state s)(t := TSTATE_TASK_INVALID))(t := ?st))"
    proof (rule lists_inv_add [OF inv2 _ _ L])
      show "by_prio ?pf ?xs" if "L \<notin> {G_INACTIVETASKS, G_WAITINGFORSIGNAL}"
        using lists_invD(3) [OF inv2 that] unfolding fun_upd_same by (rule by_prio_insert)
    qed (use p in simp_all)
    then have core2: "sched_core idle s2 (?A1(L := ?xs))" using 2 by (simp add: sched_core_def)
    have th: "this_task s2 = this_task s" using sched_coreD(3) [OF core2] sched_coreD(3) [OF c] L(2) by simp
    have "L = G_PENDINGTASKS \<Longrightarrow> A G_PENDINGTASKS \<noteq> []" using tl by auto
    then have "sched_inv idle s2 (?A1(L := ?xs))"
      using core2 th 2(5) sched_invD(2,3) [OF inv] by (intro sched_invI) (auto split: if_splits)
    then have "\<exists>A'. sched_inv idle s2 A'" by (rule exI [of "sched_inv idle s2"])
    then have "prio_changed idle s t p False s2" unfolding 2(3-5) th by simp
    moreover have "nxsched_blocked_setpriority s t p = Some (False, s2)"
      using True 2(1) by (simp add: nxsched_blocked_setpriority_def Let_def TLIST_simps(3) [OF L(1)])
    ultimately show ?thesis by blast
  next
    case False
    have "t \<notin> set (A L)" if "L \<notin> {G_INACTIVETASKS, G_WAITINGFORSIGNAL}" for L
      using i(1) False TLIST_simps(2) that by blast
    then have "sched_core idle (set_prio t p s) A" "this_task (set_prio t p s) = this_task s"
      by (auto intro!: set_prio_core [OF c t(2) p])
    then have "sched_inv idle (set_prio t p s) A" using sched_invD(2,3) [OF inv] by (intro sched_invI) simp_all
    then show ?thesis using False by (auto simp: nxsched_blocked_setpriority_def Let_def this_task_def)
  qed
qed

lemma nxsched_set_priority_ok:
  assumes "sched_inv idle s A" "t \<noteq> idle" "int SCHED_PRIORITY_MIN \<le> prio" "prio \<le> int SCHED_PRIORITY_MAX"
  shows "\<exists>b s'. nxsched_set_priority s t prio = Some (OK, b, s') \<and> prio_changed idle s t (nat prio) b s'"
proof -
  have p: "SCHED_PRIORITY_MIN \<le> nat prio" using assms(3) by simp
  note ok = running_setpriority_ok [OF assms(1) _ assms(2) p] readytorun_setpriority_ok [OF assms(1) _ assms(2) p]
    blocked_setpriority_ok [OF assms(1) _ assms(2) p]
  define X where "X = (case task_state s t of
      TSTATE_TASK_RUNNING \<Rightarrow> nxsched_running_setpriority s t (nat prio)
    | TSTATE_TASK_READYTORUN \<Rightarrow> nxsched_readytorun_setpriority s t (nat prio)
    | _ \<Rightarrow> nxsched_blocked_setpriority s t (nat prio))"
  have e: "nxsched_set_priority s t prio = do { (sw, s) \<leftarrow> X; Some (OK, sw, s) }"
    using assms(3,4) by (simp add: nxsched_set_priority_def X_def)
  obtain b s' where "X = Some (b, s')" "prio_changed idle s t (nat prio) b s'"
    using ok by (cases "task_state s t") (simp_all add: X_def, blast+)
  then show ?thesis unfolding e by (intro exI [of _ b] exI [of _ s']) simp
qed

section \<open>Sequences of operations\<close>

text \<open>What the system calls: an interrupt may unblock a task between any two operations of the running task.\<close>

datatype sched_event =
    Lock
  | Unlock
  | Block tstate
  | Unblock ptr
  | Set_Priority ptr int
  | Create ptr int

fun sched_exec :: "sched_event \<Rightarrow> sched_s \<Rightarrow> (bool \<times> sched_s) option" where
  "sched_exec Lock s = Some (False, sched_lock False s)"
| "sched_exec Unlock s = sched_unlock False s"
| "sched_exec (Block st) s = up_block_task s (this_task s) st"
| "sched_exec (Unblock t) s = up_unblock_task s t"
| "sched_exec (Set_Priority t prio) s = do { (_, b, s) \<leftarrow> nxsched_set_priority s t prio; Some (b, s) }"
| "sched_exec (Create t prio) s = setup_scheduler_lists s t prio"

text \<open>The idle task neither blocks nor changes its priority; only blocked tasks are unblocked; a new task has a fresh control block; locks are not nested too deep.\<close>

fun sched_guard :: "ptr \<Rightarrow> sched_event \<Rightarrow> sched_s \<Rightarrow> bool" where
  "sched_guard idle Lock s = lockable s"
| "sched_guard idle Unlock s = True"
| "sched_guard idle (Block st) s = (is_blocked_state st \<and> this_task s \<noteq> idle)"
| "sched_guard idle (Unblock t) s = is_blocked_state (task_state s t)"
| "sched_guard idle (Set_Priority t prio) s = (t \<noteq> idle)"
| "sched_guard idle (Create t prio) s =
     (t \<noteq> NULL \<and> task_state s t = TSTATE_TASK_INVALID \<and> int SCHED_PRIORITY_MIN \<le> prio \<and> prio \<le> int SCHED_PRIORITY_MAX \<and> lockable s)"

fun sched_run :: "sched_event list \<Rightarrow> sched_s \<Rightarrow> sched_s option" where
  "sched_run [] s = Some s"
| "sched_run (e # es) s = do { (_, s) \<leftarrow> sched_exec e s; sched_run es s }"

text \<open>A sequence is admissible as long as the events before have returned; that they do is part of the property.\<close>

fun sched_guards :: "ptr \<Rightarrow> sched_event list \<Rightarrow> sched_s \<Rightarrow> bool" where
  "sched_guards idle [] s = True"
| "sched_guards idle (e # es) s =
     (sched_guard idle e s \<and> (case sched_exec e s of None \<Rightarrow> True | Some (_, s) \<Rightarrow> sched_guards idle es s))"

lemma setup_scheduler_ok:
  assumes inv: "sched_inv idle s A" and g: "sched_guard idle (Create t prio) s"
  shows "\<exists>b s' A'. setup_scheduler_lists s t prio = Some (b, s') \<and> sched_inv idle s' A' \<and> b = (this_task s' \<noteq> this_task s) \<and>
    blocked_eq {t} (task_state s) (task_state s') \<and> task_state s' t = TSTATE_TASK_INACTIVE \<and>
    (0 < lockcount s (this_task s) \<longrightarrow> this_task s' = this_task s \<and> 0 < lockcount s' (this_task s))"
proof -
  note c = sched_invD(1) [OF inv]
  note i = lists_invD [OF sched_coreD(2) [OF c]]
  have g': "t \<noteq> NULL" "task_state s t = TSTATE_TASK_INVALID" "SCHED_PRIORITY_MIN \<le> nat (prio mod 256)"
    using g by (auto simp: SCHED_PRIORITY_MIN_def SCHED_PRIORITY_MAX_def)
  have off: "\<not> in_lists A t" by (rule off_lists [OF sched_coreD(2) [OF c] g'(2)])
  have ti: "t \<noteq> idle" using off i(8) by blast
  let ?s1 = "set_state t TSTATE_TASK_INVALID (set_prio t (nat (prio mod 256)) s)"
  have "sched_core idle (set_prio t (nat (prio mod 256)) s) A" using off by (auto intro!: set_prio_core [OF c ti g'(3)])
  then have "sched_core idle ?s1 A" "this_task ?s1 = this_task s"
    using fun_upd_idem [of "task_state s" t, OF g'(2)] by (simp_all add: sched_core_def this_task_def)
  then have i1: "sched_inv idle ?s1 A" using sched_invD(2,3) [OF inv] by (intro sched_invI) simp_all
  have lb: "lockable ?s1" using g by (simp add: lockable_def this_task_def)
  note l = sched_lock_ok [OF i1 lb, of False]
  let ?s2 = "sched_lock False ?s1"
  have s2: "task_state ?s2 t = TSTATE_TASK_INVALID" "SCHED_PRIORITY_MIN \<le> sched_priority ?s2 t"
    using g'(3) by (auto simp: sched_lock_def Let_def)
  note c2 = sched_invD(1) [OF l(1)]
  let ?s3 = "set_state t TSTATE_TASK_INACTIVE (on_list G_INACTIVETASKS (dq_addfirst t) ?s2)"
  let ?A3 = "A(G_INACTIVETASKS := t # A G_INACTIVETASKS)"
  have "lists_inv idle ?A3 (sched_priority ?s2) ((task_state ?s2)(t := TSTATE_TASK_INACTIVE))"
    by (rule lists_inv_add [OF sched_coreD(2) [OF c2] s2]) simp_all
  then have c3: "sched_core idle ?s3 ?A3"
    using lists_ok_addfirst [OF sched_coreD(1) [OF c2] off g'(1)] by (simp add: sched_core_def)
  have th: "this_task ?s3 = this_task s"
    using sched_coreD(3) [OF c3] sched_coreD(3) [OF c] by simp
  have th2: "this_task ?s2 = this_task s" using sched_coreD(3) [OF c2] sched_coreD(3) [OF c] by simp
  have th1: "this_task ?s1 = this_task s" by (simp add: this_task_def)
  have t0: "this_task s \<noteq> NULL" using sched_coreD(3,4) [OF c] hd0_in_set [OF i(4)] by metis
  have "sched_inv idle ?s3 ?A3"
    using c3 th th2 sched_invD(2,3) [OF l(1)] by (intro sched_invI) simp_all
  note u = sched_unlock_ok [OF this]
  have lc: "lockcount ?s3 (this_task ?s3) = lockcount s (this_task s) + 1"
    unfolding th using t0 th1 by (simp add: sched_lock_eq [OF i1 lb])
  obtain b s' A' where 4: "sched_unlock False ?s3 = Some (b, s')" "sched_inv idle s' A'" "b = (this_task s' \<noteq> this_task s)"
    "lockcount s' = (lockcount ?s3)(this_task s := max 0 (lockcount s (this_task s)))"
    "0 < lockcount s (this_task s) \<longrightarrow> A' = ?A3" "blocked_eq {} (task_state ?s3) (task_state s')"
    using u unfolding th lc [unfolded th] by (auto split: if_splits)
  have "0 < lockcount s (this_task s) \<longrightarrow> this_task s' = this_task s"
    using 4(5) sched_coreD(3) [OF sched_invD(1) [OF 4(2)]] sched_coreD(3) [OF c] by auto
  moreover have "blocked_eq {t} (task_state s) (task_state ?s3)"
    by (simp add: blocked_eq_def sched_lock_def Let_def)
  from blocked_eq_trans [OF this 4(6)] have "blocked_eq {t} (task_state s) (task_state s')" by simp
  moreover have "task_state s' t = TSTATE_TASK_INACTIVE" using 4(6) by (simp add: blocked_eq_def is_blocked_state_def)
  ultimately show ?thesis unfolding setup_scheduler_lists_def Let_def using 4(1-4) by auto
qed

text \<open>The task that an event moves between the lists of blocked tasks and the others, and its state then.\<close>

fun event_tasks :: "sched_event \<Rightarrow> sched_s \<Rightarrow> ptr set" where
  "event_tasks (Block st) s = {this_task s}"
| "event_tasks (Unblock t) s = {t}"
| "event_tasks (Create t prio) s = {t}"
| "event_tasks _ s = {}"

lemma sched_exec_ok:
  assumes inv: "sched_inv idle s A" and g: "sched_guard idle e s"
  shows "\<exists>b s' A'. sched_exec e s = Some (b, s') \<and> sched_inv idle s' A' \<and> b = (this_task s' \<noteq> this_task s) \<and>
    blocked_eq (event_tasks e s) (task_state s) (task_state s') \<and>
    (\<forall>u \<in> event_tasks e s. task_state s' u = TSTATE_WAIT_SEM \<longrightarrow> e = Block TSTATE_WAIT_SEM)"
proof (cases e)
  case Lock
  have "task_state (sched_lock False s) = task_state s" by (simp add: sched_lock_def Let_def)
  then show ?thesis using sched_lock_ok [OF inv, of False] Lock g by (intro exI [of _ False] exI [of _ "sched_lock False s"] exI [of _ A]) simp
next
  case Unlock
  then show ?thesis unfolding Unlock sched_exec.simps event_tasks.simps ball_empty using sched_unlock_ok [OF inv] by blast
next
  case (Block st)
  then have g': "this_task s \<noteq> idle" "is_blocked_state st" using g by simp_all
  obtain s' A' where 1: "up_block_task s (this_task s) st = Some (True, s')" "sched_inv idle s' A'" "task_state s' (this_task s) = st"
    "blocked_eq {this_task s} (task_state s) (task_state s')"
    using up_block_task_ok [OF inv refl g'] by (elim exE conjE) (rule that)
  have "st \<noteq> TSTATE_TASK_RUNNING" using g'(2) by (auto simp: is_blocked_state_def)
  then have "this_task s' \<noteq> this_task s" using running_state [OF sched_invD(1) [OF 1(2)], of "this_task s"] 1(3) by metis
  then show ?thesis using 1 Block by auto
next
  case (Unblock t)
  then show ?thesis using up_unblock_task_ok [OF inv, of t] g by (auto split: if_splits)
next
  case (Set_Priority t prio)
  show ?thesis
  proof (cases "int SCHED_PRIORITY_MIN \<le> prio \<and> prio \<le> int SCHED_PRIORITY_MAX")
    case True
    then obtain b s' where "nxsched_set_priority s t prio = Some (OK, b, s')" "prio_changed idle s t (nat prio) b s'"
      using nxsched_set_priority_ok [OF inv, of t prio] g Set_Priority by auto
    then show ?thesis using Set_Priority by auto
  next
    case False
    then have "sched_exec e s = Some (False, s)" using Set_Priority by (auto simp: nxsched_set_priority_def)
    then show ?thesis using inv Set_Priority by (intro exI [of _ False] exI [of _ s] exI [of _ A]) simp
  qed
next
  case (Create t prio)
  then show ?thesis using setup_scheduler_ok [OF inv, of t prio] g by auto
qed

lemma sched_run_ok:
  "sched_inv idle s A \<Longrightarrow> sched_guards idle es s \<Longrightarrow> \<exists>s' A'. sched_run es s = Some s' \<and> sched_inv idle s' A'"
proof (induction es arbitrary: s A)
  case (Cons e es)
  then obtain b s' A' where "sched_exec e s = Some (b, s')" "sched_inv idle s' A'"
    using sched_exec_ok [OF Cons.prems(1), of e] by auto
  then show ?case using Cons.IH [of s' A'] Cons.prems(2) by simp
qed auto

lemmas start_defs = nx_start_lists_def init_idle_tcb_def init_task_lists_def tasklist_of_def

lemma nx_start_inv:
  assumes "idle \<noteq> NULL"
  shows "sched_inv idle (nx_start_lists idle) ((\<lambda>_. [])(G_READYTORUN := [idle]))"
proof -
  let ?A = "(\<lambda>_. [])(G_READYTORUN := [idle])"
  have "lists_ok (nx_start_lists idle) ?A"
    using assms by (auto simp: start_defs lists_ok_def on_list_def dq_rep_def dq_addfirst_def dq_init_def Let_def)
  moreover have "lists_inv idle ?A (sched_priority (nx_start_lists idle)) (task_state (nx_start_lists idle))"
    by (auto simp: start_defs lists_inv_def mark_rtr_def fun_eq_iff SCHED_PRIORITY_IDLE_def)
  ultimately show ?thesis by (simp add: sched_inv_def start_defs)
qed

end
