(* ===== verification/Sched_Props.thy ===== *)
theory Sched_Props
  imports Sched_Run
begin

text \<open>
  The contract of the scheduler. \<open>sched_reach\<close> are the states the operations reach from start-up; the properties say what
  holds there and what the operations do.
\<close>

section \<open>Reachable states\<close>

inductive sched_reach :: "ptr \<Rightarrow> sched_s \<Rightarrow> bool" for idle where
  start: "idle \<noteq> NULL \<Longrightarrow> sched_reach idle (nx_start_lists idle)"
| step: "sched_reach idle s \<Longrightarrow> sched_guard idle e s \<Longrightarrow> sched_exec e s = Some (b, s') \<Longrightarrow> sched_reach idle s'"

lemma reach_inv: "sched_reach idle s \<Longrightarrow> \<exists>A. sched_inv idle s A"
proof (induction rule: sched_reach.induct)
  case start
  then show ?case using nx_start_inv by blast
next
  case (step s e b s')
  then show ?case using sched_exec_ok by fastforce
qed

lemma run_reach: "sched_reach idle s \<Longrightarrow> sched_guards idle es s \<Longrightarrow> sched_run es s = Some s' \<Longrightarrow> sched_reach idle s'"
proof (induction es arbitrary: s)
  case (Cons e es)
  then obtain b s1 where 1: "sched_exec e s = Some (b, s1)" by (auto split: Option.bind_splits)
  then have "sched_reach idle s1" using Cons.prems by (auto intro: sched_reach.step)
  then show ?case using Cons 1 by auto
qed auto

lemma inv_states:
  assumes inv: "sched_inv idle s A"
  shows "task_state s t = TSTATE_TASK_RUNNING \<longleftrightarrow> t = this_task s"
    "task_state s t = TSTATE_TASK_READYTORUN \<Longrightarrow> sched_priority s t \<le> sched_priority s (this_task s)"
    "task_state s t = TSTATE_TASK_PENDING \<Longrightarrow> 0 < lockcount s (this_task s)"
    "t \<in> set (A G_PENDINGTASKS) \<longleftrightarrow> task_state s t = TSTATE_TASK_PENDING"
proof -
  note c = sched_invD(1) [OF inv]
  note i = lists_invD [OF sched_coreD(2) [OF c]]
  show "task_state s t = TSTATE_TASK_RUNNING \<longleftrightarrow> t = this_task s" by (rule running_state [OF c])
  show p: "t \<in> set (A G_PENDINGTASKS) \<longleftrightarrow> task_state s t = TSTATE_TASK_PENDING" using i(1) TLIST_simps(5) by simp
  show "task_state s t = TSTATE_TASK_PENDING \<Longrightarrow> 0 < lockcount s (this_task s)" using p sched_invD(2) [OF inv] by force
  assume "task_state s t = TSTATE_TASK_READYTORUN"
  then have "t \<in> set (A G_READYTORUN)" using i(1) by simp
  then show "sched_priority s t \<le> sched_priority s (this_task s)"
    using i(3) [of G_READYTORUN] sched_coreD(3) [OF c] by (cases "A G_READYTORUN") auto
qed

section \<open>The running task\<close>

text \<open>
  C31. The invariant of the scheduler: every admissible sequence of operations (locking and unlocking preemption,
  blocking and unblocking tasks, changing priorities, creating tasks) returns. Then exactly the head of the list of ready
  tasks is in the state \<open>TSTATE_TASK_RUNNING\<close>, no ready task has a higher priority, and a task is pending only while
  the running task has disabled preemption.
\<close>

theorem sched_run_prioritized:
  assumes "idle \<noteq> NULL" "sched_guards idle es (nx_start_lists idle)"
  shows "\<exists>s. sched_run es (nx_start_lists idle) = Some s \<and>
    (\<forall>t. task_state s t = TSTATE_TASK_RUNNING \<longleftrightarrow> t = this_task s) \<and>
    (\<forall>t. task_state s t = TSTATE_TASK_READYTORUN \<longrightarrow> sched_priority s t \<le> sched_priority s (this_task s)) \<and>
    (\<forall>t. task_state s t = TSTATE_TASK_PENDING \<longrightarrow> 0 < lockcount s (this_task s))"
  using sched_run_ok [OF nx_start_inv [OF assms(1)] assms(2)] inv_states by blast

definition demo_events :: "sched_event list" where
  "demo_events = [Create 2 100, Create 3 50, Unblock 3, Lock, Unblock 2, Set_Priority 3 70, Unlock, Block TSTATE_WAIT_SEM, Unblock 2]"

theorem sched_run_prioritized_witness:
  "(1::ptr) \<noteq> NULL \<and> sched_guards 1 demo_events (nx_start_lists 1) \<and>
   (\<exists>s. sched_run demo_events (nx_start_lists 1) = Some s \<and>
     (\<forall>t. task_state s t = TSTATE_TASK_PENDING \<longrightarrow> 0 < lockcount s (this_task s)))"
proof -
  have 1: "(1::ptr) \<noteq> NULL" by simp
  have 2: "sched_guards 1 demo_events (nx_start_lists 1)" by code_simp
  show ?thesis using sched_run_prioritized [OF 1 2] 1 2 by blast
qed

section \<open>Merging against unblocking one by one\<close>



text \<open>A state in which the idle task has disabled preemption and two tasks are pending, for the witnesses.\<close>

definition demo_locked :: "sched_event list" where
  "demo_locked = [Create 2 100, Create 3 50, Create 4 70, Lock, Unblock 3, Unblock 2]"

lemma demo_locked_reach:
  "\<exists>s. sched_reach 1 s \<and> this_task s = 1 \<and> lockcount s 1 = 1 \<and> task_state s 2 = TSTATE_TASK_PENDING \<and>
     task_state s 3 = TSTATE_TASK_PENDING \<and> task_state s 4 = TSTATE_TASK_INACTIVE \<and>
     sched_guards 1 [Unblock 4, Set_Priority 3 120] s"
proof -
  let ?P = "\<lambda>s. this_task s = 1 \<and> lockcount s 1 = 1 \<and> task_state s 2 = TSTATE_TASK_PENDING \<and>
     task_state s 3 = TSTATE_TASK_PENDING \<and> task_state s 4 = TSTATE_TASK_INACTIVE \<and>
     sched_guards 1 [Unblock 4, Set_Priority 3 120] s"
  have g: "sched_guards 1 demo_locked (nx_start_lists 1)" by code_simp
  have "case sched_run demo_locked (nx_start_lists 1) of None \<Rightarrow> False | Some s \<Rightarrow> ?P s" by code_simp
  then obtain s where s: "sched_run demo_locked (nx_start_lists 1) = Some s" "?P s" by (auto split: option.splits)
  have "sched_reach 1 (nx_start_lists 1)" by (rule sched_reach.start) simp
  then have "sched_reach 1 s" by (rule run_reach [OF _ g s(1)])
  with s(2) show ?thesis by blast
qed



section \<open>Disabled preemption\<close>

text \<open>The operations that do not give up the processor: all but to unlock, to block and to change the priority of the task itself.\<close>

fun keeps_cpu :: "ptr \<Rightarrow> sched_event \<Rightarrow> bool" where
  "keeps_cpu t Unlock = False"
| "keeps_cpu t (Block st) = False"
| "keeps_cpu t (Set_Priority u prio) = (u \<noteq> t)"
| "keeps_cpu t _ = True"

lemma exec_keeps_cpu:
  assumes inv: "sched_inv idle s A" and g: "sched_guard idle e s" and l: "0 < lockcount s (this_task s)" and k: "keeps_cpu (this_task s) e"
  shows "\<exists>s' A'. sched_exec e s = Some (False, s') \<and> sched_inv idle s' A' \<and> this_task s' = this_task s \<and> 0 < lockcount s' (this_task s)"
proof (cases e)
  case Lock
  with g have lb: "lockable s" by simp
  have "lockcount (sched_lock False s) (this_task s) \<ge> lockcount s (this_task s)" by (simp add: sched_lock_eq [OF inv lb])
  with Lock show ?thesis using sched_lock_ok [OF inv lb, of False] l by auto
next
  case (Unblock t)
  then obtain b s' A' where 1: "up_unblock_task s t = Some (b, s')" "sched_inv idle s' A'" "same_tcbs s s'" "b = (this_task s' \<noteq> this_task s)"
      "b = (lockcount s (this_task s) = 0 \<and> sched_priority s (this_task s) < sched_priority s t)"
    using up_unblock_task_ok [OF inv, of t] g by auto
  then show ?thesis using Unblock l by auto
next
  case (Set_Priority t prio)
  show ?thesis
  proof (cases "int SCHED_PRIORITY_MIN \<le> prio \<and> prio \<le> int SCHED_PRIORITY_MAX")
    case True
    then obtain b s' where "nxsched_set_priority s t prio = Some (OK, b, s')" "prio_changed idle s t (nat prio) b s'"
      using nxsched_set_priority_ok [OF inv, of t prio] g Set_Priority by auto
    then show ?thesis using Set_Priority k l by auto
  next
    case False
    then have "sched_exec e s = Some (False, s)" using Set_Priority by (auto simp: nxsched_set_priority_def)
    then show ?thesis using inv l by auto
  qed
next
  case (Create t prio)
  then show ?thesis using setup_scheduler_ok [OF inv, of t prio] g l by auto
qed (use k in auto)

lemma run_keeps_cpu:
  "sched_inv idle s A \<Longrightarrow> sched_guards idle es s \<Longrightarrow> 0 < lockcount s (this_task s) \<Longrightarrow> list_all (keeps_cpu (this_task s)) es \<Longrightarrow>
   \<exists>s'. sched_run es s = Some s' \<and> this_task s' = this_task s \<and> 0 < lockcount s' (this_task s')"
proof (induction es arbitrary: s A)
  case (Cons e es)
  then obtain s1 A1 where 1: "sched_exec e s = Some (False, s1)" "sched_inv idle s1 A1" "this_task s1 = this_task s" "0 < lockcount s1 (this_task s)"
    using exec_keeps_cpu [OF Cons.prems(1), of e] by auto
  then show ?case using Cons.IH [OF 1(2)] Cons.prems by simp
qed simp

text \<open>
  C33. Safety of \<open>sched_lock\<close>: while the running task has disabled preemption, no sequence of operations in which
  it neither unlocks nor blocks nor changes its own priority takes the processor from it, whatever tasks
  become ready, are created or are raised in priority meanwhile, and however high their priority is.
\<close>

theorem sched_lock_keeps_cpu:
  assumes "sched_reach idle s" "0 < lockcount s (this_task s)" "sched_guards idle es s" "list_all (keeps_cpu (this_task s)) es"
  shows "\<exists>s'. sched_run es s = Some s' \<and> this_task s' = this_task s \<and> 0 < lockcount s' (this_task s')"
  using reach_inv [OF assms(1)] run_keeps_cpu [OF _ assms(3,2,4)] by blast

theorem sched_lock_keeps_cpu_witness:
  "\<exists>s s'. sched_reach 1 s \<and> this_task s = 1 \<and> sched_run [Unblock 4, Set_Priority 3 120] s = Some s' \<and> this_task s' = 1"
proof -
  obtain s where s: "sched_reach 1 s" "this_task s = 1" "lockcount s 1 = 1" "sched_guards 1 [Unblock 4, Set_Priority 3 120] s"
    using demo_locked_reach by blast
  have "0 < lockcount s (this_task s)" "list_all (keeps_cpu (this_task s)) [Unblock 4, Set_Priority 3 120]" using s(2,3) by simp_all
  from sched_lock_keeps_cpu [OF s(1) this(1) s(4) this(2)] show ?thesis using s(1,2) by auto
qed

text \<open>
  C34. When the running task leaves its outermost \<open>sched_lock\<close> section, \<open>sched_unlock\<close> returns, no task stays pending: every
  task that was pending is ready or running, and none of them has a higher priority than the task
  that now runs. The result tells whether the running task has changed.
\<close>

theorem sched_unlock_releases:
  assumes "sched_reach idle s" "lockcount s (this_task s) \<le> 1"
  shows "\<exists>b s'. sched_unlock False s = Some (b, s') \<and> b = (this_task s' \<noteq> this_task s) \<and>
    lockcount s' (this_task s) = 0 \<and> (\<forall>t. task_state s' t \<noteq> TSTATE_TASK_PENDING) \<and>
    (\<forall>t. task_state s t = TSTATE_TASK_PENDING \<longrightarrow>
      task_state s' t \<in> {TSTATE_TASK_RUNNING, TSTATE_TASK_READYTORUN} \<and> sched_priority s t \<le> sched_priority s (this_task s'))"
proof -
  obtain A where inv: "sched_inv idle s A" using reach_inv [OF assms(1)] by blast
  let ?R = "fold (prio_insert (sched_priority s)) (A G_PENDINGTASKS) (A G_READYTORUN)"
  obtain b s' A' where u: "sched_unlock False s = Some (b, s')" "sched_inv idle s' A'" "b = (this_task s' \<noteq> this_task s)"
    "sched_priority s' = sched_priority s" "lockcount s' = (lockcount s)(this_task s := max 0 (lockcount s (this_task s) - 1))"
    "A' = A(G_READYTORUN := ?R, G_PENDINGTASKS := [])"
    using sched_unlock_ok [OF inv] assms(2) by auto
  note st = inv_states [OF u(2)]
  have p: "task_state s' t \<noteq> TSTATE_TASK_PENDING" for t using st(4) [of t] u(6) by simp
  have r: "task_state s' t \<in> {TSTATE_TASK_RUNNING, TSTATE_TASK_READYTORUN}" if "task_state s t = TSTATE_TASK_PENDING" for t
  proof -
    have "t \<in> set (A' G_READYTORUN)" using inv_states(4) [OF inv, of t] that u(6) by (simp add: set_fold_insert)
    then show ?thesis using lists_invD(1) [OF sched_coreD(2) [OF sched_invD(1) [OF u(2)]]] TLIST_simps(4) by simp
  qed
  have "sched_priority s t \<le> sched_priority s (this_task s')" if "task_state s t = TSTATE_TASK_PENDING" for t
    using r [OF that] st(1,2) [of t] u(4) by auto
  moreover have "lockcount s' (this_task s) = 0" using u(5) assms(2) by simp
  ultimately show ?thesis using u(1,3) p r by blast
qed

theorem sched_unlock_releases_witness:
  "\<exists>s b s'. sched_reach 1 s \<and> task_state s 2 = TSTATE_TASK_PENDING \<and> sched_unlock False s = Some (b, s') \<and>
     task_state s' 2 \<in> {TSTATE_TASK_RUNNING, TSTATE_TASK_READYTORUN}"
proof -
  obtain s where s: "sched_reach 1 s" "this_task s = 1" "lockcount s 1 = 1" "task_state s 2 = TSTATE_TASK_PENDING"
    using demo_locked_reach by blast
  have "lockcount s (this_task s) \<le> 1" using s(2,3) by simp
  from sched_unlock_releases [OF s(1) this] show ?thesis using s(1,4) by blast
qed

section \<open>Insertion and change of priority\<close>

lemma prio_insert_filter:
  assumes "by_prio pf xs"
  shows "prio_insert pf t xs = filter (\<lambda>x. pf t \<le> pf x) xs @ t # filter (\<lambda>x. pf x < pf t) xs"
proof -
  have "takeWhile (\<lambda>x. pf t \<le> pf x) xs = filter (\<lambda>x. pf t \<le> pf x) xs \<and>
    dropWhile (\<lambda>x. pf t \<le> pf x) xs = filter (\<lambda>x. pf x < pf t) xs"
    using assms
  proof (induction xs)
    case (Cons x xs)
    show ?case
    proof (cases "pf t \<le> pf x")
      case False
      then have "\<forall>y \<in> set xs. pf y < pf t" using Cons.prems by auto
      then have "filter (\<lambda>x. pf t \<le> pf x) xs = []" "filter (\<lambda>x. pf x < pf t) xs = xs"
        by (auto simp: filter_id_conv filter_empty_conv)
      then show ?thesis using False by simp
    qed (use Cons in auto)
  qed simp
  then show ?thesis by (simp add: prio_insert_def)
qed

lemma add_prioritized_sorted:
  assumes ok: "lists_ok s A" and s: "by_prio (sched_priority s) (A L)" and t: "\<not> in_lists A t" "t \<noteq> NULL"
    and xs: "xs = filter (\<lambda>x. sched_priority s t \<le> sched_priority s x) (A L) @ t # filter (\<lambda>x. sched_priority s x < sched_priority s t) (A L)"
  shows "\<exists>b s'. nxsched_add_prioritized s t L = Some (b, s') \<and> lists_ok s' (A(L := xs)) \<and> by_prio (sched_priority s) xs \<and>
    b = (\<forall>x \<in> set (A L). sched_priority s x < sched_priority s t)"
proof -
  have e: "prio_insert (sched_priority s) t (A L) = xs" unfolding xs by (rule prio_insert_filter [OF s])
  obtain s' where 1: "nxsched_add_prioritized s t L = Some (hd0 xs = t, s')" "lists_ok s' (A(L := xs))"
    using add_prioritized_ok [OF ok t, of L] unfolding e by blast
  have "by_prio (sched_priority s) xs" using by_prio_insert [OF s, of t] unfolding e .
  moreover have "hd0 xs = t \<longleftrightarrow> (\<forall>x \<in> set (A L). sched_priority s x < sched_priority s t)"
  proof (cases "filter (\<lambda>x. sched_priority s t \<le> sched_priority s x) (A L)")
    case Nil
    then show ?thesis unfolding xs by (auto simp: filter_empty_conv)
  next
    case (Cons y ys)
    then have "y \<in> set (A L)" "sched_priority s t \<le> sched_priority s y" by (auto simp: filter_eq_Cons_iff)
    moreover have "y \<noteq> t" using calculation(1) t(1) by blast
    ultimately show ?thesis unfolding xs Cons using linorder_not_less by auto
  qed
  ultimately show ?thesis using 1 by auto
qed

text \<open>
  C35. \<open>nxsched_add_prioritized\<close> inserts a task behind all tasks of the list with the same or a higher priority and
  before all others, whose orders it keeps; the list stays ordered by falling priority, the other lists are as
  before, and the result is true exactly when the task is the new head, above all tasks of the list.
\<close>

theorem nxsched_add_prioritized_stable:
  assumes "lists_ok s A" "by_prio (sched_priority s) (A L)" "\<not> in_lists A t" "t \<noteq> NULL"
    "xs = filter (\<lambda>x. sched_priority s t \<le> sched_priority s x) (A L) @ t # filter (\<lambda>x. sched_priority s x < sched_priority s t) (A L)"
  shows "\<exists>b s'. nxsched_add_prioritized s t L = Some (b, s') \<and> lists_ok s' (A(L := xs)) \<and> by_prio (sched_priority s) xs \<and>
    b = (\<forall>x \<in> set (A L). sched_priority s x < sched_priority s t)"
  by (rule add_prioritized_sorted [OF assms])

theorem nxsched_add_prioritized_stable_witness:
  "\<exists>s A b s'. lists_ok s A \<and> A G_READYTORUN = [1] \<and> nxsched_add_prioritized s 2 G_READYTORUN = Some (b, s') \<and>
     lists_ok s' (A(G_READYTORUN := [1, 2]))"
proof -
  let ?A = "(\<lambda>_. [])(G_READYTORUN := [1])" and ?s = "nx_start_lists 1"
  have ok: "lists_ok ?s ?A" using nx_start_inv [of 1] by (simp add: sched_inv_def)
  have p: "sched_priority ?s x = 0" for x by (simp add: start_defs)
  obtain b s' where "nxsched_add_prioritized ?s 2 G_READYTORUN = Some (b, s')" "lists_ok s' (?A(G_READYTORUN := [1, 2]))"
    using nxsched_add_prioritized_stable [of ?s ?A G_READYTORUN 2 "[1, 2]"] ok p by auto
  with ok show ?thesis by (intro exI [of _ ?s] exI [of _ ?A] exI [of _ b] exI [of _ s']) simp
qed



end
