(* ===== verification/Sem_Code.thy ===== *)
theory Sem_Code
  imports Sched_Props
begin

text \<open>
  Counting semaphores (\<open>sched/semaphore\<close>, \<open>libs/libc/semaphore\<close>) on top of the scheduler, without priority
  inheritance: the count of a semaphore is negative while tasks wait for it, the task control block names the
  semaphore its task waits for, and the waiting tasks of all semaphores share one list ordered by priority. A wait that
  blocks returns nothing until the task is made ready; \<open>nxsem_wait_result\<close> is what it then returns. This theory is
  the code; \<open>Sem_Props\<close> is about it.
\<close>

section \<open>Semaphores\<close>

record sem_sys =
  sys :: sched_s
  semcount :: "ptr \<Rightarrow> int"
  waitsem :: "ptr \<Rightarrow> ptr"
  errcode :: "ptr \<Rightarrow> int"

definition set_count :: "ptr \<Rightarrow> int \<Rightarrow> sem_sys \<Rightarrow> sem_sys" where
  "set_count sem n S = S\<lparr>semcount := (semcount S)(sem := to_int16 n)\<rparr>"

definition set_waitsem :: "ptr \<Rightarrow> ptr \<Rightarrow> sem_sys \<Rightarrow> sem_sys" where
  "set_waitsem tcb sem S = S\<lparr>waitsem := (waitsem S)(tcb := sem)\<rparr>"

definition set_errcode :: "ptr \<Rightarrow> int \<Rightarrow> sem_sys \<Rightarrow> sem_sys" where
  "set_errcode tcb err S = S\<lparr>errcode := (errcode S)(tcb := err)\<rparr>"

section \<open>Initialisation and queries\<close>

definition nxsem_init :: "sem_sys \<Rightarrow> ptr \<Rightarrow> int \<Rightarrow> int \<times> sem_sys" where
  "nxsem_init S sem value =
     (if sem \<noteq> NULL \<and> value \<le> SEM_VALUE_MAX then (OK, set_count sem value S) else (- EINVAL, S))"

definition nxsem_destroy :: "sem_sys \<Rightarrow> ptr \<Rightarrow> int \<times> sem_sys" where
  "nxsem_destroy S sem =
     (if sem \<noteq> NULL then (OK, if semcount S sem \<ge> 0 then set_count sem 1 S else S) else (- EINVAL, S))"

definition nxsem_get_value :: "sem_sys \<Rightarrow> ptr \<Rightarrow> int \<times> int option" where
  "nxsem_get_value S sem = (if sem \<noteq> NULL then (OK, Some (semcount S sem)) else (- EINVAL, None))"

section \<open>Waiting\<close>

text \<open>
  The results: the value returned, or nothing if the task has been blocked; whether the context switches;
  the new state.
\<close>

definition nxsem_wait :: "sem_sys \<Rightarrow> ptr \<Rightarrow> (int option \<times> bool \<times> sem_sys) option" where
  "nxsem_wait S sem =
     (let rtcb = this_task (sys S)
      in if sem \<noteq> NULL
         then if semcount S sem > 0
              then let S = set_count sem (semcount S sem - 1) S;
                       S = set_waitsem rtcb NULL S
                   in Some (Some OK, False, S)
              else do { let S = set_count sem (semcount S sem - 1) S;
                        let S = set_waitsem rtcb sem S;
                        let S = set_errcode rtcb OK S;
                        (sw, s) \<leftarrow> up_block_task (sys S) rtcb TSTATE_WAIT_SEM;
                        Some (None, sw, S\<lparr>sys := s\<rparr>) }
         else Some (Some (- EINVAL), False, S))"

definition nxsem_wait_result :: "sem_sys \<Rightarrow> ptr \<Rightarrow> int" where
  "nxsem_wait_result S rtcb = (if errcode S rtcb \<noteq> OK then - errcode S rtcb else OK)"

definition nxsem_trywait :: "sem_sys \<Rightarrow> ptr \<Rightarrow> int \<times> sem_sys" where
  "nxsem_trywait S sem =
     (let rtcb = this_task (sys S)
      in if sem \<noteq> NULL
         then if semcount S sem > 0
              then let S = set_count sem (semcount S sem - 1) S;
                       S = set_waitsem rtcb NULL S
                   in (OK, S)
              else (- EAGAIN, S)
         else (- EINVAL, S))"

section \<open>Posting\<close>

text \<open>The search for the first task that waits for the semaphore.\<close>

partial_function (option) wait_search :: "sem_sys \<Rightarrow> ptr \<Rightarrow> ptr \<Rightarrow> ptr option" where
  "wait_search S sem stcb =
     (if stcb \<noteq> NULL \<and> waitsem S stcb \<noteq> sem
      then wait_search S sem (flink (tcb_links (sys S)) stcb)
      else Some stcb)"

declare wait_search.simps [code]

definition nxsem_post :: "sem_sys \<Rightarrow> ptr \<Rightarrow> (int \<times> bool \<times> sem_sys) option" where
  "nxsem_post S sem =
     (if sem \<noteq> NULL
      then if semcount S sem \<ge> SEM_VALUE_MAX then Some (- EOVERFLOW, False, S)
           else let S = set_count sem (semcount S sem + 1) S
                in if semcount S sem \<le> 0
                   then do { stcb \<leftarrow> wait_search S sem (dq_head (task_list (sys S) G_WAITINGFORSEMAPHORE));
                             if stcb \<noteq> NULL
                             then do { let S = set_waitsem stcb NULL S;
                                       (sw, s) \<leftarrow> up_unblock_task (sys S) stcb;
                                       Some (OK, sw, S\<lparr>sys := s\<rparr>) }
                             else Some (OK, False, S) }
                   else Some (OK, False, S)
      else Some (- EINVAL, False, S))"

text \<open>A signal or a timeout ends the wait of a task.\<close>

definition nxsem_wait_irq :: "sem_sys \<Rightarrow> ptr \<Rightarrow> int \<Rightarrow> (bool \<times> sem_sys) option" where
  "nxsem_wait_irq S wtcb err =
     (if task_state (sys S) wtcb = TSTATE_WAIT_SEM
      then do { let sem = waitsem S wtcb;
                let S = set_count sem (semcount S sem + 1) S;
                let S = set_waitsem wtcb NULL S;
                let S = set_errcode wtcb err S;
                (sw, s) \<leftarrow> up_unblock_task (sys S) wtcb;
                Some (sw, S\<lparr>sys := s\<rparr>) }
      else Some (False, S))"

text \<open>The deletion of a task that waits gives the count back; the task stays on the list.\<close>

definition nxsem_recover :: "sem_sys \<Rightarrow> ptr \<Rightarrow> sem_sys" where
  "nxsem_recover S tcb =
     (if task_state (sys S) tcb = TSTATE_WAIT_SEM
      then let sem = waitsem S tcb;
               S = set_count sem (semcount S sem + 1) S
           in set_waitsem tcb NULL S
      else S)"

text \<open>The loop of \<open>nxsem_reset\<close> hands out counts to waiting tasks.\<close>

partial_function (option) reset_loop :: "sem_sys \<Rightarrow> ptr \<Rightarrow> int \<Rightarrow> (int \<times> sem_sys) option" where
  "reset_loop S sem count =
     (if semcount S sem < 0 \<and> count > 0
      then Option.bind (nxsem_post S sem) (\<lambda>(_, _, S). reset_loop S sem (count - 1))
      else Some (count, S))"

declare reset_loop.simps [code]

definition nxsem_reset :: "sem_sys \<Rightarrow> ptr \<Rightarrow> int \<Rightarrow> (int \<times> bool \<times> sem_sys) option" where
  "nxsem_reset S sem count =
     do { let S = S\<lparr>sys := sched_lock False (sys S)\<rparr>;
          (count, S) \<leftarrow> reset_loop S sem count;
          let S = (if semcount S sem \<ge> 0 then set_count sem count S else S);
          (sw, s) \<leftarrow> sched_unlock False (sys S);
          Some (OK, sw, S\<lparr>sys := s\<rparr>) }"

end
