(* ===== verification/Sem_Props.thy ===== *)
theory Sem_Props
  imports Sem_Code
begin

text \<open>
  The semaphores implement the textbook counting semaphore: a number of available counts and a set of waiting tasks, at
  most one of which is not empty. Every event of the system, the calls on semaphores as well as the other operations
  of the scheduler between them, is shown to be a step of this specification; the counts granted never exceed the counts
  posted and those available initially; \<open>nxsem_reset\<close> ends.
\<close>

section \<open>Waiting tasks\<close>

definition waiters :: "sem_sys \<Rightarrow> ptr \<Rightarrow> ptr set" where
  "waiters S sem = {t. task_state (sys S) t = TSTATE_WAIT_SEM \<and> waitsem S t = sem}"

definition sem_inv :: "ptr \<Rightarrow> sem_sys \<Rightarrow> bool" where
  "sem_inv idle S \<longleftrightarrow> (\<exists>A. sched_inv idle (sys S) A) \<and>
     (\<forall>sem. sem \<noteq> NULL \<longrightarrow> int (card (waiters S sem)) = max 0 (- semcount S sem) \<and>
        - 32768 \<le> semcount S sem \<and> semcount S sem \<le> SEM_VALUE_MAX) \<and>
     (\<forall>t. waitsem S t \<noteq> NULL \<longleftrightarrow> task_state (sys S) t = TSTATE_WAIT_SEM)"

lemma sem_invD:
  assumes "sem_inv idle S"
  shows "\<exists>A. sched_inv idle (sys S) A" "sem \<noteq> NULL \<Longrightarrow> int (card (waiters S sem)) = max 0 (- semcount S sem)"
    "sem \<noteq> NULL \<Longrightarrow> - 32768 \<le> semcount S sem" "sem \<noteq> NULL \<Longrightarrow> semcount S sem \<le> SEM_VALUE_MAX"
    "waitsem S t \<noteq> NULL \<longleftrightarrow> task_state (sys S) t = TSTATE_WAIT_SEM"
  using assms unfolding sem_inv_def by blast+

lemma sem_sys_simps [simp]:
  "sys (set_count sem n S) = sys S" "waitsem (set_count sem n S) = waitsem S" "errcode (set_count sem n S) = errcode S"
  "semcount (set_count sem n S) = (semcount S)(sem := to_int16 n)"
  "sys (set_waitsem t w S) = sys S" "semcount (set_waitsem t w S) = semcount S" "waitsem (set_waitsem t w S) = (waitsem S)(t := w)"
  "sys (set_errcode t e S) = sys S" "semcount (set_errcode t e S) = semcount S" "waitsem (set_errcode t e S) = waitsem S"
  by (simp_all add: set_count_def set_waitsem_def set_errcode_def)

lemma waiters_list:
  assumes "sched_inv idle (sys S) A"
  shows "waiters S sem = set (filter (\<lambda>t. waitsem S t = sem) (A G_WAITINGFORSEMAPHORE))"
proof -
  note i = lists_invD(1) [OF sched_coreD(2) [OF sched_invD(1) [OF assms]], of _ G_WAITINGFORSEMAPHORE]
  have "TLIST_HEAD st = Some G_WAITINGFORSEMAPHORE \<longleftrightarrow> st = TSTATE_WAIT_SEM" for st by (cases st) simp_all
  then show ?thesis using i by (auto simp: waiters_def)
qed

lemma finite_waiters: "sem_inv idle S \<Longrightarrow> finite (waiters S sem)"
  using sem_invD(1) waiters_list by fastforce

lemma waiting_count:
  assumes "sem_inv idle S" "sem \<noteq> NULL"
  shows "waiters S sem = {} \<longleftrightarrow> 0 \<le> semcount S sem"
  using sem_invD(2) [OF assms] finite_waiters [OF assms(1), of sem] by (auto simp: card_0_eq [symmetric] simp del: card_0_eq)

lemma running_waits_not:
  assumes "sem_inv idle S"
  shows "waitsem S (this_task (sys S)) = NULL"
proof -
  obtain A where "sched_inv idle (sys S) A" using sem_invD(1) [OF assms] by blast
  then have "task_state (sys S) (this_task (sys S)) = TSTATE_TASK_RUNNING" using inv_states(1) by blast
  then show ?thesis using sem_invD(5) [OF assms, of "this_task (sys S)"] by simp
qed

text \<open>Steps of the scheduler that leave the waiting tasks waiting.\<close>

lemma sem_inv_sys:
  assumes "sem_inv idle S" "sched_inv idle s' A'" "\<And>u. task_state s' u = TSTATE_WAIT_SEM \<longleftrightarrow> task_state (sys S) u = TSTATE_WAIT_SEM"
  shows "sem_inv idle (S\<lparr>sys := s'\<rparr>)" "waiters (S\<lparr>sys := s'\<rparr>) = waiters S"
proof -
  show w: "waiters (S\<lparr>sys := s'\<rparr>) = waiters S" using assms(3) by (simp add: waiters_def fun_eq_iff)
  show "sem_inv idle (S\<lparr>sys := s'\<rparr>)" using assms unfolding sem_inv_def w by auto
qed

section \<open>The operations\<close>

lemma nxsem_take_ok:
  assumes inv: "sem_inv idle S" and s: "sem \<noteq> NULL" "0 < semcount S sem"
    and S': "S' = set_waitsem (this_task (sys S)) NULL (set_count sem (semcount S sem - 1) S)"
  shows "sem_inv idle S'" "waiters S' = waiters S" "semcount S' = (semcount S)(sem := semcount S sem - 1)" "sys S' = sys S"
proof -
  have n: "to_int16 (semcount S sem - 1) = semcount S sem - 1"
    using s(2) sem_invD(4) [OF inv s(1)] by (intro to_int16_id) simp_all
  have w: "waitsem S' = waitsem S" using running_waits_not [OF inv] by (simp add: S' fun_upd_idem)
  show ws: "waiters S' = waiters S" using w by (simp add: S' waiters_def fun_eq_iff)
  show c: "semcount S' = (semcount S)(sem := semcount S sem - 1)" and y: "sys S' = sys S" by (simp_all add: S' n)
  have "waiters S sem = {}" using waiting_count [OF inv s(1)] s(2) by simp
  then show "sem_inv idle S'" using inv s(2) sem_invD(4) [OF inv s(1)] unfolding sem_inv_def ws c y w by auto
qed

lemma nxsem_wait_block_ok:
  assumes inv: "sem_inv idle S" and s: "sem \<noteq> NULL" "semcount S sem \<le> 0" "- 32768 < semcount S sem"
    and t: "t = this_task (sys S)" "t \<noteq> idle"
  shows "\<exists>S'. nxsem_wait S sem = Some (None, True, S') \<and> sem_inv idle S' \<and>
    waiters S' = (waiters S)(sem := insert t (waiters S sem)) \<and> semcount S' = (semcount S)(sem := semcount S sem - 1)"
proof -
  obtain A where A: "sched_inv idle (sys S) A" using sem_invD(1) [OF inv] by blast
  have b: "is_blocked_state TSTATE_WAIT_SEM" by (simp add: is_blocked_state_def)
  obtain s' A' where 1: "up_block_task (sys S) t TSTATE_WAIT_SEM = Some (True, s')" "sched_inv idle s' A'"
    "task_state s' t = TSTATE_WAIT_SEM" "blocked_eq {t} (task_state (sys S)) (task_state s')"
    using up_block_task_ok [OF A t b] by (elim exE conjE) (rule that)
  let ?S = "set_errcode t OK (set_waitsem t sem (set_count sem (semcount S sem - 1) S))\<lparr>sys := s'\<rparr>"
  have n: "to_int16 (semcount S sem - 1) = semcount S sem - 1"
    using s(2,3) by (intro to_int16_id) (simp_all add: SEM_VALUE_MAX_def)
  have st: "task_state s' u = TSTATE_WAIT_SEM \<longleftrightarrow> u = t \<or> task_state (sys S) u = TSTATE_WAIT_SEM" for u
    using 1(3,4) b unfolding blocked_eq_def by (cases "u = t") auto
  have run: "task_state (sys S) t = TSTATE_TASK_RUNNING" using inv_states(1) [OF A] t(1) by blast
  have w: "waiters ?S = (waiters S)(sem := insert t (waiters S sem))"
    using st run running_waits_not [OF inv] s(1) t(1) by (auto simp: waiters_def fun_eq_iff)
  have nt: "t \<notin> waiters S sem" using run by (simp add: waiters_def)
  have c: "semcount ?S = (semcount S)(sem := semcount S sem - 1)" by (simp add: n)
  have "sem_inv idle ?S"
    unfolding sem_inv_def w c
    using inv 1(2) s st nt finite_waiters [OF inv, of sem] unfolding sem_inv_def by (auto simp: SEM_VALUE_MAX_def)
  moreover have "nxsem_wait S sem = Some (None, True, ?S)"
    using s(1,2) 1(1) t(1) by (simp add: nxsem_wait_def Let_def)
  ultimately show ?thesis using w c by blast
qed

text \<open>A waiting task is made ready and its count given back, by \<open>nxsem_post\<close> and by \<open>nxsem_wait_irq\<close>.\<close>

lemma wake_ok:
  assumes inv: "sem_inv idle S" and t: "t \<in> waiters S sem" "sem \<noteq> NULL"
    and S1: "sys S1 = sys S" "waitsem S1 = (waitsem S)(t := NULL)" "semcount S1 = (semcount S)(sem := semcount S sem + 1)"
  shows "\<exists>b s'. up_unblock_task (sys S) t = Some (b, s') \<and> sem_inv idle (S1\<lparr>sys := s'\<rparr>) \<and>
    waiters (S1\<lparr>sys := s'\<rparr>) = (waiters S)(sem := waiters S sem - {t}) \<and> b = (this_task s' \<noteq> this_task (sys S)) \<and>
    same_tcbs (sys S) s' \<and> (0 < lockcount (sys S) (this_task (sys S)) \<longrightarrow> \<not> b) \<and> \<not> is_blocked_state (task_state s' t)"
proof -
  obtain A where A: "sched_inv idle (sys S) A" using sem_invD(1) [OF inv] by blast
  have ts: "task_state (sys S) t = TSTATE_WAIT_SEM" "waitsem S t = sem" using t(1) by (simp_all add: waiters_def)
  have bs: "is_blocked_state TSTATE_WAIT_SEM" by (simp add: is_blocked_state_def)
  obtain b s' A' where 1: "up_unblock_task (sys S) t = Some (b, s')" "sched_inv idle s' A'" "same_tcbs (sys S) s'"
    "blocked_eq {t} (task_state (sys S)) (task_state s')" "b = (this_task s' \<noteq> this_task (sys S))"
    "b = (lockcount (sys S) (this_task (sys S)) = 0 \<and> sched_priority (sys S) (this_task (sys S)) < sched_priority (sys S) t)"
    "task_state s' t = (if sched_priority (sys S) t \<le> sched_priority (sys S) (this_task (sys S)) then TSTATE_TASK_READYTORUN
      else if 0 < lockcount (sys S) (this_task (sys S)) then TSTATE_TASK_PENDING else TSTATE_TASK_RUNNING)"
    using up_unblock_task_ok [OF A, of t] ts(1) bs by auto
  let ?S = "S1\<lparr>sys := s'\<rparr>"
  have nb: "\<not> is_blocked_state (task_state s' t)" unfolding 1(7) by (simp add: is_blocked_state_def)
  have st: "task_state s' u = TSTATE_WAIT_SEM \<longleftrightarrow> u \<noteq> t \<and> task_state (sys S) u = TSTATE_WAIT_SEM" for u
    using 1(4) nb bs unfolding blocked_eq_def by (metis singletonD)
  have w: "waiters ?S = (waiters S)(sem := waiters S sem - {t})"
    using st ts by (auto simp: waiters_def S1 fun_eq_iff)
  have c: "int (card (waiters S sem - {t})) = int (card (waiters S sem)) - 1" "0 < card (waiters S sem)"
    using t(1) finite_waiters [OF inv, of sem] card_gt_0_iff [of "waiters S sem"] by (auto simp: of_nat_diff)
  have n: "0 \<le> 32769 + semcount S sem" "semcount S sem < 0"
    using sem_invD(2,3) [OF inv t(2)] c(2) by simp_all
  have "sem_inv idle ?S"
    unfolding sem_inv_def w using 1(2) st c n sem_invD(2-5) [OF inv] t(2)
    by (auto simp: S1 SEM_VALUE_MAX_def)
  then show ?thesis using 1(1,3,5,6) w nb by (intro exI [of _ b] exI [of _ s']) auto
qed

lemma wait_search_ok:
  "lseg (flink (tcb_links (sys S))) p xs NULL \<Longrightarrow> wait_search S sem p = Some (hd0 (dropWhile (\<lambda>t. waitsem S t \<noteq> sem) xs))"
proof (induction xs arbitrary: p)
  case Nil
  then show ?case by (subst wait_search.simps) simp
next
  case (Cons x xs)
  then show ?case by (subst wait_search.simps) simp
qed

lemma hd0_dropWhile_filter: "hd0 (dropWhile (\<lambda>x. \<not> P x) xs) = hd0 (filter P xs)"
  by (induction xs) auto

text \<open>The task that a post wakes: the first of the list that waits for the semaphore, hence one of the highest priority.\<close>

lemma nxsem_post_wakes:
  assumes inv: "sem_inv idle S" and s: "sem \<noteq> NULL" "semcount S sem < 0"
  shows "\<exists>xs t b S'. dq_rep (tcb_links (sys S), task_list (sys S) G_WAITINGFORSEMAPHORE) xs \<and>
    t = hd (filter (\<lambda>u. waitsem S u = sem) xs) \<and> t \<in> waiters S sem \<and>
    (\<forall>u \<in> waiters S sem. sched_priority (sys S) u \<le> sched_priority (sys S) t) \<and>
    nxsem_post S sem = Some (OK, b, S') \<and> sem_inv idle S' \<and> waiters S' = (waiters S)(sem := waiters S sem - {t}) \<and>
    semcount S' = (semcount S)(sem := semcount S sem + 1) \<and> b = (this_task (sys S') \<noteq> this_task (sys S)) \<and>
    same_tcbs (sys S) (sys S') \<and> (0 < lockcount (sys S) (this_task (sys S)) \<longrightarrow> \<not> b) \<and>
    \<not> is_blocked_state (task_state (sys S') t)"
proof -
  obtain A where A: "sched_inv idle (sys S) A" using sem_invD(1) [OF inv] by blast
  note c = sched_invD(1) [OF A]
  let ?xs = "A G_WAITINGFORSEMAPHORE"
  let ?ws = "filter (\<lambda>u. waitsem S u = sem) ?xs"
  have rep: "dq_rep (tcb_links (sys S), task_list (sys S) G_WAITINGFORSEMAPHORE) ?xs" by (rule lists_okD(1) [OF sched_coreD(1) [OF c]])
  have ws: "waiters S sem = set ?ws" by (rule waiters_list [OF A])
  have "set ?ws \<noteq> {}" unfolding ws [symmetric] using waiting_count [OF inv s(1)] s(2) by simp
  then have ne: "?ws \<noteq> []" unfolding set_empty .
  let ?t = "hd ?ws" and ?S1 = "set_count sem (semcount S sem + 1) S"
  have t: "?t \<in> waiters S sem" using hd_in_set [OF ne] ws by simp
  have tn: "?t \<noteq> NULL" using hd_in_set [OF ne] sched_coreD(4) [OF c] by auto
  have n: "to_int16 (semcount S sem + 1) = semcount S sem + 1"
    using s(2) sem_invD(3) [OF inv s(1)] by (intro to_int16_id) (simp_all add: SEM_VALUE_MAX_def)
  have "by_prio (sched_priority (sys S)) ?xs" using lists_invD(3) [OF sched_coreD(2) [OF c]] by simp
  then have "by_prio (sched_priority (sys S)) ?ws" by (rule sorted_wrt_filter)
  then have pr: "\<forall>u \<in> waiters S sem. sched_priority (sys S) u \<le> sched_priority (sys S) ?t"
    unfolding ws using ne by (cases ?ws) auto
  have "wait_search ?S1 sem (dq_head (task_list (sys S) G_WAITINGFORSEMAPHORE)) = Some ?t"
    using wait_search_ok [of ?S1 _ ?xs sem] dq_repD(1) [OF rep] hd0_dropWhile_filter [of "\<lambda>u. waitsem S u = sem" ?xs] ne
    by (simp add: hd0_eq_hd)
  moreover obtain b s' where 1: "up_unblock_task (sys S) ?t = Some (b, s')" "sem_inv idle (set_waitsem ?t NULL ?S1\<lparr>sys := s'\<rparr>)"
    "waiters (set_waitsem ?t NULL ?S1\<lparr>sys := s'\<rparr>) = (waiters S)(sem := waiters S sem - {?t})" "b = (this_task s' \<noteq> this_task (sys S))"
    "same_tcbs (sys S) s'" "0 < lockcount (sys S) (this_task (sys S)) \<longrightarrow> \<not> b" "\<not> is_blocked_state (task_state s' ?t)"
    using wake_ok [OF inv t s(1), of "set_waitsem ?t NULL ?S1"] n by auto
  ultimately have "nxsem_post S sem = Some (OK, b, set_waitsem ?t NULL ?S1\<lparr>sys := s'\<rparr>)"
    using s tn n by (simp add: nxsem_post_def Let_def SEM_VALUE_MAX_def)
  then show ?thesis
    using rep t pr 1 n
    by (intro exI [of _ ?xs] exI [of _ ?t] exI [of _ b] exI [of _ "set_waitsem ?t NULL ?S1\<lparr>sys := s'\<rparr>"]) simp
qed

lemma nxsem_post_free_ok:
  assumes inv: "sem_inv idle S" and s: "sem \<noteq> NULL" "0 \<le> semcount S sem" "semcount S sem < SEM_VALUE_MAX"
    and S': "S' = set_count sem (semcount S sem + 1) S"
  shows "nxsem_post S sem = Some (OK, False, S')" "sem_inv idle S'" "waiters S' = waiters S"
    "semcount S' = (semcount S)(sem := semcount S sem + 1)" "sys S' = sys S"
proof -
  have n: "to_int16 (semcount S sem + 1) = semcount S sem + 1" using s(2,3) by (intro to_int16_id) simp_all
  show w: "waiters S' = waiters S" by (simp add: S' waiters_def fun_eq_iff)
  show c: "semcount S' = (semcount S)(sem := semcount S sem + 1)" and y: "sys S' = sys S" by (simp_all add: S' n)
  have "waiters S sem = {}" using waiting_count [OF inv s(1)] s(2) by simp
  then show "sem_inv idle S'" using inv s(2,3) unfolding sem_inv_def w c y by (auto simp: S')
  show "nxsem_post S sem = Some (OK, False, S')" using s n by (simp add: nxsem_post_def Let_def S')
qed

lemma nxsem_wait_irq_ok:
  assumes inv: "sem_inv idle S" and t: "task_state (sys S) t = TSTATE_WAIT_SEM" "sem = waitsem S t"
  shows "\<exists>b S'. nxsem_wait_irq S t err = Some (b, S') \<and> sem_inv idle S' \<and> waiters S' = (waiters S)(sem := waiters S sem - {t}) \<and>
    semcount S' = (semcount S)(sem := semcount S sem + 1) \<and> b = (this_task (sys S') \<noteq> this_task (sys S)) \<and>
    nxsem_wait_result S' t = (if err \<noteq> OK then - err else OK)"
proof -
  have s: "sem \<noteq> NULL" "t \<in> waiters S sem" using sem_invD(5) [OF inv, of t] t by (simp_all add: waiters_def)
  have "semcount S sem < 0" using waiting_count [OF inv s(1)] s(2) by auto
  then have n: "to_int16 (semcount S sem + 1) = semcount S sem + 1"
    using sem_invD(3) [OF inv s(1)] by (intro to_int16_id) (simp_all add: SEM_VALUE_MAX_def)
  let ?S1 = "set_errcode t err (set_waitsem t NULL (set_count sem (semcount S sem + 1) S))"
  obtain b s' where 1: "up_unblock_task (sys S) t = Some (b, s')" "sem_inv idle (?S1\<lparr>sys := s'\<rparr>)"
    "waiters (?S1\<lparr>sys := s'\<rparr>) = (waiters S)(sem := waiters S sem - {t})" "b = (this_task s' \<noteq> this_task (sys S))"
    using wake_ok [OF inv s(2,1), of ?S1] n by auto
  have "nxsem_wait_irq S t err = Some (b, ?S1\<lparr>sys := s'\<rparr>)" using 1(1) t by (simp add: nxsem_wait_irq_def Let_def)
  then show ?thesis using 1(2-4) n
    by (intro exI [of _ b] exI [of _ "?S1\<lparr>sys := s'\<rparr>"]) (simp add: nxsem_wait_result_def set_errcode_def)
qed

section \<open>The counting semaphore\<close>

text \<open>
  The events: the calls of the running task, posts and ends of waits (also from interrupt handlers), initialisation of
  a semaphore nobody waits for, and the other operations of the scheduler. The result tells whether the context switches.
\<close>

datatype sem_event =
    Sem_Init ptr int
  | Sem_Wait ptr
  | Sem_Trywait ptr
  | Sem_Post ptr
  | Sem_Irq ptr int
  | Sched sched_event

fun sem_exec :: "sem_event \<Rightarrow> sem_sys \<Rightarrow> (bool \<times> sem_sys) option" where
  "sem_exec (Sem_Init sem value) S = Some (False, snd (nxsem_init S sem value))"
| "sem_exec (Sem_Wait sem) S = do { (_, b, S) \<leftarrow> nxsem_wait S sem; Some (b, S) }"
| "sem_exec (Sem_Trywait sem) S = Some (False, snd (nxsem_trywait S sem))"
| "sem_exec (Sem_Post sem) S = do { (_, b, S) \<leftarrow> nxsem_post S sem; Some (b, S) }"
| "sem_exec (Sem_Irq t err) S = nxsem_wait_irq S t err"
| "sem_exec (Sched e) S = do { (b, s) \<leftarrow> sched_exec e (sys S); Some (b, S\<lparr>sys := s\<rparr>) }"

text \<open>
  The idle task does not block; the number of waiting tasks stays in the range of the count, since there are fewer
  tasks; nothing but the semaphores blocks and unblocks tasks in the state \<open>TSTATE_WAIT_SEM\<close>.
\<close>

fun sem_guard :: "ptr \<Rightarrow> sem_event \<Rightarrow> sem_sys \<Rightarrow> bool" where
  "sem_guard idle (Sem_Init sem value) S = (0 \<le> value \<and> 0 \<le> semcount S sem)"
| "sem_guard idle (Sem_Wait sem) S = (- 32768 < semcount S sem \<and> (semcount S sem \<le> 0 \<longrightarrow> this_task (sys S) \<noteq> idle))"
| "sem_guard idle (Sem_Trywait sem) S = True"
| "sem_guard idle (Sem_Post sem) S = True"
| "sem_guard idle (Sem_Irq t err) S = True"
| "sem_guard idle (Sched e) S = (sched_guard idle e (sys S) \<and>
     (case e of Block st \<Rightarrow> st \<noteq> TSTATE_WAIT_SEM | Unblock t \<Rightarrow> task_state (sys S) t \<noteq> TSTATE_WAIT_SEM | _ \<Rightarrow> True))"

text \<open>The specification: available counts and waiting tasks of every semaphore.\<close>

type_synonym sem_abs = "ptr \<Rightarrow> int \<times> ptr set"

definition sem_abs :: "sem_sys \<Rightarrow> sem_abs" where
  "sem_abs S sem = (max 0 (semcount S sem), waiters S sem)"

fun sem_spec :: "sem_event \<Rightarrow> sched_s \<Rightarrow> sem_abs \<Rightarrow> sem_abs \<Rightarrow> bool" where
  "sem_spec (Sem_Init sem value) s a a' =
     (a' = (if sem \<noteq> NULL \<and> value \<le> SEM_VALUE_MAX then a(sem := (value, {})) else a))"
| "sem_spec (Sem_Wait sem) s a a' =
     (case a sem of (n, W) \<Rightarrow> a' = (if sem = NULL then a else if 0 < n then a(sem := (n - 1, W)) else a(sem := (0, insert (this_task s) W))))"
| "sem_spec (Sem_Trywait sem) s a a' =
     (case a sem of (n, W) \<Rightarrow> a' = (if sem = NULL \<or> n = 0 then a else a(sem := (n - 1, W))))"
| "sem_spec (Sem_Post sem) s a a' =
     (case a sem of (n, W) \<Rightarrow>
        if sem = NULL \<or> n = SEM_VALUE_MAX then a' = a
        else if W = {} then a' = a(sem := (n + 1, {}))
        else \<exists>t \<in> W. (\<forall>u \<in> W. sched_priority s u \<le> sched_priority s t) \<and> a' = a(sem := (n, W - {t})))"
| "sem_spec (Sem_Irq t err) s a a' = (\<forall>sem. a' sem = (case a sem of (n, W) \<Rightarrow> (n, W - {t})))"
| "sem_spec (Sched e) s a a' = (a' = a)"

text \<open>The counts that an event grants and gives back, for a semaphore.\<close>

fun sem_granted :: "sem_event \<Rightarrow> sem_sys \<Rightarrow> ptr \<Rightarrow> int" where
  "sem_granted (Sem_Wait sem) S x = (if x = sem \<and> 0 < semcount S sem then 1 else 0)"
| "sem_granted (Sem_Trywait sem) S x = (if x = sem \<and> 0 < semcount S sem then 1 else 0)"
| "sem_granted (Sem_Post sem) S x = (if x = sem \<and> waiters S sem \<noteq> {} then 1 else 0)"
| "sem_granted _ S x = 0"

fun sem_posted :: "sem_event \<Rightarrow> sem_sys \<Rightarrow> ptr \<Rightarrow> int" where
  "sem_posted (Sem_Post sem) S x = (if x = sem \<and> semcount S sem < SEM_VALUE_MAX then 1 else 0)"
| "sem_posted _ S x = 0"

abbreviation sem_step :: "ptr \<Rightarrow> sem_event \<Rightarrow> sem_sys \<Rightarrow> bool \<Rightarrow> sem_sys \<Rightarrow> bool" where
  "sem_step idle e S b S' \<equiv> sem_exec e S = Some (b, S') \<and> sem_inv idle S' \<and> sem_spec e (sys S) (sem_abs S) (sem_abs S') \<and>
     b = (this_task (sys S') \<noteq> this_task (sys S)) \<and>
     (\<forall>x. x \<noteq> NULL \<longrightarrow> (\<forall>v. e \<noteq> Sem_Init x v) \<longrightarrow>
        max 0 (semcount S' x) = max 0 (semcount S x) + sem_posted e S x - sem_granted e S x)"

lemma sem_abs_simps: "sem_abs S sem = (n, W) \<longleftrightarrow> n = max 0 (semcount S sem) \<and> W = waiters S sem"
  by (auto simp: sem_abs_def)

lemma sem_abs_upd:
  assumes "waiters S' = (waiters S)(sem := W)" "semcount S' = (semcount S)(sem := c)"
  shows "sem_abs S' = (sem_abs S)(sem := (max 0 c, W))"
  using assms by (simp add: sem_abs_def fun_eq_iff)

lemma sem_init_step:
  assumes inv: "sem_inv idle S" and g: "sem_guard idle (Sem_Init sem v) S"
  shows "\<exists>b S'. sem_step idle (Sem_Init sem v) S b S'"
proof (cases "sem \<noteq> NULL \<and> v \<le> SEM_VALUE_MAX")
  case True
  let ?S = "set_count sem v S"
  have n: "to_int16 v = v" using True g by (intro to_int16_id) simp_all
  have w: "waiters ?S = waiters S" by (simp add: waiters_def fun_eq_iff)
  have e: "waiters S sem = {}" using waiting_count [OF inv, of sem] True g by simp
  have "sem_inv idle ?S" using inv True g e unfolding sem_inv_def w by (auto simp: n)
  moreover have "sem_abs ?S = (sem_abs S)(sem := (v, {}))"
    using sem_abs_upd [of ?S S sem "waiters S sem" v] w e g n by (simp add: fun_upd_idem)
  ultimately show ?thesis using True n by (intro exI [of _ False] exI [of _ ?S]) (simp add: nxsem_init_def)
next
  case False
  then show ?thesis using inv by (intro exI [of _ False] exI [of _ S]) (auto simp: nxsem_init_def)
qed

lemma sem_wait_step:
  assumes inv: "sem_inv idle S" and g: "sem_guard idle (Sem_Wait sem) S"
  shows "\<exists>b S'. sem_step idle (Sem_Wait sem) S b S'"
proof -
  consider "sem = NULL" | "sem \<noteq> NULL" "0 < semcount S sem" | "sem \<noteq> NULL" "semcount S sem \<le> 0" by linarith
  then show ?thesis
  proof cases
    case 1
    then show ?thesis using inv by (intro exI [of _ False] exI [of _ S]) (simp add: nxsem_wait_def split: prod.splits)
  next
    case 2
    let ?S = "set_waitsem (this_task (sys S)) NULL (set_count sem (semcount S sem - 1) S)"
    note t = nxsem_take_ok [OF inv 2 refl]
    have "nxsem_wait S sem = Some (Some OK, False, ?S)" using 2 by (simp add: nxsem_wait_def Let_def)
    moreover have "sem_abs ?S = (sem_abs S)(sem := (semcount S sem - 1, waiters S sem))"
      using sem_abs_upd [of ?S S sem "waiters S sem", OF _ t(3)] t(2) 2(2) by (simp add: fun_upd_idem)
    ultimately show ?thesis using 2 t by (intro exI [of _ False] exI [of _ ?S]) (simp add: sem_abs_def)
  next
    case 3
    have i: "this_task (sys S) \<noteq> idle" "- 32768 < semcount S sem" using g 3(2) by simp_all
    obtain S' where S': "nxsem_wait S sem = Some (None, True, S')" "sem_inv idle S'"
      "waiters S' = (waiters S)(sem := insert (this_task (sys S)) (waiters S sem))" "semcount S' = (semcount S)(sem := semcount S sem - 1)"
      using nxsem_wait_block_ok [OF inv 3 i(2) refl i(1)] by blast
    have "this_task (sys S) \<in> waiters S' sem" using S'(3) by simp
    then have ts: "task_state (sys S') (this_task (sys S)) = TSTATE_WAIT_SEM" by (simp add: waiters_def)
    obtain A' where "sched_inv idle (sys S') A'" using sem_invD(1) [OF S'(2)] by blast
    from inv_states(1) [OF this, of "this_task (sys S)"] have "this_task (sys S') \<noteq> this_task (sys S)" using ts by auto
    moreover have "sem_abs S' = (sem_abs S)(sem := (0, insert (this_task (sys S)) (waiters S sem)))"
      using sem_abs_upd [OF S'(3,4)] 3(2) by simp
    ultimately show ?thesis using 3 S'(1,2,4) by (intro exI [of _ True] exI [of _ S']) (simp add: sem_abs_def)
  qed
qed

lemma sem_trywait_step:
  assumes inv: "sem_inv idle S"
  shows "\<exists>b S'. sem_step idle (Sem_Trywait sem) S b S'"
proof (cases "sem \<noteq> NULL \<and> 0 < semcount S sem")
  case True
  let ?S = "set_waitsem (this_task (sys S)) NULL (set_count sem (semcount S sem - 1) S)"
  note t = nxsem_take_ok [OF inv conjunct1 [OF True] conjunct2 [OF True] refl]
  have "nxsem_trywait S sem = (OK, ?S)" using True by (simp add: nxsem_trywait_def Let_def)
  moreover have "sem_abs ?S = (sem_abs S)(sem := (semcount S sem - 1, waiters S sem))"
    using sem_abs_upd [of ?S S sem "waiters S sem", OF _ t(3)] t(2) True by (simp add: fun_upd_idem)
  ultimately show ?thesis using True t by (intro exI [of _ False] exI [of _ ?S]) (simp add: sem_abs_def)
next
  case False
  then have "snd (nxsem_trywait S sem) = S" by (auto simp: nxsem_trywait_def Let_def)
  then show ?thesis using inv False by (intro exI [of _ False] exI [of _ S]) (auto simp: sem_abs_def)
qed

lemma sem_post_step:
  assumes inv: "sem_inv idle S"
  shows "\<exists>b S'. sem_step idle (Sem_Post sem) S b S'"
proof -
  consider "sem = NULL" | "sem \<noteq> NULL" "semcount S sem = SEM_VALUE_MAX" | "sem \<noteq> NULL" "0 \<le> semcount S sem" "semcount S sem < SEM_VALUE_MAX"
    | "sem \<noteq> NULL" "semcount S sem < 0"
    using sem_invD(4) [OF inv, of sem] by fastforce
  then show ?thesis
  proof cases
    case 1
    then show ?thesis using inv by (intro exI [of _ False] exI [of _ S]) (simp add: nxsem_post_def split: prod.splits)
  next
    case 2
    then have "waiters S sem = {}" using waiting_count [OF inv 2(1)] by (simp add: SEM_VALUE_MAX_def)
    then show ?thesis using inv 2
      by (intro exI [of _ False] exI [of _ S]) (simp add: nxsem_post_def sem_abs_def SEM_VALUE_MAX_def)
  next
    case 3
    note p = nxsem_post_free_ok [OF inv 3 refl]
    let ?S = "set_count sem (semcount S sem + 1) S"
    have e: "waiters S sem = {}" using waiting_count [OF inv 3(1)] 3(2) by simp
    have "sem_abs ?S = (sem_abs S)(sem := (semcount S sem + 1, {}))"
      using sem_abs_upd [of ?S S sem "waiters S sem", OF _ p(4)] p(3) 3(2) e by (simp add: fun_upd_idem)
    then show ?thesis using 3 p e by (intro exI [of _ False] exI [of _ ?S]) (simp add: sem_abs_def)
  next
    case 4
    obtain t b S' where p: "t \<in> waiters S sem" "\<forall>u \<in> waiters S sem. sched_priority (sys S) u \<le> sched_priority (sys S) t"
      "nxsem_post S sem = Some (OK, b, S')" "sem_inv idle S'" "waiters S' = (waiters S)(sem := waiters S sem - {t})"
      "semcount S' = (semcount S)(sem := semcount S sem + 1)" "b = (this_task (sys S') \<noteq> this_task (sys S))"
      using nxsem_post_wakes [OF inv 4] by (elim exE conjE) (rule that)
    have "sem_abs S' = (sem_abs S)(sem := (0, waiters S sem - {t}))" using sem_abs_upd [OF p(5,6)] 4(2) by simp
    moreover have "sem_abs S sem = (0, waiters S sem)" using 4(2) by (simp add: sem_abs_def)
    ultimately have "sem_spec (Sem_Post sem) (sys S) (sem_abs S) (sem_abs S')"
      using p(1,2) 4 by (auto simp: SEM_VALUE_MAX_def)
    moreover have "waiters S sem \<noteq> {}" using p(1) by blast
    ultimately show ?thesis using 4 p(3,4,6,7) by (intro exI [of _ b] exI [of _ S']) (simp add: SEM_VALUE_MAX_def)
  qed
qed

lemma sem_irq_step:
  assumes inv: "sem_inv idle S"
  shows "\<exists>b S'. sem_step idle (Sem_Irq t err) S b S'"
proof (cases "task_state (sys S) t = TSTATE_WAIT_SEM")
  case True
  let ?sem = "waitsem S t"
  have s: "?sem \<noteq> NULL" "t \<in> waiters S ?sem" using sem_invD(5) [OF inv, of t] True by (simp_all add: waiters_def)
  have n: "semcount S ?sem < 0" using waiting_count [OF inv s(1)] s(2) by auto
  obtain b S' where 1: "nxsem_wait_irq S t err = Some (b, S')" "sem_inv idle S'" "waiters S' = (waiters S)(?sem := waiters S ?sem - {t})"
    "semcount S' = (semcount S)(?sem := semcount S ?sem + 1)" "b = (this_task (sys S') \<noteq> this_task (sys S))"
    using nxsem_wait_irq_ok [OF inv True refl, of err] by blast
  have "waiters S x - {t} = waiters S x" if "x \<noteq> ?sem" for x using that by (auto simp: waiters_def)
  then have "sem_spec (Sem_Irq t err) (sys S) (sem_abs S) (sem_abs S')"
    using n by (auto simp: sem_abs_def 1(3,4))
  then show ?thesis using 1(1,2,4,5) n by (intro exI [of _ b] exI [of _ S']) auto
next
  case False
  then have "t \<notin> waiters S x" for x by (simp add: waiters_def)
  then have "sem_spec (Sem_Irq t err) (sys S) (sem_abs S) (sem_abs S)" by (simp add: sem_abs_def)
  then show ?thesis using inv False by (intro exI [of _ False] exI [of _ S]) (simp add: nxsem_wait_irq_def)
qed

lemma sem_sched_step:
  assumes inv: "sem_inv idle S" and g: "sem_guard idle (Sched e) S"
  shows "\<exists>b S'. sem_step idle (Sched e) S b S'"
proof -
  obtain A where A: "sched_inv idle (sys S) A" using sem_invD(1) [OF inv] by blast
  obtain b s' A' where 1: "sched_exec e (sys S) = Some (b, s')" "sched_inv idle s' A'" "b = (this_task s' \<noteq> this_task (sys S))"
    "blocked_eq (event_tasks e (sys S)) (task_state (sys S)) (task_state s')"
    "\<forall>u \<in> event_tasks e (sys S). task_state s' u = TSTATE_WAIT_SEM \<longrightarrow> e = Block TSTATE_WAIT_SEM"
    using sched_exec_ok [OF A, of e] g by auto
  have "task_state s' u \<noteq> TSTATE_WAIT_SEM \<and> task_state (sys S) u \<noteq> TSTATE_WAIT_SEM" if "u \<in> event_tasks e (sys S)" for u
    using 1(5) that g inv_states(1) [OF A, of u] by (cases e) auto
  then have "task_state s' u = TSTATE_WAIT_SEM \<longleftrightarrow> task_state (sys S) u = TSTATE_WAIT_SEM" for u
    using 1(4) by (cases "u \<in> event_tasks e (sys S)") (auto simp: blocked_eq_def is_blocked_state_def)
  note s = sem_inv_sys [OF inv 1(2) this]
  have "sem_abs (S\<lparr>sys := s'\<rparr>) = sem_abs S" using s(2) by (simp add: sem_abs_def fun_eq_iff)
  then show ?thesis using 1(1,3) s(1) by (intro exI [of _ b] exI [of _ "S\<lparr>sys := s'\<rparr>"]) simp
qed

lemma sem_exec_step:
  assumes "sem_inv idle S" "sem_guard idle e S"
  shows "\<exists>b S'. sem_step idle e S b S'"
proof (cases e)
  case (Sem_Init sem v)
  show ?thesis using assms(2) unfolding Sem_Init by (rule sem_init_step [OF assms(1)])
next
  case (Sem_Wait sem)
  show ?thesis using assms(2) unfolding Sem_Wait by (rule sem_wait_step [OF assms(1)])
next
  case (Sem_Trywait sem)
  show ?thesis unfolding Sem_Trywait by (rule sem_trywait_step [OF assms(1)])
next
  case (Sem_Post sem)
  show ?thesis unfolding Sem_Post by (rule sem_post_step [OF assms(1)])
next
  case (Sem_Irq t err)
  show ?thesis unfolding Sem_Irq by (rule sem_irq_step [OF assms(1)])
next
  case (Sched e')
  show ?thesis using assms(2) unfolding Sched by (rule sem_sched_step [OF assms(1)])
qed

section \<open>Reachable states\<close>

text \<open>Before the first \<open>nxsem_init\<close> all memory is zero.\<close>

definition sem_start :: "ptr \<Rightarrow> sem_sys" where
  "sem_start idle = \<lparr>sys = nx_start_lists idle, semcount = \<lambda>_. 0, waitsem = \<lambda>_. NULL, errcode = \<lambda>_. 0\<rparr>"

inductive sem_reach :: "ptr \<Rightarrow> sem_sys \<Rightarrow> bool" for idle where
  sem_start: "idle \<noteq> NULL \<Longrightarrow> sem_reach idle (sem_start idle)"
| sem_step: "sem_reach idle S \<Longrightarrow> sem_guard idle e S \<Longrightarrow> sem_exec e S = Some (b, S') \<Longrightarrow> sem_reach idle S'"

lemma sem_start_inv: "idle \<noteq> NULL \<Longrightarrow> sem_inv idle (sem_start idle)"
proof -
  assume "idle \<noteq> NULL"
  note i = nx_start_inv [OF this]
  have "task_state (nx_start_lists idle) t \<noteq> TSTATE_WAIT_SEM" for t by (simp add: start_defs)
  then show ?thesis using i unfolding sem_inv_def sem_start_def waiters_def by (auto simp: SEM_VALUE_MAX_def)
qed

lemma sem_reach_inv: "sem_reach idle S \<Longrightarrow> sem_inv idle S"
proof (induction rule: sem_reach.induct)
  case sem_start
  then show ?case by (rule sem_start_inv)
next
  case (sem_step S e b S')
  then show ?case using sem_exec_step [of idle S e] by auto
qed

fun sem_run :: "sem_event list \<Rightarrow> sem_sys \<Rightarrow> sem_sys option" where
  "sem_run [] S = Some S"
| "sem_run (e # es) S = do { (_, S) \<leftarrow> sem_exec e S; sem_run es S }"

fun sem_guards :: "ptr \<Rightarrow> sem_event list \<Rightarrow> sem_sys \<Rightarrow> bool" where
  "sem_guards idle [] S = True"
| "sem_guards idle (e # es) S =
     (sem_guard idle e S \<and> (case sem_exec e S of None \<Rightarrow> True | Some (_, S) \<Rightarrow> sem_guards idle es S))"

lemma sem_run_reach: "sem_reach idle S \<Longrightarrow> sem_guards idle es S \<Longrightarrow> sem_run es S = Some S' \<Longrightarrow> sem_reach idle S'"
proof (induction es arbitrary: S)
  case (Cons e es)
  then obtain b S1 where 1: "sem_exec e S = Some (b, S1)" by (auto split: Option.bind_splits)
  then have "sem_reach idle S1" using Cons.prems by (auto intro: sem_reach.sem_step)
  then show ?case using Cons 1 by auto
qed auto



text \<open>
  C37. The semaphores refine the counting semaphore: in every state reachable through calls on semaphores, interrupted
  waits and operations of the scheduler in any order, every admissible event returns and changes the available
  counts and the sets of waiting tasks as \<open>sem_spec\<close> says. A wait takes a count or makes the running task wait; a post
  adds a count or, if tasks wait, lets one of them with the highest priority go on; an interrupted wait leaves the
  counts alone. No task waits for a semaphore that has counts available, and the context switches exactly when the
  running task changes.
\<close>

theorem sem_refines_counting:
  assumes "sem_reach idle S" "sem_guard idle e S"
  shows "\<exists>b S'. sem_exec e S = Some (b, S') \<and> sem_spec e (sys S) (sem_abs S) (sem_abs S') \<and>
    b = (this_task (sys S') \<noteq> this_task (sys S)) \<and>
    (\<forall>sem. sem \<noteq> NULL \<longrightarrow> fst (sem_abs S' sem) = 0 \<or> snd (sem_abs S' sem) = {})"
proof -
  obtain b S' where 1: "sem_step idle e S b S'" using sem_exec_step [OF sem_reach_inv [OF assms(1)] assms(2)] by blast
  have "\<forall>sem. sem \<noteq> NULL \<longrightarrow> fst (sem_abs S' sem) = 0 \<or> snd (sem_abs S' sem) = {}"
    using waiting_count [of idle S'] 1 by (auto simp: sem_abs_def)
  with 1 show ?thesis by blast
qed

definition demo_sem_events :: "sem_event list" where
  "demo_sem_events = [Sem_Init 50 1, Sched (Create 2 100), Sched (Create 3 60), Sched (Unblock 3), Sem_Wait 50, Sched (Unblock 2), Sem_Wait 50]"

lemma demo_sem_reach:
  "\<exists>S. sem_reach 1 S \<and> semcount S 50 = - 1 \<and> waiters S 50 = {2} \<and> this_task (sys S) = 3 \<and> lockable (sys S) \<and>
     sem_guards 1 [Sem_Trywait 50, Sem_Post 50] S"
proof -
  let ?P = "\<lambda>S. semcount S 50 = - 1 \<and> task_state (sys S) 2 = TSTATE_WAIT_SEM \<and> waitsem S 2 = 50 \<and> this_task (sys S) = 3 \<and> lockable (sys S) \<and>
     sem_guards 1 [Sem_Trywait 50, Sem_Post 50] S"
  have g: "sem_guards 1 demo_sem_events (sem_start 1)" by code_simp
  have "case sem_run demo_sem_events (sem_start 1) of None \<Rightarrow> False | Some S \<Rightarrow> ?P S" by code_simp
  then obtain S where S: "sem_run demo_sem_events (sem_start 1) = Some S" "?P S" by (auto split: option.splits)
  have "sem_reach 1 (sem_start 1)" by (rule sem_reach.sem_start) simp
  then have r: "sem_reach 1 S" by (rule sem_run_reach [OF _ g S(1)])
  have "card (waiters S 50) = 1" using sem_invD(2) [OF sem_reach_inv [OF r], of 50] S(2) by simp
  moreover have "2 \<in> waiters S 50" using S(2) by (simp add: waiters_def)
  ultimately have "waiters S 50 = {2}" by (auto simp: card_1_singleton_iff)
  then show ?thesis using r S(2) by blast
qed

theorem sem_refines_counting_witness:
  "\<exists>S b S'. sem_reach 1 S \<and> sem_abs S 50 = (0, {2}) \<and> sem_exec (Sem_Post 50) S = Some (b, S') \<and> sem_abs S' 50 = (0, {})"
proof -
  obtain S where S: "sem_reach 1 S" "semcount S 50 = - 1" "waiters S 50 = {2}" using demo_sem_reach by blast
  have a: "sem_abs S 50 = (0, {2})" using S by (simp add: sem_abs_def)
  have g: "sem_guard 1 (Sem_Post 50) S" by simp
  show ?thesis using sem_refines_counting [OF S(1) g] a S(1) by (auto simp: SEM_VALUE_MAX_def)
qed



section \<open>Resetting a semaphore\<close>

lemma reset_loop_ok:
  assumes "sem_inv idle S" "sem \<noteq> NULL" "0 < lockcount (sys S) (this_task (sys S))"
    "k = (if semcount S sem < 0 then min (int n) (- semcount S sem) else 0)"
  shows "\<exists>S' W. reset_loop S sem (int n) = Some (int n - k, S') \<and> sem_inv idle S' \<and> W \<subseteq> waiters S sem \<and>
    waiters S' = (waiters S)(sem := W) \<and> semcount S' = (semcount S)(sem := semcount S sem + k) \<and>
    (\<forall>t \<in> waiters S sem - W. \<forall>u \<in> W. sched_priority (sys S) u \<le> sched_priority (sys S) t) \<and>
    same_tcbs (sys S) (sys S') \<and> this_task (sys S') = this_task (sys S)"
  using assms(1,3,4)
proof (induction n arbitrary: S k)
  case 0
  then show ?case by (subst reset_loop.simps) (auto intro!: exI [of _ "waiters S sem"])
next
  case (Suc n)
  show ?case
  proof (cases "semcount S sem < 0")
    case False
    then show ?thesis using Suc.prems by (subst reset_loop.simps) (auto intro!: exI [of _ "waiters S sem"])
  next
    case True
    obtain t b S1 where 1: "t \<in> waiters S sem" "\<forall>u \<in> waiters S sem. sched_priority (sys S) u \<le> sched_priority (sys S) t"
      "nxsem_post S sem = Some (OK, b, S1)" "sem_inv idle S1" "waiters S1 = (waiters S)(sem := waiters S sem - {t})"
      "semcount S1 = (semcount S)(sem := semcount S sem + 1)" "b = (this_task (sys S1) \<noteq> this_task (sys S))"
      "same_tcbs (sys S) (sys S1)" "0 < lockcount (sys S) (this_task (sys S)) \<longrightarrow> \<not> b"
      using nxsem_post_wakes [OF Suc.prems(1) assms(2) True] by (elim exE conjE) (rule that, assumption+, intro conjI)
    have th: "this_task (sys S1) = this_task (sys S)" using 1(7,9) Suc.prems(2) by simp
    have "0 < lockcount (sys S1) (this_task (sys S1))" "k - 1 = (if semcount S1 sem < 0 then min (int n) (- semcount S1 sem) else 0)"
      using Suc.prems(2,3) True 1(6,8) th by (auto simp: min_def)
    from Suc.IH [OF 1(4) this] obtain S' W where 2: "reset_loop S1 sem (int n) = Some (int n - (k - 1), S')" "sem_inv idle S'"
      "W \<subseteq> waiters S1 sem" "waiters S' = (waiters S1)(sem := W)" "semcount S' = (semcount S1)(sem := semcount S1 sem + (k - 1))"
      "\<forall>t \<in> waiters S1 sem - W. \<forall>u \<in> W. sched_priority (sys S1) u \<le> sched_priority (sys S1) t"
      "same_tcbs (sys S1) (sys S')" "this_task (sys S') = this_task (sys S1)"
      by blast
    have W: "W \<subseteq> waiters S sem - {t}" using 2(3) 1(5) by simp
    have "\<forall>v \<in> waiters S sem - W. \<forall>u \<in> W. sched_priority (sys S) u \<le> sched_priority (sys S) v"
    proof (intro ballI)
      fix v u assume "v \<in> waiters S sem - W" "u \<in> W"
      then show "sched_priority (sys S) u \<le> sched_priority (sys S) v"
        using 1(2,5,8) 2(6) W by (cases "v = t") auto
    qed
    moreover have "reset_loop S sem (int (Suc n)) = Some (int (Suc n) - k, S')"
      using True 1(3) 2(1) by (subst reset_loop.simps) simp
    moreover have "waiters S' = (waiters S)(sem := W)" "semcount S' = (semcount S)(sem := semcount S sem + k)"
      using 2(4,5) 1(5,6) by simp_all
    moreover have "same_tcbs (sys S) (sys S')" "this_task (sys S') = this_task (sys S)" using 1(8) 2(7,8) th by simp_all
    moreover have "W \<subseteq> waiters S sem" using W by blast
    ultimately show ?thesis using 2(2) by blast
  qed
qed

lemma reset_lock_ok:
  assumes inv: "sem_inv idle S" and lb: "lockable (sys S)" and S1: "S1 = S\<lparr>sys := sched_lock False (sys S)\<rparr>"
  shows "sem_inv idle S1" "waiters S1 = waiters S" "semcount S1 = semcount S" "sched_priority (sys S1) = sched_priority (sys S)"
    "this_task (sys S1) = this_task (sys S)" "0 < lockcount (sys S1) (this_task (sys S1))"
proof -
  obtain A where A: "sched_inv idle (sys S) A" using sem_invD(1) [OF inv] by blast
  note c = sched_invD(1) [OF A] and lk = sched_lock_ok [OF A lb, of False]
  have st: "task_state (sched_lock False (sys S)) = task_state (sys S)" by (simp add: sched_lock_def Let_def)
  show "sem_inv idle S1" "waiters S1 = waiters S" unfolding S1 using sem_inv_sys [OF inv lk(1)] st by simp_all
  show "semcount S1 = semcount S" "sched_priority (sys S1) = sched_priority (sys S)" by (simp_all add: S1 sched_lock_def Let_def)
  show th: "this_task (sys S1) = this_task (sys S)" using lk(2) by (simp add: S1)
  have "this_task (sys S) \<noteq> NULL" using sched_coreD(3,4) [OF c] hd0_in_set [OF lists_invD(4) [OF sched_coreD(2) [OF c]]] by metis
  then show "0 < lockcount (sys S1) (this_task (sys S1))"
    unfolding th using sched_invD(3) [OF A, of "this_task (sys S)"] by (simp add: S1 sched_lock_eq [OF A lb])
qed

lemma reset_unlock_ok:
  assumes inv: "sem_inv idle S" and s: "sem \<noteq> NULL" "0 \<le> c" "c \<le> SEM_VALUE_MAX"
    and S1: "S1 = (if semcount S sem \<ge> 0 then set_count sem c S else S)"
  shows "\<exists>b s'. sched_unlock False (sys S1) = Some (b, s') \<and> b = (this_task s' \<noteq> this_task (sys S)) \<and>
    waiters (S1\<lparr>sys := s'\<rparr>) = waiters S \<and> semcount S1 = (semcount S)(sem := if semcount S sem \<ge> 0 then c else semcount S sem)"
proof -
  have n: "to_int16 c = c" using s(2,3) by (intro to_int16_id) simp_all
  have w: "waiters S1 = waiters S" "sys S1 = sys S" "waitsem S1 = waitsem S" by (auto simp: S1 waiters_def fun_eq_iff)
  have "0 \<le> semcount S sem \<Longrightarrow> waiters S sem = {}" using waiting_count [OF inv s(1)] by simp
  then have i1: "sem_inv idle S1" using inv s(2,3) unfolding sem_inv_def w by (auto simp: S1 n)
  obtain A where A: "sched_inv idle (sys S) A" using sem_invD(1) [OF inv] by blast
  obtain b s' A' where u: "sched_unlock False (sys S) = Some (b, s')" "sched_inv idle s' A'" "b = (this_task s' \<noteq> this_task (sys S))"
    "blocked_eq {} (task_state (sys S)) (task_state s')"
    using sched_unlock_ok [OF A] by (elim exE conjE) (rule that)
  have "task_state s' v = TSTATE_WAIT_SEM \<longleftrightarrow> task_state (sys S1) v = TSTATE_WAIT_SEM" for v
    using u(4) w(2) by (simp add: blocked_eq_def is_blocked_state_def)
  note f = sem_inv_sys [OF i1 u(2) this]
  show ?thesis using u(1,3) w f(2) by (intro exI [of _ b] exI [of _ s']) (auto simp: S1 n)
qed

text \<open>
  C39. \<open>nxsem_reset\<close> ends and returns: the loop hands out at most \<open>count\<close> counts, to the waiting tasks of the highest
  priorities. Afterwards \<open>count\<close> minus the number of tasks that waited is the value of the semaphore: the
  counts left over, or as a negative value the tasks that still wait. Other semaphores keep their values and
  waiting tasks, and the running task changes, if at all, at the end, as the flag tells. The caller has not reached the limit of
  nested locks, as \<open>sched_lock\<close> asserts.
\<close>

theorem nxsem_reset_terminates:
  assumes "sem_reach idle S" "sem \<noteq> NULL" "0 \<le> count" "count \<le> SEM_VALUE_MAX" "lockable (sys S)"
  shows "\<exists>b S' W. nxsem_reset S sem count = Some (OK, b, S') \<and> W \<subseteq> waiters S sem \<and> waiters S' = (waiters S)(sem := W) \<and>
    semcount S' = (semcount S)(sem := count - int (card (waiters S sem))) \<and> int (card W) = max 0 (int (card (waiters S sem)) - count) \<and>
    (\<forall>t \<in> waiters S sem - W. \<forall>u \<in> W. sched_priority (sys S) u \<le> sched_priority (sys S) t) \<and>
    b = (this_task (sys S') \<noteq> this_task (sys S))"
proof -
  note inv = sem_reach_inv [OF assms(1)]
  let ?c = "semcount S sem" and ?S1 = "S\<lparr>sys := sched_lock False (sys S)\<rparr>"
  note l = reset_lock_ok [OF inv assms(5) refl]
  define k where "k = (if ?c < 0 then min count (- ?c) else 0)"
  have nc: "int (nat count) = count" using assms(3) by simp
  have k': "k = (if semcount ?S1 sem < 0 then min (int (nat count)) (- semcount ?S1 sem) else 0)" unfolding nc l(3) k_def by (rule refl)
  obtain S2 W where 2: "reset_loop ?S1 sem count = Some (count - k, S2)" "sem_inv idle S2" "W \<subseteq> waiters S sem"
    "waiters S2 = (waiters S)(sem := W)" "semcount S2 = (semcount S)(sem := ?c + k)"
    "\<forall>t \<in> waiters S sem - W. \<forall>u \<in> W. sched_priority (sys S) u \<le> sched_priority (sys S) t" "this_task (sys S2) = this_task (sys S)"
    using reset_loop_ok [OF l(1) assms(2) l(6) k'] unfolding nc l(2-5) by blast
  have card: "int (card (waiters S sem)) = max 0 (- ?c)" by (rule sem_invD(2) [OF inv assms(2)])
  let ?S3 = "if semcount S2 sem \<ge> 0 then set_count sem (count - k) S2 else S2"
  have kc: "0 \<le> count - k" "count - k \<le> SEM_VALUE_MAX" using assms(3,4) by (auto simp: k_def)
  obtain b s' where 3: "sched_unlock False (sys ?S3) = Some (b, s')" "b = (this_task s' \<noteq> this_task (sys S2))"
    "waiters (?S3\<lparr>sys := s'\<rparr>) = waiters S2" "semcount ?S3 = (semcount S2)(sem := if semcount S2 sem \<ge> 0 then count - k else semcount S2 sem)"
    using reset_unlock_ok [OF 2(2) assms(2) kc refl] by blast
  have "semcount ?S3 = (semcount S)(sem := count - int (card (waiters S sem)))"
    by (rule trans [OF 3(4)]) (use assms(3) in \<open>auto simp: 2(5) card k_def\<close>)
  moreover have "int (card W) = max 0 (int (card (waiters S sem)) - count)"
    using sem_invD(2) [OF 2(2) assms(2)] 2(4,5) card assms(3) by (auto simp: k_def)
  moreover have "nxsem_reset S sem count = Some (OK, b, ?S3\<lparr>sys := s'\<rparr>)"
    using 2(1) 3(1) by (simp add: nxsem_reset_def Let_def)
  ultimately show ?thesis using 2(3,4,6,7) 3(2,3)
    by (intro exI [of _ b] exI [of _ "?S3\<lparr>sys := s'\<rparr>"] exI [of _ W]) simp
qed

theorem nxsem_reset_terminates_witness:
  "\<exists>S b S'. sem_reach 1 S \<and> waiters S 50 = {2} \<and> nxsem_reset S 50 3 = Some (OK, b, S') \<and> semcount S' 50 = 2"
proof -
  obtain S where S: "sem_reach 1 S" "waiters S 50 = {2}" "lockable (sys S)" using demo_sem_reach by blast
  have "(50 :: ptr) \<noteq> NULL" "(0::int) \<le> 3" "3 \<le> SEM_VALUE_MAX" by (simp_all add: SEM_VALUE_MAX_def)
  from nxsem_reset_terminates [OF S(1) this S(3)] show ?thesis using S by auto
qed

end
