(* ===== verification/Calendar.thy ===== *)
theory Calendar
  imports Prelude
begin

text \<open>
  Conversion between seconds since 1970 and calendar time (\<open>libs/libc/time\<close>), in the configuration without
  \<open>CONFIG_GREGORIAN_TIME\<close>: \<open>gmtime_r\<close> finds the year from periods of four years, the month by bisection, and \<open>mktime\<close>
  counts back. The values are not negative, so that the division of C is \<open>div\<close>; \<open>time_t\<close> has 32 bits. The
  conversions are inverse to one another until the end of the year 2100, which both take for a leap year from
  then on.
\<close>

section \<open>Calendar arithmetic\<close>

definition g_daysbeforemonth :: "int list" where
  "g_daysbeforemonth = [0, 31, 59, 90, 120, 151, 181, 212, 243, 273, 304, 334, 365]"

definition clock_daysbeforemonth :: "int \<Rightarrow> bool \<Rightarrow> int" where
  "clock_daysbeforemonth month leapyear =
     (let retval = g_daysbeforemonth ! nat month in if month \<ge> 2 \<and> leapyear then retval + 1 else retval)"

definition clock_isleapyear :: "int \<Rightarrow> bool" where
  "clock_isleapyear year =
     (if year mod 400 \<noteq> 0 then if year mod 100 \<noteq> 0 then if year mod 4 \<noteq> 0 then False else True else False else True)"

definition clock_dayoftheweek :: "int \<Rightarrow> int \<Rightarrow> int \<Rightarrow> int" where
  "clock_dayoftheweek mday month year =
     (let (year, month) = (if month \<le> 2 then (year - 1, month + 12) else (year, month));
          month = month - 2
      in (mday + year + year div 4 - year div 100 + year div 400 + (31 * month) div 12) mod 7)"

section \<open>Seconds to calendar time\<close>

text \<open>The length of the year, and the loop that counts the years of the last period.\<close>

definition year_days :: "bool \<Rightarrow> int" where
  "year_days leapyear = (if leapyear then 366 else 365)"

function year_loop :: "int \<Rightarrow> int \<Rightarrow> int \<times> int" where
  "year_loop v days =
     (let tmp = year_days (clock_isleapyear (v + 1970))
      in if days \<ge> tmp then year_loop (v + 1) (days - tmp) else (v, days))"
  by pat_completeness auto
termination
  by (relation "measure (\<lambda>(v, days). nat days)") (auto simp: year_days_def split: if_splits)

text \<open>The bisection for the month; the loop ends with \<open>break\<close> or when the bounds meet.\<close>

function month_search :: "int \<Rightarrow> int \<Rightarrow> int \<Rightarrow> bool \<Rightarrow> int" where
  "month_search lo hi days leapyear =
     (let v = (lo + hi) div 2
      in if clock_daysbeforemonth (v + 1) leapyear > days
         then if clock_daysbeforemonth v leapyear > days
              then if lo < v - 1 then month_search lo (v - 1) days leapyear else lo
              else v
         else if v + 1 < hi then month_search (v + 1) hi days leapyear else v + 1)"
  by pat_completeness auto
termination
  by (relation "measure (\<lambda>(lo, hi, days, leapyear). nat (hi - lo))") auto

text \<open>Year, month and day, months and days from 1 on.\<close>

definition clock_utc2calendar :: "int \<Rightarrow> int \<times> int \<times> int" where
  "clock_utc2calendar days =
     (let v = days div (4 * 365 + 1);
          days = days - v * (4 * 365 + 1);
          v = v * 4;
          (v, days) = year_loop v days;
          leapyear = clock_isleapyear (v + 1970);
          year = 1970 + v;
          v = month_search 0 11 days leapyear;
          days = days - clock_daysbeforemonth v leapyear
      in (year, v + 1, days + 1))"

record tm =
  tm_sec :: int
  tm_min :: int
  tm_hour :: int
  tm_mday :: int
  tm_mon :: int
  tm_year :: int
  tm_wday :: int
  tm_yday :: int
  tm_isdst :: int
  tm_gmtoff :: int

definition gmtime_r :: "int \<Rightarrow> tm" where
  "gmtime_r timep =
     (let epoch = timep;
          jdn = epoch div 86400;
          epoch = epoch - 86400 * jdn;
          hour = epoch div 3600;
          epoch = epoch - 3600 * hour;
          mins = epoch div 60;
          epoch = epoch - 60 * mins;
          sec = epoch;
          (year, month, day) = clock_utc2calendar jdn
      in \<lparr>tm_sec = sec, tm_min = mins, tm_hour = hour, tm_mday = day, tm_mon = month - 1, tm_year = year - 1900,
          tm_wday = clock_dayoftheweek day month year,
          tm_yday = day + clock_daysbeforemonth (month - 1) (clock_isleapyear year),
          tm_isdst = 0, tm_gmtoff = 0\<rparr>)"

section \<open>Calendar time to seconds\<close>

definition clock_calendar2utc :: "int \<Rightarrow> int \<Rightarrow> int \<Rightarrow> int" where
  "clock_calendar2utc year month day =
     (let days = (year - 1970) * 365;
          days = days + (year - 1969) div 4;
          days = days + clock_daysbeforemonth month (clock_isleapyear year);
          days = days + (day - 1)
      in days)"

definition mktime :: "tm \<Rightarrow> int" where
  "mktime tp =
     (let jdn = clock_calendar2utc (tm_year tp + 1900) (tm_mon tp) (tm_mday tp)
      in (((jdn * 24 + tm_hour tp) * 60 + tm_min tp) * 60 + tm_sec tp) mod 2 ^ 32)"

declare year_loop.simps [simp del] month_search.simps [simp del]

section \<open>The month\<close>

lemma daysbeforemonth_table:
  "clock_daysbeforemonth 0 l = 0" "clock_daysbeforemonth 1 l = 31" "clock_daysbeforemonth 12 l = year_days l"
  by (auto simp: clock_daysbeforemonth_def g_daysbeforemonth_def year_days_def)

lemma month_cases:
  assumes "0 \<le> (m::int)" "m \<le> 11"
  shows "m \<in> {0, 1, 2, 3, 4, 5, 6, 7, 8, 9, 10, 11}"
  using assms unfolding insert_iff empty_iff by presburger

lemma daysbeforemonth_step:
  assumes "0 \<le> m" "m \<le> 11"
  shows "clock_daysbeforemonth m l + 28 \<le> clock_daysbeforemonth (m + 1) l" "clock_daysbeforemonth (m + 1) l \<le> clock_daysbeforemonth m l + 31"
  using month_cases [OF assms] by (auto simp: clock_daysbeforemonth_def g_daysbeforemonth_def)

lemma daysbeforemonth_mono:
  assumes "0 \<le> m" "m \<le> n" "n \<le> 12"
  shows "clock_daysbeforemonth m l \<le> clock_daysbeforemonth n l"
  using assms(2,1,3)
proof (induction n rule: int_ge_induct)
  case (step n)
  then show ?case using daysbeforemonth_step(1) [of n l] by simp
qed simp

lemma month_search_ok:
  assumes "0 \<le> lo" "lo \<le> hi" "hi \<le> 11" "clock_daysbeforemonth lo l \<le> days" "days < clock_daysbeforemonth (hi + 1) l"
    "m = month_search lo hi days l"
  shows "0 \<le> m \<and> m \<le> 11 \<and> clock_daysbeforemonth m l \<le> days \<and> days < clock_daysbeforemonth (m + 1) l"
  using assms
proof (induction lo hi days l rule: month_search.induct)
  case (1 lo hi days l)
  let ?v = "(lo + hi) div 2"
  have v: "lo \<le> ?v" "?v \<le> hi" using "1.prems"(2) by auto
  show ?case
  proof (cases "days < clock_daysbeforemonth (?v + 1) l")
    case True
    show ?thesis
    proof (cases "days < clock_daysbeforemonth ?v l")
      case True2: True
      have "lo < ?v" using True2 "1.prems"(4) v(1) by (cases "lo = ?v") auto
      show ?thesis
      proof (cases "lo < ?v - 1")
        case True3: True
        have "m = month_search lo (?v - 1) days l"
          using "1.prems"(6) True True2 True3 month_search.simps [of lo hi days l] by (simp add: Let_def)
        then show ?thesis using "1.IH"(1) [OF refl True True2 True3] "1.prems"(1,3,4) v True2 True3 by simp
      next
        case False
        then have "?v = lo + 1" using \<open>lo < ?v\<close> by simp
        then show ?thesis using "1.prems" v True True2 month_search.simps [of lo hi days l] by (simp add: Let_def)
      qed
    next
      case False
      then show ?thesis using True v "1.prems" month_search.simps [of lo hi days l] by (simp add: Let_def)
    qed
  next
    case False
    then have "?v < hi" using "1.prems"(5) v(2) by (cases "?v = hi") auto
    show ?thesis
    proof (cases "?v + 1 < hi")
      case True
      have "m = month_search (?v + 1) hi days l"
        using "1.prems"(6) False True month_search.simps [of lo hi days l] by (simp add: Let_def)
      then show ?thesis using "1.IH"(2) [OF refl False True] "1.prems"(1,3,5) v False True by simp
    next
      case False2: False
      then have "?v + 1 = hi" using \<open>?v < hi\<close> by simp
      then show ?thesis using "1.prems" v False month_search.simps [of lo hi days l] by (simp add: Let_def)
    qed
  qed
qed

section \<open>The year\<close>

text \<open>The days before a year: 2100 is the first year divisible by four that is not a leap year.\<close>

definition days_before_year :: "int \<Rightarrow> int" where
  "days_before_year v = v * 365 + (v + 1) div 4"

lemma leap_table: "list_all (\<lambda>v. clock_isleapyear (v + 1970) = (v mod 4 = 2)) [0..129] \<and> \<not> clock_isleapyear 2100"
  by code_simp

lemma leap_until_2100:
  assumes "0 \<le> v" "v \<le> 130"
  shows "clock_isleapyear (v + 1970) \<longleftrightarrow> v mod 4 = 2 \<and> v \<noteq> 130"
proof (cases "v = 130")
  case False
  then have "v \<in> set [0..129]" using assms by simp
  then show ?thesis using leap_table False unfolding list_all_iff by blast
qed (use leap_table in simp)

lemma days_before_next_year:
  assumes "0 \<le> v" "v < 130"
  shows "days_before_year (v + 1) = days_before_year v + year_days (clock_isleapyear (v + 1970))"
proof -
  have "(v + 1 + 1) div 4 = (v + 1) div 4 + (if v mod 4 = 2 then 1 else 0)" by presburger
  then show ?thesis using leap_until_2100 [of v] assms by (simp add: days_before_year_def year_days_def)
qed

text \<open>The loop finds the year from every year before it, if that year ends before 2101.\<close>

lemma year_loop_ok:
  assumes "0 \<le> v" "v \<le> 130" "0 \<le> r" "days_before_year v + r < 47847"
  shows "\<exists>w r'. year_loop v r = (w, r') \<and> v \<le> w \<and> w \<le> 130 \<and> 0 \<le> r' \<and> r' < year_days (clock_isleapyear (w + 1970)) \<and>
    days_before_year v + r = days_before_year w + r'"
  using assms
proof (induction v r rule: year_loop.induct)
  case (1 v r)
  let ?n = "year_days (clock_isleapyear (v + 1970))"
  show ?case
  proof (cases "?n \<le> r")
    case False
    then show ?thesis using "1.prems" by (subst year_loop.simps) (simp add: Let_def)
  next
    case True
    have "v \<noteq> 130"
    proof
      assume "v = 130"
      then show False using True "1.prems"(4) leap_table by (simp add: days_before_year_def year_days_def)
    qed
    then have n: "days_before_year (v + 1) = days_before_year v + ?n" "v + 1 \<le> 130"
      using days_before_next_year [of v] "1.prems"(1,2) by simp_all
    have "\<exists>w r'. year_loop (v + 1) (r - ?n) = (w, r') \<and> v + 1 \<le> w \<and> w \<le> 130 \<and> 0 \<le> r' \<and> r' < year_days (clock_isleapyear (w + 1970)) \<and>
        days_before_year (v + 1) + (r - ?n) = days_before_year w + r'"
      using "1.prems" True n by (intro "1.IH" [OF refl]) simp_all
    then show ?thesis using True n(1) by (subst year_loop.simps) (auto simp: Let_def)
  qed
qed

lemma utc2calendar_ok:
  assumes "0 \<le> days" "days < 47847" "clock_utc2calendar days = (year, month, day)" "l = clock_isleapyear year"
  shows "1970 \<le> year" "year \<le> 2100" "1 \<le> month" "month \<le> 12" "1 \<le> day"
    "day \<le> clock_daysbeforemonth month l - clock_daysbeforemonth (month - 1) l"
    "days = days_before_year (year - 1970) + clock_daysbeforemonth (month - 1) l + day - 1"
proof -
  let ?q = "days div 1461"
  have q: "0 \<le> ?q" "?q * 4 \<le> 130" "0 \<le> days - ?q * 1461" "days_before_year (?q * 4) = ?q * 1461"
    using assms(1,2) by (auto simp: days_before_year_def minus_div_mult_eq_mod)
  obtain w r where 1: "year_loop (?q * 4) (days - ?q * 1461) = (w, r)" "?q * 4 \<le> w" "w \<le> 130" "0 \<le> r"
    "r < year_days (clock_isleapyear (w + 1970))" "days = days_before_year w + r"
    using year_loop_ok [of "?q * 4" "days - ?q * 1461"] q assms(1,2) by auto
  let ?l = "clock_isleapyear (w + 1970)"
  let ?m = "month_search 0 11 r ?l"
  have m: "0 \<le> ?m" "?m \<le> 11" "clock_daysbeforemonth ?m ?l \<le> r" "r < clock_daysbeforemonth (?m + 1) ?l"
    using month_search_ok [of 0 11 ?l r ?m] 1(4,5) by (simp_all add: daysbeforemonth_table)
  have e: "year = 1970 + w" "month = ?m + 1" "day = r - clock_daysbeforemonth ?m ?l + 1"
    using assms(3) 1(1) by (auto simp: clock_utc2calendar_def Let_def)
  have l: "l = ?l" using assms(4) e(1) by (simp add: add.commute)
  show "1970 \<le> year" "year \<le> 2100" "1 \<le> month" "month \<le> 12" "1 \<le> day" using e m 1(2,3) q(1) by simp_all
  show "day \<le> clock_daysbeforemonth month l - clock_daysbeforemonth (month - 1) l" using e m(4) unfolding l by simp
  show "days = days_before_year (year - 1970) + clock_daysbeforemonth (month - 1) l + day - 1" using 1(6) e unfolding l by simp
qed

section \<open>The day of the week\<close>

lemma weekday_table:
  "list_all (\<lambda>v. list_all (\<lambda>m. clock_dayoftheweek 1 (m + 1) (v + 1970) =
       (4 + days_before_year v + clock_daysbeforemonth m (clock_isleapyear (v + 1970))) mod 7) [0..11]) [0..130]"
  by code_simp

lemma weekday_ok:
  assumes "1970 \<le> year" "year \<le> 2100" "1 \<le> month" "month \<le> 12" "l = clock_isleapyear year"
  shows "clock_dayoftheweek day month year = (4 + days_before_year (year - 1970) + clock_daysbeforemonth (month - 1) l + day - 1) mod 7"
proof -
  define v m where vm: "v = year - 1970" "m = month - 1"
  have "v \<in> set [0..130]" "m \<in> set [0..11]" using assms by (simp_all add: vm)
  then have one: "clock_dayoftheweek 1 month year = (4 + days_before_year v + clock_daysbeforemonth m l) mod 7"
    using weekday_table assms(5) unfolding list_all_iff by (fastforce simp: vm)
  obtain k where k: "clock_dayoftheweek d month year = (d + k) mod 7" for d
    by (rule that [of "clock_dayoftheweek 0 month year"])
      (cases "month \<le> 2"; simp add: clock_dayoftheweek_def Let_def mod_add_right_eq; simp add: algebra_simps)
  have "(day + k) mod 7 = ((1 + k) mod 7 + (day - 1)) mod 7" unfolding mod_add_left_eq by (simp add: algebra_simps)
  also have "\<dots> = (4 + days_before_year v + clock_daysbeforemonth m l + (day - 1)) mod 7"
    unfolding k [symmetric] one mod_add_left_eq ..
  finally show ?thesis unfolding k vm by (simp add: algebra_simps)
qed

section \<open>The conversions are inverse\<close>

text \<open>
  C40. Round trip of calendar time: for every time from the beginning of 1970 to the end of 2100, \<open>gmtime_r\<close> gives a
  well-formed date (time of day, month and day of the month in their ranges, the day not behind the end of the month), the
  day of the week that 1970 began with as a Thursday, and \<open>mktime\<close> of it is the time again. \<open>tm_yday\<close> counts the days
  of the year from 1.
\<close>

theorem mktime_gmtime_r:
  assumes "0 \<le> t" "t < 47847 * 86400" "d = gmtime_r t" "l = clock_isleapyear (tm_year d + 1900)"
  shows "mktime d = t \<and> 0 \<le> tm_sec d \<and> tm_sec d < 60 \<and> 0 \<le> tm_min d \<and> tm_min d < 60 \<and> 0 \<le> tm_hour d \<and> tm_hour d < 24 \<and>
    70 \<le> tm_year d \<and> tm_year d \<le> 200 \<and> 0 \<le> tm_mon d \<and> tm_mon d \<le> 11 \<and> 1 \<le> tm_mday d \<and>
    tm_mday d \<le> clock_daysbeforemonth (tm_mon d + 1) l - clock_daysbeforemonth (tm_mon d) l \<and>
    tm_wday d = (4 + t div 86400) mod 7 \<and>
    t div 86400 = days_before_year (tm_year d - 70) + tm_yday d - 1"
proof -
  obtain year month day where c: "clock_utc2calendar (t div 86400) = (year, month, day)" by (cases "clock_utc2calendar (t div 86400)")
  have j: "0 \<le> t div 86400" "t div 86400 < 47847" using assms(1,2) by auto
  let ?l = "clock_isleapyear year"
  note u = utc2calendar_ok [OF j c refl]
  let ?s = "t - 86400 * (t div 86400)"
  have e: "tm_year d = year - 1900" "tm_mon d = month - 1" "tm_mday d = day" "tm_hour d = ?s div 3600"
    "tm_min d = (?s - 3600 * (?s div 3600)) div 60" "tm_sec d = ?s - 3600 * (?s div 3600) - 60 * ((?s - 3600 * (?s div 3600)) div 60)"
    "tm_wday d = clock_dayoftheweek day month year" "tm_yday d = day + clock_daysbeforemonth (month - 1) ?l"
    using assms(3) c by (simp_all add: gmtime_r_def Let_def)
  have l: "l = ?l" using assms(4) e(1) by simp
  have r: "0 \<le> ?s" "?s < 86400" by (simp_all add: minus_mult_div_eq_mod)
  have h: "0 \<le> tm_sec d" "tm_sec d < 60" "0 \<le> tm_min d" "tm_min d < 60" "0 \<le> tm_hour d" "tm_hour d < 24"
    "tm_hour d * 3600 + tm_min d * 60 + tm_sec d = ?s"
    using r unfolding e(4-6) by (simp_all add: minus_mult_div_eq_mod)
  have "clock_calendar2utc (tm_year d + 1900) (tm_mon d) (tm_mday d) = t div 86400"
    unfolding e(1-3) clock_calendar2utc_def Let_def using u(7) by (simp add: days_before_year_def)
  then have "mktime d = t mod 2 ^ 32" using h(7) by (simp add: mktime_def Let_def algebra_simps)
  moreover have "t mod 2 ^ 32 = t" using assms(1,2) by simp
  moreover have "tm_wday d = (4 + t div 86400) mod 7" 
    unfolding e(7) weekday_ok [OF u(1-4) refl] by (subst u(7)) (simp add: algebra_simps)
  ultimately show ?thesis using h(1-6) u e(1-3,8) unfolding l by simp
qed

theorem mktime_gmtime_r_witness: "mktime (gmtime_r 951782400) = 951782400 \<and> tm_mday (gmtime_r 951782400) = 29 \<and> tm_mon (gmtime_r 951782400) = 1"
proof -
  have "tm_mday (gmtime_r 951782400) = 29" "tm_mon (gmtime_r 951782400) = 1" by code_simp+
  then show ?thesis using mktime_gmtime_r [of 951782400, OF _ _ refl refl] by simp
qed

text \<open>The first time for which they are not: the beginning of 2101.\<close>

lemma mktime_gmtime_r_2101: "mktime (gmtime_r (47847 * 86400)) = 47848 * 86400"
  by code_simp

end
