(* ===== verification/Spec2Isabelle.thy ===== *)
theory Spec2Isabelle
  imports Queue_DQ Circbuf Wdog Gran_Info Mm_Realloc Mm_Extend Sem_Props Calendar
begin

text \<open>
  Verification of kernel data structures and services of the NuttX real-time operating system (\<open>src/nuttx\<close>).

  \<^bold>\<open>The program.\<close> The queue package links the control blocks of tasks, watchdogs and released heap blocks. The
  scheduler keeps the control blocks of tasks in such queues, ordered by priority, and decides which task runs.
  Semaphores block and unblock tasks through the scheduler; the heap manager and the granule allocator protect their
  data with semaphores. Watchdogs call functions from the timer interrupt. The circular buffer stores the bytes
  of drivers, and the C library converts between times and calendar dates.

  \<^bold>\<open>Conventions.\<close> A pointer is a natural number with \<open>NULL = 0\<close>; a structure in memory is a group of functions from
  pointers to field values in the record of the component's state, so that aliasing is explicit. Sizes are 32 bit wide:
  machine words in the circular buffer and the granule tables, numbers reduced by \<open>sz32\<close> in the heap, and the 16
  bit counts of semaphores and of scheduler locks are reduced by \<open>to_int16\<close>. Error returns are the negated codes of \<open>include/errno.h\<close>. A loop that
  follows links ends only on well-formed memory; it is a \<open>partial_function (option)\<close> without fuel, \<open>None\<close> means
  that it does not return, and every property states that it returns. All other loops are terminating recursions. Debug
  assertions and log output are left out, as in a build without \<open>CONFIG_DEBUG_FEATURES\<close>. Critical sections make
  each operation one step, on one processor.

  \<^bold>\<open>Theories and what they model.\<close>

  \<^item> \<open>Prelude\<close>: pointers, error codes, block copies, chains of linked nodes (\<open>lseg\<close>).

  \<^item> \<open>Queue_Interface\<close>, \<open>Queue_SQ\<close>, \<open>Queue_DQ\<close> (\<open>include/queue.h\<close>, \<open>libs/libc/queue\<close>): every \<open>sq_\<close> and \<open>dq_\<close> routine over an
    explicit heap of links. The locale \<open>linked_queue\<close> is the contract of a queue and is interpreted for both packages.
    C1 and C3: any sequence of operations computes what the list specification computes. C2: first in, first out.
    C4: concatenation.

  \<^item> \<open>Circbuf\<close> (\<open>mm/circbuf/circbuf.c\<close>): the whole module. C5: a bounded byte FIFO, if the size divides the range of the
    counters; C6 and C7: overwriting and resizing keep the newest bytes; C8: for other sizes the wrap-around of
    the counters loses the order of the bytes.

  \<^item> \<open>Wdog\<close> (\<open>sched/wdog\<close>): start, cancel, remaining time, expiration and both timer handlers. The watchdog functions are a
    parameter (locale \<open>wd_functions\<close>), a function from the call to the starts and cancellations it makes. C9: the
    list of delays behaves like timers sorted by due time; C10: exact expiry; C11 remaining time, C12 cancellation,
    C13 the tickless handler equals repeated periodic ticks.

  \<^item> \<open>Gran\<close>, \<open>Gran_Info\<close> (\<open>mm/mm_gran\<close>): the granule allocator with its bit tables. What lies behind the table is a
    parameter, as the code reads one word too far. C14: first fit; C15: disjoint, aligned live allocations over every
    sequence of calls; C16 reservation; C17 and C18: the report is exact and predicts allocation. \<open>Alloc_Interface\<close>
    states the contract of an allocator (locale \<open>allocator\<close>), interpreted for this one and for the heap.

  \<^item> \<open>Mm_Heap\<close> (\<open>mm/mm_heap\<close>): the code of the heap manager for one region: nodes with sizes, allocation bits and links, the
    size-ordered list of free nodes with its bucket heads, the list of delayed releases and the recursive semaphore.
    \<open>Mm_Freelist\<close> shows that the list of free nodes is a sorted list; \<open>Mm_Tiling\<close> describes the region as a sequence of
    chunks without gaps or adjacent free chunks; \<open>Mm_Alloc\<close>, \<open>Mm_Malloc\<close> and \<open>Mm_Init\<close> show that the operations
    act on this sequence. \<open>Mm_Client\<close> C19--C24: safety for clients, best fit, release and coalescing, the round trip,
    releases in interrupt handlers, the wrap-around of huge requests. \<open>Mm_Info\<close> C25, C26: statistics and zeroed blocks;
    \<open>Mm_Align\<close> C27, \<open>Mm_Realloc\<close> C28, \<open>Mm_Extend\<close> C29, C30: aligned blocks, reallocation, extension and the break
    address.

  \<^item> \<open>Sched_Lists\<close> (\<open>sched/sched\<close>, the list part of \<open>sched/init/nx_start.c\<close> and \<open>sched/task/task_setup.c\<close>, and the switching
    decisions of \<open>arch/sim\<close>): the code of the scheduler on the task lists. \<open>Sched_Prio\<close> has the ordered insertion, \<open>Sched_Inv\<close> the
    invariant \<open>sched_inv\<close>, \<open>Sched_Safe\<close> that every operation keeps it, \<open>Sched_Run\<close> the events of a system and their
    sequences. \<open>Sched_Props\<close> C31: a ready task of the highest priority runs, always; C32: merging the
    pending tasks in one pass equals unblocking them one by one; C33 and C34: a locked section keeps the processor and gives
    it up at its end; C35: round robin order within a priority; C36: change of priority and its errors.

  \<^item> \<open>Sem_Code\<close>, \<open>Sem_Props\<close> (\<open>sched/semaphore\<close>, \<open>libs/libc/semaphore\<close>): semaphores on top of the scheduler. The model's
    \<open>sem_reach\<close> is reachability by calls, interrupted waits and scheduler events. C37: they refine the counting semaphore;
    C38: grants are bounded by posts; C39: \<open>nxsem_reset\<close> ends, with the value asked for.

  \<^item> \<open>Calendar\<close> (\<open>libs/libc/time\<close>): \<open>gmtime_r\<close> and \<open>mktime\<close> without \<open>CONFIG_GREGORIAN_TIME\<close>. C40: the round trip up to the end
    of 2100; \<open>mktime_gmtime_r_2101\<close> shows that it fails on the next day.

  \<^bold>\<open>Composition.\<close> The scheduler uses the doubly linked queue through the representation lemmas of \<open>Queue_DQ\<close>, the
  semaphores use the scheduler through \<open>sched_inv\<close> and its frame, and the heap takes its semaphore through the three
  functions \<open>count_trywait\<close>, \<open>count_wait\<close> and \<open>count_post\<close>, which this theory shows to be what the calls of \<open>Sem_Code\<close> do
  to the count.

  \<^bold>\<open>Parameters.\<close> Code outside the sources or chosen by the user: the block \<open>kmm_malloc\<close> returns in the
  circular buffer, whether \<open>kmm_zalloc\<close> returned one and whether the lock was taken in the granule allocator, the watchdog
  functions, and for the heap the process id and whether the caller is an interrupt handler or the idle task.

  \<^bold>\<open>Bounds.\<close> The heap theorems are for one region below \<open>2 ^ 32\<close> with the alignment of a 32 bit machine; the scheduler
  theorems for priorities from 1 to 255 and locks nested no deeper than \<open>sched_lock\<close> asserts (\<open>lockable\<close>); the semaphore theorems for at most
  32768 tasks waiting for one semaphore, the range of its count.

  \<^bold>\<open>Not modelled.\<close> Drivers, boards, ports and the example applications access hardware or only perform input
  and output. Of the scheduler, multiprocessing, time slices, sporadic scheduling and the saved register context; of
  the semaphores, priority inheritance, timed waits (their watchdog ends a wait through \<open>nxsem_wait_irq\<close>, which is
  modelled) and the POSIX wrappers; of calendar time, the Gregorian variants and text. The file systems, the network
  and graphics stacks, signals, message and work queues, task groups and the rest of the C library
  are separate components that none of the modelled routines calls.
\<close>

section \<open>The semaphore of a heap is a kernel semaphore\<close>

text \<open>
  The functions the heap's model uses for its semaphore are the effect of the kernel's calls on the count: \<open>count_wait\<close>
  gives nothing exactly where \<open>nxsem_wait\<close> blocks.
\<close>

lemma heap_trywait_is_nxsem_trywait:
  assumes "sem_inv idle S" "sem \<noteq> NULL" "nxsem_trywait S sem = (ret, S')"
  shows "count_trywait (semcount S sem) = (ret, semcount S' sem)"
  using assms(2,3) sem_invD(3,4) [OF assms(1,2)]
  by (auto simp: nxsem_trywait_def count_trywait_def Let_def set_count_def set_waitsem_def to_int16_id split: if_splits)

lemma heap_wait_is_nxsem_wait:
  assumes "sem_inv idle S" "sem \<noteq> NULL" "nxsem_wait S sem = Some (ret, sw, S')"
  shows "count_wait (semcount S sem) = (if ret = None then None else Some (semcount S' sem))"
  using assms(2,3) sem_invD(3,4) [OF assms(1,2)]
  by (auto simp: nxsem_wait_def count_wait_def Let_def set_count_def set_waitsem_def to_int16_id bind_eq_Some_conv split: if_splits)

lemma heap_post_is_nxsem_post:
  assumes "sem_inv idle S" "sem \<noteq> NULL" "nxsem_post S sem = Some (ret, sw, S')"
  shows "count_post (semcount S sem) = semcount S' sem"
  using assms(2,3) sem_invD(3,4) [OF assms(1,2)]
  by (auto simp: nxsem_post_def count_post_def Let_def set_count_def set_waitsem_def to_int16_id bind_eq_Some_conv split: if_splits)

end
